(* ===== verification/Prelude.thy ===== *)
theory Prelude
  imports Main "HOL-Library.Word"
begin

text \<open>
  What every component of the development shares: the names of the machine types, the
  outcome of an operation that may abort, the collections of simplification rules, linked
  chains over an arbitrary successor function, and a few facts about shifting and masking
  64-bit words.
\<close>

unbundle bit_operations_syntax

section \<open>Machine types\<close>

text \<open>
  An address is the unsigned value of a pointer. The fields that the code packs into 64
  bits (position independent pointers, counted pointers, anchors) keep their raw words.
\<close>

type_synonym u64 = "64 word"
type_synonym byte = "8 word"
type_synonym addr = nat
type_synonym memory = "addr \<Rightarrow> byte"

abbreviation (input) null_ptr :: addr where
  "null_ptr \<equiv> 0"

named_theorems pm_consts \<open>the numeric constants of the allocator\<close>
named_theorems region_simps \<open>what the region operations compute\<close>
named_theorems frame_simps \<open>fields an operation leaves alone\<close>

section \<open>Outcomes\<close>

text \<open>
  The allocator is compiled with its assertions, so a failed \<^verbatim>\<open>assert\<close> ends the run. Running
  out of the mapped file is reported by an assertion of its own. \<open>Retry\<close> is a compare and
  exchange that found another value: the surrounding loop goes round again. \<open>Exited\<close> is a
  call of \<^verbatim>\<open>exit(1)\<close>, \<open>NullDeref\<close> an access through a null pointer, \<open>BadCall\<close> a call of an empty
  \<^verbatim>\<open>std::function\<close>, \<open>Diverges\<close> a loop that makes no progress, and \<open>OutOfFuel\<close> a loop that went round more
  often than the bound its definition gives.
\<close>

datatype failure = AssertFailed | OutOfSpace | Retry | Exited | NullDeref | BadCall | Diverges | OutOfFuel

type_synonym 'a outcome = "failure + 'a"

definition and_then :: "'a outcome \<Rightarrow> ('a \<Rightarrow> 'b outcome) \<Rightarrow> 'b outcome" where
  "and_then m f = (case m of Inl e \<Rightarrow> Inl e | Inr a \<Rightarrow> f a)"

definition check :: "bool \<Rightarrow> 'a outcome \<Rightarrow> 'a outcome" where
  "check b m = (if b then m else Inl AssertFailed)"

section \<open>Linked chains\<close>

text \<open>
  \<open>chain f p xs q\<close>: starting at \<open>p\<close> and following \<open>f\<close>, one meets exactly \<open>xs\<close> and then
  \<open>q\<close>. \<open>run f p xs\<close>: the same with the last successor left open, the shape of a list whose
  length is stored beside its head.
\<close>

primrec chain :: "('a \<Rightarrow> 'a) \<Rightarrow> 'a \<Rightarrow> 'a list \<Rightarrow> 'a \<Rightarrow> bool" where
  "chain f p [] q \<longleftrightarrow> p = q"
| "chain f p (x # xs) q \<longleftrightarrow> p = x \<and> chain f (f x) xs q"

definition run :: "('a \<Rightarrow> 'a) \<Rightarrow> 'a \<Rightarrow> 'a list \<Rightarrow> bool" where
  "run f p xs \<longleftrightarrow> (\<exists>q. chain f p xs q)"

section \<open>Facts about outcomes\<close>

lemma and_then_simps [simp]:
  "and_then (Inl e) f = Inl e"
  "and_then (Inr a) f = f a"
  by (simp_all add: and_then_def)

lemma check_simps [simp]:
  "check True m = m"
  "check False m = Inl AssertFailed"
  by (simp_all add: check_def)

lemma and_then_Inr:
  "and_then m f = Inr b \<longleftrightarrow> (\<exists>a. m = Inr a \<and> f a = Inr b)"
  by (cases m) simp_all

lemma check_Inr:
  "check b m = Inr a \<longleftrightarrow> b \<and> m = Inr a"
  by (simp add: check_def)

lemma and_then_Inl:
  "and_then m f = Inl e \<longleftrightarrow> m = Inl e \<or> (\<exists>a. m = Inr a \<and> f a = Inl e)"
  by (cases m) auto

lemma and_then_assoc: "and_then (and_then m f) g = and_then m (\<lambda>a. and_then (f a) g)"
  by (cases m) simp_all

lemmas outcome_simps = and_then_Inr check_Inr

lemma Suc_Max_fresh:
  fixes A :: "nat set"
  assumes "finite A"
  shows "Suc (Max (insert 0 A)) \<notin> A"
proof
  assume "Suc (Max (insert 0 A)) \<in> A"
  then have "Suc (Max (insert 0 A)) \<le> Max (insert 0 A)" using assms by (intro Max_ge) auto
  then show False by simp
qed

section \<open>Facts about chains\<close>

lemma chain_append:
  "chain f p (xs @ ys) q \<longleftrightarrow> (\<exists>r. chain f p xs r \<and> chain f r ys q)"
  by (induction xs arbitrary: p) auto

lemma chain_cong:
  assumes "\<And>x. x \<in> set xs \<Longrightarrow> f x = g x"
  shows "chain f p xs q \<longleftrightarrow> chain g p xs q"
  using assms by (induction xs arbitrary: p) auto

lemma chain_det: "chain f p xs q \<Longrightarrow> chain f p ys q' \<Longrightarrow> length xs = length ys \<Longrightarrow> xs = ys \<and> q = q'"
proof (induction xs arbitrary: p ys)
  case Nil
  then show ?case by simp
next
  case (Cons x xs)
  then show ?case by (cases ys) auto
qed

lemma run_Nil [simp]: "run f p []"
  by (simp add: run_def)

lemma run_Cons: "run f p (x # xs) \<longleftrightarrow> p = x \<and> run f (f x) xs"
  by (auto simp: run_def)

lemma run_single [simp]: "run f p [x] \<longleftrightarrow> p = x"
  by (simp add: run_Cons)

lemma run_appendD:
  assumes "run f p (xs @ ys)"
  shows "run f p xs" and "ys \<noteq> [] \<Longrightarrow> xs \<noteq> [] \<Longrightarrow> f (last xs) = hd ys" and "xs \<noteq> [] \<Longrightarrow> run f (f (last xs)) ys"
proof -
  from assms obtain q r where r: "chain f p xs r" "chain f r ys q"
    by (auto simp: run_def chain_append)
  then show "run f p xs" by (auto simp: run_def)
  have last: "xs \<noteq> [] \<Longrightarrow> chain f p xs r \<Longrightarrow> r = f (last xs)" for p
    by (induction xs arbitrary: p) auto
  show "ys \<noteq> [] \<Longrightarrow> xs \<noteq> [] \<Longrightarrow> f (last xs) = hd ys"
    using last r by (cases ys) auto
  show "xs \<noteq> [] \<Longrightarrow> run f (f (last xs)) ys"
    using last r by (auto simp: run_def)
qed

lemma run_appendI:
  assumes "run f p xs" and "xs \<noteq> []" and "run f (f (last xs)) ys"
  shows "run f p (xs @ ys)"
  using assms
proof (induction xs arbitrary: p)
  case Nil
  then show ?case by simp
next
  case (Cons x xs)
  then show ?case
    by (cases xs) (auto simp: run_Cons)
qed

text \<open>Only the successors of the elements before the last one matter.\<close>

lemma run_cong:
  assumes "run f p xs" and "\<And>x. x \<in> set (butlast xs) \<Longrightarrow> f x = g x"
  shows "run g p xs"
  using assms
proof (induction xs arbitrary: p)
  case Nil
  then show ?case by simp
next
  case (Cons x xs)
  then show ?case
    by (cases xs) (auto simp: run_Cons)
qed

lemma run_cong_set:
  assumes "run f p xs" and "\<And>x. x \<in> set xs \<Longrightarrow> f x = g x"
  shows "run g p xs"
  by (rule run_cong [OF assms(1)]) (simp add: assms(2) in_set_butlastD)

lemma run_hd: "run f p xs \<Longrightarrow> xs \<noteq> [] \<Longrightarrow> hd xs = p"
  by (cases xs) (auto simp: run_Cons)

section \<open>Shifting and masking\<close>

lemma not_bit_ge:
  fixes w :: u64
  assumes "unat w < 2 ^ k" and "k \<le> n"
  shows "\<not> bit w n"
proof -
  have "take_bit k (unat w) = unat w"
    using assms(1) by (simp add: take_bit_nat_eq_self)
  then have "take_bit k w = w"
    by (metis unsigned_take_bit_eq unsigned_word_eqI)
  then show ?thesis
    using assms(2) by (metis bit_take_bit_iff not_less)
qed

lemma pack_low:
  fixes d c :: u64
  assumes "unat c < 2 ^ k"
  shows "take_bit k (push_bit k d OR c) = c"
proof (rule bit_word_eqI)
  fix n
  show "bit (take_bit k (push_bit k d OR c)) n = bit c n"
    using not_bit_ge [OF assms, of n] by (auto simp: bit_simps)
qed

lemma pack_high_take:
  fixes d c :: u64
  assumes "unat c < 2 ^ k" and "k \<le> 64"
  shows "drop_bit k (push_bit k d OR c) = take_bit (64 - k) d"
proof (rule bit_word_eqI)
  fix n
  assume "n < LENGTH(64)"
  then show "bit (drop_bit k (push_bit k d OR c)) n = bit (take_bit (64 - k) d) n"
    using not_bit_ge [OF assms(1), of "k + n"] assms(2)
    by (auto simp: bit_simps less_diff_conv)
qed

lemma take_bit_self_u64:
  fixes d :: u64
  assumes "unat d < 2 ^ k"
  shows "take_bit k d = d"
proof (rule bit_word_eqI)
  fix n
  show "bit (take_bit k d) n = bit d n"
    using not_bit_ge [OF assms, of n] by (cases "k \<le> n") (auto simp: bit_simps)
qed

lemma pack_high:
  fixes d c :: u64
  assumes "unat c < 2 ^ k" and "unat d < 2 ^ (64 - k)" and "k \<le> 64"
  shows "drop_bit k (push_bit k d OR c) = d"
  using assms by (simp only: pack_high_take take_bit_self_u64)

lemma and_not_mask_unat: "unat (w AND NOT (mask k) :: u64) = unat w div 2 ^ k * 2 ^ k"
proof -
  have lt: "unat w < 2 ^ 64" by (rule order_less_le_trans [OF unsigned_less]) simp
  have "w AND NOT (mask k) = push_bit k (drop_bit k w)"
    by (rule bit_word_eqI) (auto simp: bit_simps)
  moreover have "unat (push_bit k (drop_bit k w)) = unat w div 2 ^ k * 2 ^ k mod 2 ^ 64"
    unfolding unsigned_push_bit_eq unsigned_drop_bit_eq unfolding take_bit_eq_mod push_bit_eq_mult drop_bit_eq_div
    using lt by simp
  moreover have "unat w div 2 ^ k * 2 ^ k < 2 ^ 64"
  proof -
    have "unat w div 2 ^ k * 2 ^ k \<le> unat w" by (rule div_times_less_eq_dividend)
    then show ?thesis using lt by linarith
  qed
  ultimately show ?thesis by simp
qed

end
