(* ===== verification/PmConfig.thy ===== *)
theory PmConfig
  imports Prelude
begin

text \<open>
  The configuration of the allocator (\<^verbatim>\<open>pm_config.hpp\<close>): the customizable values, the layout
  constants, and the two macros that round a value up to an alignment, with the proof that
  they compute the least aligned value that is large enough.
\<close>

section \<open>Region indices and constants\<close>

datatype RegionIndex = DESC_IDX | SB_IDX | META_IDX

definition MAX_DESC_AMOUNT_BITS :: nat where [pm_consts]: "MAX_DESC_AMOUNT_BITS = 24"
definition MIN_SB_REGION_SIZE :: nat where [pm_consts]: "MIN_SB_REGION_SIZE = 1 * 1024 * 1024 * 1024"
definition SB_REGION_EXPAND_SIZE :: nat where [pm_consts]: "SB_REGION_EXPAND_SIZE = MIN_SB_REGION_SIZE"
definition MAX_ROOTS :: nat where [pm_consts]: "MAX_ROOTS = 1024"

definition CACHELINE_SIZE :: nat where [pm_consts]: "CACHELINE_SIZE = 64"
definition PAGESIZE :: nat where [pm_consts]: "PAGESIZE = 4096"

definition MAX_SZ_IDX :: nat where [pm_consts]: "MAX_SZ_IDX = 40"
definition MAX_SZ :: nat where [pm_consts]: "MAX_SZ = 2 ^ 13 + 2 ^ 11 * 3"
definition SBSIZE :: nat where [pm_consts]: "SBSIZE = 16 * PAGESIZE"
definition DESCSIZE :: nat where [pm_consts]: "DESCSIZE = CACHELINE_SIZE"
definition SB_SHIFT :: nat where [pm_consts]: "SB_SHIFT = 16"
definition DESC_SHIFT :: nat where [pm_consts]: "DESC_SHIFT = 6"

definition MAX_DESC_AMOUNT :: nat where [pm_consts]: "MAX_DESC_AMOUNT = 2 ^ MAX_DESC_AMOUNT_BITS"
definition MAX_DESC_OFFSET_BITS :: nat where [pm_consts]: "MAX_DESC_OFFSET_BITS = MAX_DESC_AMOUNT_BITS + 6"
definition MAX_DESC_OFFSET_MASK :: u64 where [pm_consts]: "MAX_DESC_OFFSET_MASK = push_bit MAX_DESC_OFFSET_BITS 1 - 1"
definition MAX_SB_AMOUNT :: nat where [pm_consts]: "MAX_SB_AMOUNT = MAX_DESC_AMOUNT"
definition MAX_SB_REGION_SIZE :: nat where [pm_consts]: "MAX_SB_REGION_SIZE = SBSIZE * MAX_SB_AMOUNT"
definition MAX_DESC_REGION_SIZE :: nat where [pm_consts]: "MAX_DESC_REGION_SIZE = DESCSIZE * MAX_DESC_AMOUNT"

definition PPTR_PATTERN_POS :: u64 where [pm_consts]: "PPTR_PATTERN_POS = 0x52b0"
definition PPTR_PATTERN_NEG :: u64 where [pm_consts]: "PPTR_PATTERN_NEG = 0x52b1"
definition PPTR_PATTERN_SHIFT :: nat where [pm_consts]: "PPTR_PATTERN_SHIFT = 16"
definition PPTR_PATTERN_MASK :: u64 where [pm_consts]: "PPTR_PATTERN_MASK = push_bit PPTR_PATTERN_SHIFT 1 - 2"

section \<open>Alignment macros\<close>

definition ALIGN_VAL :: "u64 \<Rightarrow> u64 \<Rightarrow> u64" where
  "ALIGN_VAL val align = (val + (align - 1)) AND (NOT align + 1)"

definition PAGE_CEILING :: "u64 \<Rightarrow> u64" where
  "PAGE_CEILING s = (s + (of_nat PAGESIZE - 1)) AND NOT (of_nat PAGESIZE - 1)"

text \<open>The number the macros are meant to compute: the least multiple of \<open>m\<close> not below \<open>n\<close>.\<close>

definition ceil_to :: "nat \<Rightarrow> nat \<Rightarrow> nat" where
  "ceil_to m n = (n + (m - 1)) div m * m"

section \<open>Facts\<close>

lemma ceil_to_least:
  assumes "0 < m"
  shows "n \<le> ceil_to m n" and "ceil_to m n < n + m" and "m dvd ceil_to m n"
    and "m dvd k \<Longrightarrow> n \<le> k \<Longrightarrow> ceil_to m n \<le> k"
proof -
  have split: "n + (m - 1) = ceil_to m n + (n + (m - 1)) mod m"
    by (simp add: ceil_to_def)
  have small: "(n + (m - 1)) mod m < m"
    using assms by simp
  show "n \<le> ceil_to m n" and "ceil_to m n < n + m"
    using split small assms by linarith+
  show "m dvd ceil_to m n"
    by (simp add: ceil_to_def)
  assume "m dvd k" and "n \<le> k"
  then obtain j where j: "k = j * m" by (metis dvd_def mult.commute)
  have "(n + (m - 1)) div m \<le> (k + (m - 1)) div m"
    using \<open>n \<le> k\<close> by (simp add: div_le_mono)
  also have "\<dots> = j"
    by (rule div_nat_eqI) (use assms j in \<open>auto simp: algebra_simps\<close>)
  finally have "(n + (m - 1)) div m * m \<le> j * m"
    by (rule mult_le_mono1)
  then show "ceil_to m n \<le> k"
    by (simp only: ceil_to_def j)
qed

lemma ceil_to_unique:
  assumes "0 < m" and "m dvd x" and "n \<le> x" and "x < n + m"
  shows "ceil_to m n = x"
proof (rule ccontr)
  assume "ceil_to m n \<noteq> x"
  moreover have "ceil_to m n \<le> x" and "n \<le> ceil_to m n" and "m dvd ceil_to m n"
    using assms by (auto intro: ceil_to_least)
  ultimately have "m dvd x - ceil_to m n" and "0 < x - ceil_to m n" and "x - ceil_to m n < m"
    using assms by auto
  then show False
    by (meson nat_dvd_not_less)
qed

lemma and_not_mask:
  fixes w :: u64
  shows "w AND NOT (mask k) = push_bit k (drop_bit k w)"
  by (rule bit_word_eqI) (auto simp: bit_simps)

lemma unat_and_not_mask:
  fixes w :: u64
  shows "unat (w AND NOT (mask k)) = unat w div 2 ^ k * 2 ^ k"
proof -
  have w: "unat w < 2 ^ 64"
    by (rule order_less_le_trans [OF unsigned_less]) simp
  have "unat w div 2 ^ k * 2 ^ k \<le> unat w"
    by (rule div_times_less_eq_dividend)
  with w have le: "unat w div 2 ^ k * 2 ^ k < 2 ^ 64"
    by linarith
  have "unat (push_bit k (drop_bit k w)) = take_bit 64 (push_bit k (drop_bit k (unat w)))"
    using w by (simp add: unsigned_push_bit_eq unsigned_drop_bit_eq take_bit_nat_eq_self)
  also have "push_bit k (drop_bit k (unat w)) = unat w div 2 ^ k * 2 ^ k"
    by (simp only: push_bit_eq_mult drop_bit_eq_div)
  also have "take_bit 64 \<dots> = \<dots>"
    using le by (rule take_bit_nat_eq_self)
  finally show ?thesis
    by (simp only: and_not_mask)
qed

lemma unat_mask_u64:
  assumes "k < 64"
  shows "unat (mask k :: u64) = 2 ^ k - 1"
proof -
  have "unat (mask k :: u64) = unat (of_nat (mask k) :: u64)"
    by (simp only: of_nat_mask_eq)
  also have "\<dots> = take_bit 64 (mask k)"
    by (simp only: unat_of_nat take_bit_eq_mod) simp
  also have "\<dots> = mask k"
    using assms by (simp add: min_def)
  finally show ?thesis
    by (simp only: mask_eq_exp_minus_1)
qed

lemma unat_round_mask:
  fixes w :: u64
  assumes "k < 64" and "unat w + (2 ^ k - 1) < 2 ^ 64"
  shows "unat ((w + mask k) AND NOT (mask k)) = ceil_to (2 ^ k) (unat w)"
  using assms by (simp add: unat_and_not_mask ceil_to_def unat_word_ariths unat_mask_u64)

lemma ALIGN_VAL_ceil:
  assumes "k < 64" and "unat val + (2 ^ k - 1) < 2 ^ 64"
  shows "unat (ALIGN_VAL val (2 ^ k)) = ceil_to (2 ^ k) (unat val)"
proof -
  have m: "(2 ^ k :: u64) - 1 = mask k"
    by (simp add: mask_eq_exp_minus_1)
  have "NOT (2 ^ k :: u64) + 1 = NOT (mask k)"
    by (simp add: m [symmetric] minus_eq_not_minus_1 [symmetric] not_eq_complement)
  then show ?thesis
    using assms by (simp add: ALIGN_VAL_def m unat_round_mask)
qed

lemma PAGE_CEILING_ceil:
  assumes "unat s + (PAGESIZE - 1) < 2 ^ 64"
  shows "unat (PAGE_CEILING s) = ceil_to PAGESIZE (unat s)"
proof -
  have m: "(of_nat PAGESIZE :: u64) - 1 = mask 12"
    by (simp add: pm_consts mask_eq_exp_minus_1)
  have "unat ((s + mask 12) AND NOT (mask 12)) = ceil_to (2 ^ 12) (unat s)"
    by (rule unat_round_mask) (use assms in \<open>simp_all add: pm_consts\<close>)
  then show ?thesis
    unfolding PAGE_CEILING_def m by (simp add: pm_consts)
qed

end
