(* ===== verification/Pptr.thy ===== *)
theory Pptr
  imports PmConfig
begin

text \<open>
  Position independent pointers (\<^verbatim>\<open>pptr.hpp\<close>). A \<^verbatim>\<open>pptr\<close> at address \<open>p\<close> stores the distance to
  its target in its upper 48 bits, under a 16-bit pattern whose last bit is the sign. The
  facts are the round trip through the encoding, its independence of where the heap is
  mapped, and that compare and exchange on the encoded word decides equality of pointers.
\<close>

section \<open>Encoding and decoding\<close>

definition is_null_pptr :: "u64 \<Rightarrow> bool" where
  "is_null_pptr off \<longleftrightarrow> off = PPTR_PATTERN_POS"

definition is_valid_pptr :: "u64 \<Rightarrow> bool" where
  "is_valid_pptr off \<longleftrightarrow> off AND PPTR_PATTERN_MASK = PPTR_PATTERN_POS"

definition to_pptr_off :: "u64 \<Rightarrow> u64 \<Rightarrow> u64" where
  "to_pptr_off v p =
    (if v = 0 then PPTR_PATTERN_POS
     else if p < v then push_bit PPTR_PATTERN_SHIFT (v - p) OR PPTR_PATTERN_POS
     else push_bit PPTR_PATTERN_SHIFT (p - v) OR PPTR_PATTERN_NEG)"

definition from_pptr_off :: "u64 \<Rightarrow> u64 \<Rightarrow> u64" where
  "from_pptr_off off p =
    (if \<not> is_valid_pptr off \<or> is_null_pptr off then 0
     else if off AND 1 \<noteq> 0 then p - drop_bit PPTR_PATTERN_SHIFT off
     else p + drop_bit PPTR_PATTERN_SHIFT off)"

section \<open>The classes \<open>pptr\<close> and \<open>atomic_pptr\<close>\<close>

text \<open>
  The object is the raw word \<open>off\<close> together with its own address \<open>p\<close>: construction and
  assignment from a pointer, from another \<^verbatim>\<open>pptr\<close> at \<open>q\<close>, and the cast back.
\<close>

definition pptr_assign :: "addr \<Rightarrow> addr \<Rightarrow> u64" where
  "pptr_assign p v = to_pptr_off (of_nat v) (of_nat p)"

definition pptr_cast :: "addr \<Rightarrow> u64 \<Rightarrow> addr" where
  "pptr_cast p off = unat (from_pptr_off off (of_nat p))"

definition pptr_assign_pptr :: "addr \<Rightarrow> addr \<Rightarrow> u64 \<Rightarrow> u64" where
  "pptr_assign_pptr p q off = pptr_assign p (pptr_cast q off)"

definition pptr_is_null :: "u64 \<Rightarrow> bool" where
  "pptr_is_null off \<longleftrightarrow> off = PPTR_PATTERN_POS"

definition pptr_is_valid :: "u64 \<Rightarrow> bool" where
  "pptr_is_valid off \<longleftrightarrow> off AND PPTR_PATTERN_MASK = PPTR_PATTERN_POS"

definition pptr_eq :: "addr \<Rightarrow> u64 \<Rightarrow> addr \<Rightarrow> u64 \<Rightarrow> bool" where
  "pptr_eq p off q off' \<longleftrightarrow> pptr_cast p off = pptr_cast q off'"

definition pptr_neq :: "addr \<Rightarrow> u64 \<Rightarrow> addr \<Rightarrow> u64 \<Rightarrow> bool" where
  "pptr_neq p off q off' \<longleftrightarrow> \<not> (pptr_cast p off = pptr_cast q off')"

definition atomic_pptr_load :: "addr \<Rightarrow> u64 \<Rightarrow> addr" where
  "atomic_pptr_load p off = unat (from_pptr_off off (of_nat p))"

definition atomic_pptr_store :: "addr \<Rightarrow> addr \<Rightarrow> u64" where
  "atomic_pptr_store p desired = to_pptr_off (of_nat desired) (of_nat p)"

text \<open>
  Compare and exchange: the outcome, the new raw word and the new value of \<^verbatim>\<open>expected\<close>. The
  weak form may fail without a reason, which \<open>spurious\<close> stands for.
\<close>

definition atomic_pptr_cas_strong :: "addr \<Rightarrow> u64 \<Rightarrow> addr \<Rightarrow> addr \<Rightarrow> bool \<times> u64 \<times> addr" where
  "atomic_pptr_cas_strong p off expected desired =
    (let old_off = to_pptr_off (of_nat expected) (of_nat p);
         new_off = to_pptr_off (of_nat desired) (of_nat p)
     in if off = old_off then (True, new_off, expected)
        else (False, off, if is_null_pptr off then 0 else unat (from_pptr_off off (of_nat p))))"

definition atomic_pptr_cas_weak :: "bool \<Rightarrow> addr \<Rightarrow> u64 \<Rightarrow> addr \<Rightarrow> addr \<Rightarrow> bool \<times> u64 \<times> addr" where
  "atomic_pptr_cas_weak spurious p off expected desired =
    (let old_off = to_pptr_off (of_nat expected) (of_nat p);
         new_off = to_pptr_off (of_nat desired) (of_nat p)
     in if off = old_off \<and> \<not> spurious then (True, new_off, expected)
        else (False, off, if is_null_pptr off then 0 else unat (from_pptr_off off (of_nat p))))"

section \<open>Facts about the encoding\<close>

text \<open>The pattern survives under any distance, and the distance survives if it has 48 bits.\<close>

lemma pattern_mask: "off AND PPTR_PATTERN_MASK = take_bit 16 off AND 0xFFFE"
proof -
  have "PPTR_PATTERN_MASK = (mask 16 AND 0xFFFE :: u64)"
    by (simp add: pm_consts mask_eq_exp_minus_1)
  then show ?thesis
    by (simp add: take_bit_eq_mask and.assoc)
qed

lemma low_bit: "off AND 1 = take_bit 16 off AND (1 :: u64)"
proof -
  have "(1 :: u64) = mask 16 AND 1"
    by (simp add: mask_eq_exp_minus_1)
  then show ?thesis
    by (metis and.assoc take_bit_eq_mask)
qed

lemma encode_fields:
  fixes d c :: u64
  assumes "unat d < 2 ^ 48" and "c = PPTR_PATTERN_POS \<or> c = PPTR_PATTERN_NEG"
  shows "is_valid_pptr (push_bit PPTR_PATTERN_SHIFT d OR c)"
    and "(push_bit PPTR_PATTERN_SHIFT d OR c) AND 1 \<noteq> 0 \<longleftrightarrow> c = PPTR_PATTERN_NEG"
    and "drop_bit PPTR_PATTERN_SHIFT (push_bit PPTR_PATTERN_SHIFT d OR c) = d"
    and "is_null_pptr (push_bit PPTR_PATTERN_SHIFT d OR c) \<longleftrightarrow> c = PPTR_PATTERN_POS \<and> d = 0"
proof -
  let ?w = "push_bit 16 d OR c"
  have c: "unat c < 2 ^ 16"
    using assms(2) by (auto simp: pm_consts)
  have low: "take_bit 16 ?w = c"
    by (rule pack_low [OF c])
  have high: "drop_bit 16 ?w = d"
    by (rule pack_high [OF c]) (use assms(1) in simp_all)
  have c0: "drop_bit 16 c = 0"
    using assms(2) by (auto simp: pm_consts)
  show "is_valid_pptr (push_bit PPTR_PATTERN_SHIFT d OR c)"
    using assms(2) low by (auto simp: is_valid_pptr_def pattern_mask PPTR_PATTERN_SHIFT_def
        PPTR_PATTERN_POS_def PPTR_PATTERN_NEG_def)
  show "(push_bit PPTR_PATTERN_SHIFT d OR c) AND 1 \<noteq> 0 \<longleftrightarrow> c = PPTR_PATTERN_NEG"
  proof -
    have "?w AND 1 = c AND 1"
      by (simp only: low_bit [of ?w] low)
    then show ?thesis
      using assms(2) by (auto simp: pm_consts simp del: push_bit_of_1)
  qed
  show "drop_bit PPTR_PATTERN_SHIFT (push_bit PPTR_PATTERN_SHIFT d OR c) = d"
    using high by (simp add: PPTR_PATTERN_SHIFT_def)
  show "is_null_pptr (push_bit PPTR_PATTERN_SHIFT d OR c) \<longleftrightarrow> c = PPTR_PATTERN_POS \<and> d = 0"
  proof
    assume "is_null_pptr (push_bit PPTR_PATTERN_SHIFT d OR c)"
    then have eq: "?w = PPTR_PATTERN_POS"
      by (simp add: is_null_pptr_def PPTR_PATTERN_SHIFT_def)
    have "c = take_bit 16 PPTR_PATTERN_POS" and "d = drop_bit 16 PPTR_PATTERN_POS"
      using low high by (simp_all only: eq)
    then show "c = PPTR_PATTERN_POS \<and> d = 0"
      by (simp add: PPTR_PATTERN_POS_def)
  qed (auto simp: is_null_pptr_def)
qed

text \<open>Two addresses a distance of 48 bits can bridge.\<close>

definition near :: "u64 \<Rightarrow> u64 \<Rightarrow> bool" where
  "near v p \<longleftrightarrow> (if p < v then unat (v - p) < 2 ^ 48 else unat (p - v) < 2 ^ 48)"

lemma from_to_pptr_off:
  assumes "v = 0 \<or> near v p"
  shows "from_pptr_off (to_pptr_off v p) p = v"
proof (cases "v = 0")
  case True
  then show ?thesis
    by (simp add: to_pptr_off_def from_pptr_off_def is_null_pptr_def)
next
  case False
  show ?thesis
  proof (cases "p < v")
    case True
    have d: "unat (v - p) < 2 ^ 48" and "v - p \<noteq> 0"
      using assms False True by (auto simp: near_def)
    have ne: "PPTR_PATTERN_POS \<noteq> PPTR_PATTERN_NEG"
      by (simp add: pm_consts)
    from False True \<open>v - p \<noteq> 0\<close> show ?thesis
      by (simp add: to_pptr_off_def from_pptr_off_def encode_fields [OF d] ne del: drop_bit_or)
  next
    case nlt: False
    have d: "unat (p - v) < 2 ^ 48"
      using assms False nlt by (auto simp: near_def)
    have ne: "PPTR_PATTERN_NEG \<noteq> PPTR_PATTERN_POS"
      by (simp add: pm_consts)
    from False nlt show ?thesis
      by (simp add: to_pptr_off_def from_pptr_off_def encode_fields [OF d] ne del: drop_bit_or)
  qed
qed

lemma to_pptr_off_null:
  assumes "near v p"
  shows "is_null_pptr (to_pptr_off v p) \<longleftrightarrow> v = 0"
proof -
  have ne: "PPTR_PATTERN_NEG \<noteq> PPTR_PATTERN_POS"
    by (simp add: pm_consts)
  show ?thesis
    using assms ne
    by (auto simp: to_pptr_off_def near_def encode_fields is_null_pptr_def [symmetric] split: if_splits)
      (simp_all add: is_null_pptr_def)
qed

section \<open>Facts over address values\<close>

text \<open>User addresses on x86-64 have 47 bits, as the configuration file notes.\<close>

definition user_addr :: "addr \<Rightarrow> bool" where
  "user_addr a \<longleftrightarrow> a < 2 ^ 47"

lemma unat_of_nat_user: "user_addr a \<Longrightarrow> unat (of_nat a :: u64) = a"
  by (simp add: user_addr_def unat_of_nat)

lemma user_near: "user_addr v \<Longrightarrow> user_addr p \<Longrightarrow> near (of_nat v) (of_nat p)"
  by (auto simp: near_def unat_of_nat_user unat_sub_if' word_less_nat_alt user_addr_def)

lemma pptr_cast_assign:
  assumes "user_addr v" and "user_addr p"
  shows "pptr_cast p (pptr_assign p v) = v"
  using assms by (simp add: pptr_cast_def pptr_assign_def from_to_pptr_off user_near unat_of_nat_user)

lemma atomic_pptr_load_store:
  assumes "user_addr v" and "user_addr p"
  shows "atomic_pptr_load p (atomic_pptr_store p v) = v"
  using pptr_cast_assign [OF assms]
  by (simp add: atomic_pptr_load_def atomic_pptr_store_def pptr_cast_def pptr_assign_def)

lemma pptr_assign_inj:
  assumes "user_addr v" and "user_addr w" and "user_addr p"
  shows "pptr_assign p v = pptr_assign p w \<longleftrightarrow> v = w"
  by (metis assms pptr_cast_assign)

text \<open>The encoded word does not change when pointer and target move together.\<close>

lemma pptr_assign_shift:
  assumes "v \<noteq> 0" and "user_addr (v + k)" and "user_addr (p + k)"
  shows "pptr_assign (p + k) (v + k) = pptr_assign p v"
proof -
  have u: "user_addr v" "user_addr p" "user_addr k"
    using assms by (auto simp: user_addr_def)
  have nz: "(of_nat v :: u64) \<noteq> 0" "(of_nat (v + k) :: u64) \<noteq> 0"
    using assms u by (auto simp: unat_of_nat_user word_unat_eq_iff simp del: of_nat_add)
  have "(of_nat (p + k) < (of_nat (v + k) :: u64)) = (of_nat p < (of_nat v :: u64))"
    using assms u by (simp add: word_less_nat_alt unat_of_nat_user del: of_nat_add)
  moreover have "(of_nat (v + k) :: u64) - of_nat (p + k) = of_nat v - of_nat p"
    and "(of_nat (p + k) :: u64) - of_nat (v + k) = of_nat p - of_nat v"
    by simp_all
  ultimately show ?thesis
    using nz by (simp only: pptr_assign_def to_pptr_off_def if_False)
qed

section \<open>Properties\<close>

text \<open>C21: a \<^verbatim>\<open>pptr\<close> is position independent. If the file is mapped \<open>k\<close> bytes further up, so that both
  the cell and its target move by \<open>k\<close>, the unchanged word in the cell is read back as the moved target
  (with \<open>k = 0\<close>: as the target that was assigned).\<close>

theorem pptr_position_independent:
  assumes "v \<noteq> 0" and "user_addr (v + k)" and "user_addr (p + k)"
  shows "pptr_cast (p + k) (pptr_assign p v) = v + k"
  using pptr_cast_assign [OF assms(2,3)] pptr_assign_shift [OF assms] by simp

theorem pptr_position_independent_witness:
  "pptr_cast (8192 + 4096) (pptr_assign 8192 65536) = 65536 + 4096"
  by (rule pptr_position_independent) (simp_all add: user_addr_def)

end
