(* ===== verification/ByteMemory.thy ===== *)
theory ByteMemory
  imports Pptr
begin

text \<open>
  The bytes of the mapped heap, and the links the allocator keeps in them: the first eight
  bytes of a free block hold a \<^verbatim>\<open>pptr\<close> to the next free block. The locale \<open>link_store\<close> is the
  contract such links fulfil; its lemmas about lists threaded through a store serve the
  block lists here and the descriptor lists of the heap metadata.
\<close>

section \<open>Loads and stores\<close>

definition load64 :: "memory \<Rightarrow> addr \<Rightarrow> u64" where
  "load64 m a =
    ucast (m a) OR push_bit 8 (ucast (m (a + 1))) OR push_bit 16 (ucast (m (a + 2))) OR
    push_bit 24 (ucast (m (a + 3))) OR push_bit 32 (ucast (m (a + 4))) OR
    push_bit 40 (ucast (m (a + 5))) OR push_bit 48 (ucast (m (a + 6))) OR
    push_bit 56 (ucast (m (a + 7)))"

definition store64 :: "addr \<Rightarrow> u64 \<Rightarrow> memory \<Rightarrow> memory" where
  "store64 a w m = (\<lambda>x. if a \<le> x \<and> x < a + 8 then ucast (drop_bit (8 * (x - a)) w) else m x)"

definition memset :: "addr \<Rightarrow> byte \<Rightarrow> nat \<Rightarrow> memory \<Rightarrow> memory" where
  "memset p c n m = (\<lambda>x. if p \<le> x \<and> x < p + n then c else m x)"

definition memcpy :: "addr \<Rightarrow> addr \<Rightarrow> nat \<Rightarrow> memory \<Rightarrow> memory" where
  "memcpy dst src n m = (\<lambda>x. if dst \<le> x \<and> x < dst + n then m (src + (x - dst)) else m x)"

text \<open>\<^verbatim>\<open>*(pptr<char>*)block\<close>, read and written.\<close>

definition read_pptr :: "memory \<Rightarrow> addr \<Rightarrow> addr" where
  "read_pptr m a = pptr_cast a (load64 m a)"

definition write_pptr :: "addr \<Rightarrow> addr \<Rightarrow> memory \<Rightarrow> memory" where
  "write_pptr a v m = store64 a (pptr_assign a v) m"

text \<open>Two cells of eight bytes that do not overlap.\<close>

definition apart8 :: "addr \<Rightarrow> addr \<Rightarrow> bool" where
  "apart8 a b \<longleftrightarrow> a + 8 \<le> b \<or> b + 8 \<le> a"

section \<open>The contract of a store of links\<close>

locale link_store =
  fixes rd :: "'m \<Rightarrow> addr \<Rightarrow> addr"
    and wr :: "addr \<Rightarrow> addr \<Rightarrow> 'm \<Rightarrow> 'm"
    and ok :: "addr \<Rightarrow> bool"
    and apart :: "addr \<Rightarrow> addr \<Rightarrow> bool"
  assumes rd_wr_same: "ok a \<Longrightarrow> ok v \<Longrightarrow> rd (wr a v m) a = v"
    and rd_wr_other: "apart a b \<Longrightarrow> rd (wr a v m) b = rd m b"
begin

text \<open>Writing a cell outside a list leaves the list alone.\<close>

lemma run_wr:
  assumes "run (rd m) p xs" and "\<And>x. x \<in> set (butlast xs) \<Longrightarrow> apart a x"
  shows "run (rd (wr a v m)) p xs"
  by (rule run_cong [OF assms(1)]) (simp add: rd_wr_other assms(2))

lemma chain_wr:
  assumes "\<And>x. x \<in> set xs \<Longrightarrow> apart a x"
  shows "chain (rd (wr a v m)) p xs q \<longleftrightarrow> chain (rd m) p xs q"
  by (rule chain_cong) (simp add: rd_wr_other assms)

text \<open>Linking a new cell in front.\<close>

lemma run_push:
  assumes "ok a" and "ok p" and "run (rd m) p xs" and "\<And>x. x \<in> set xs \<Longrightarrow> apart a x"
  shows "run (rd (wr a p m)) a (a # xs)"
proof -
  have "run (rd (wr a p m)) p xs"
    using assms(3,4) by (intro run_wr) (auto dest: in_set_butlastD)
  then show ?thesis
    by (simp add: run_Cons rd_wr_same assms(1,2))
qed

lemma chain_push:
  assumes "ok a" and "ok p" and "chain (rd m) p xs q" and "\<And>x. x \<in> set xs \<Longrightarrow> apart a x"
  shows "chain (rd (wr a p m)) a (a # xs) q"
  using assms(3,4) by (simp add: chain_wr rd_wr_same assms(1,2))

text \<open>Hanging a list behind another one, by writing the last cell of the first.\<close>

lemma run_link:
  assumes "run (rd m) p xs" and "xs \<noteq> []" and "run (rd m) q ys"
    and "ok (last xs)" and "ok q"
    and "\<And>x. x \<in> set (butlast xs) \<Longrightarrow> apart (last xs) x"
    and "\<And>y. y \<in> set (butlast ys) \<Longrightarrow> apart (last xs) y"
  shows "run (rd (wr (last xs) q m)) p (xs @ ys)"
  using assms by (intro run_appendI) (simp_all add: run_wr rd_wr_same)

end

section \<open>Facts about loads and stores\<close>

lemma bit_byte_ge: "8 \<le> n \<Longrightarrow> \<not> bit (b :: byte) n"
  by (auto dest: bit_imp_le_length)

lemma bit_load64:
  assumes "q < 8" and "r < 8"
  shows "bit (load64 m a) (8 * q + r) \<longleftrightarrow> bit (m (a + q)) r"
proof -
  consider "q = 0" | "q = 1" | "q = 2" | "q = 3" | "q = 4" | "q = 5" | "q = 6" | "q = 7"
    using assms(1) by linarith
  then show ?thesis
    using assms(2) unfolding load64_def by cases (simp_all add: bit_simps bit_byte_ge)
qed

lemma load64_store64: "load64 (store64 a w m) a = w"
proof (rule bit_word_eqI)
  fix n
  assume "n < LENGTH(64)"
  then have q: "n div 8 < 8" and r: "n mod 8 < 8" and n: "n = 8 * (n div 8) + n mod 8"
    by auto
  have "bit (load64 (store64 a w m) a) (8 * (n div 8) + n mod 8) =
      bit w (8 * (n div 8) + n mod 8)"
    unfolding bit_load64 [OF q r] using q r by (simp add: store64_def bit_simps)
  then show "bit (load64 (store64 a w m) a) n = bit w n"
    by simp
qed

lemma load64_cong:
  assumes "\<And>x. a \<le> x \<Longrightarrow> x < a + 8 \<Longrightarrow> m x = m' x"
  shows "load64 m a = load64 m' a"
  using assms by (simp add: load64_def)

lemma load64_store64_other: "apart8 a b \<Longrightarrow> load64 (store64 a w m) b = load64 m b"
  by (rule load64_cong) (auto simp: store64_def apart8_def)

lemma read_write_pptr_same:
  "user_addr a \<Longrightarrow> user_addr v \<Longrightarrow> read_pptr (write_pptr a v m) a = v"
  by (simp add: read_pptr_def write_pptr_def load64_store64 pptr_cast_assign)

lemma read_write_pptr_other:
  "apart8 a b \<Longrightarrow> read_pptr (write_pptr a v m) b = read_pptr m b"
  by (simp add: read_pptr_def write_pptr_def load64_store64_other)

lemma write_pptr_outside: "x < a \<or> a + 8 \<le> x \<Longrightarrow> write_pptr a v m x = m x"
  by (auto simp: write_pptr_def store64_def)

interpretation blk: link_store read_pptr write_pptr user_addr apart8
  by unfold_locales (simp_all add: read_write_pptr_same read_write_pptr_other)

lemma apart8_sym: "apart8 a b \<longleftrightarrow> apart8 b a"
  by (auto simp: apart8_def)

text \<open>Cells at multiples of eight are apart as soon as they differ.\<close>

lemma apart8_aligned: "8 dvd a \<Longrightarrow> 8 dvd b \<Longrightarrow> a \<noteq> b \<Longrightarrow> apart8 a b"
  by (auto simp: apart8_def dvd_def)

end
