(* ===== verification/RegionManager.thy ===== *)
theory RegionManager
  imports ByteMemory
begin

text \<open>
  The regions (\<^verbatim>\<open>RegionManager.hpp\<close>, \<^verbatim>\<open>RegionManager.cpp\<close>): a region is a mapped file whose first
  page holds a header with the allocation frontier, the start of the heap and the file
  size. The operations map or remap the file, move the frontier, and convert between
  absolute and relative addresses. What the operating system answers is a parameter.
\<close>

section \<open>The header and the manager\<close>

text \<open>
  The three words at the start of the file: the frontier as an \<^verbatim>\<open>atomic_pptr\<close>, the heap start
  relative to the base, and the size. They are what survives a restart.
\<close>

record region_hdr =
  hdr_curr :: u64
  hdr_heap_start :: u64
  hdr_size :: u64

record RegionManager =
  FILESIZE :: nat
  base_addr :: addr
  hdr :: region_hdr
  persist :: bool

text \<open>
  The answers of \<^verbatim>\<open>lseek\<close>, \<^verbatim>\<open>write\<close> and \<^verbatim>\<open>mmap\<close>, and, when \<^verbatim>\<open>CXL_NUMA_NODE\<close> is set, of \<^verbatim>\<open>mbind\<close>.
\<close>

record os_answers =
  os_lseek :: bool
  os_write :: bool
  os_mmap :: "addr option"
  os_mbind :: "bool option"

definition curr_addr :: "RegionManager \<Rightarrow> addr" where
  "curr_addr r = atomic_pptr_load (base_addr r) (hdr_curr (hdr r))"

definition set_curr :: "u64 \<Rightarrow> RegionManager \<Rightarrow> RegionManager" where
  "set_curr w r = r\<lparr>hdr := (hdr r)\<lparr>hdr_curr := w\<rparr>\<rparr>"

section \<open>Mapping and remapping\<close>

definition fresh_hdr :: "nat \<Rightarrow> addr \<Rightarrow> region_hdr" where
  "fresh_hdr fsize addr =
    \<lparr>hdr_curr = atomic_pptr_store addr (addr + PAGESIZE), hdr_heap_start = 0, hdr_size = of_nat fsize\<rparr>"

definition map_persistent_region :: "os_answers \<Rightarrow> nat \<Rightarrow> RegionManager outcome" where
  "map_persistent_region os fsize =
    check (os_lseek os) (check (os_write os)
      (case os_mmap os of None \<Rightarrow> Inl AssertFailed
       | Some addr \<Rightarrow>
           if os_mbind os = Some False then Inl Exited
           else Inr \<lparr>FILESIZE = fsize, base_addr = addr, hdr = fresh_hdr fsize addr, persist = True\<rparr>))"

definition remap_persistent_region :: "os_answers \<Rightarrow> nat \<Rightarrow> region_hdr \<Rightarrow> RegionManager outcome" where
  "remap_persistent_region os fsize h =
    check (os_lseek os) (check (os_write os)
      (case os_mmap os of None \<Rightarrow> Inl AssertFailed
       | Some addr \<Rightarrow>
           if os_mbind os = Some False then Inl Exited
           else check (hdr_size h = of_nat fsize)
             (Inr \<lparr>FILESIZE = fsize, base_addr = addr, hdr = h, persist = True\<rparr>)))"

definition map_transient_region :: "os_answers \<Rightarrow> nat \<Rightarrow> RegionManager outcome" where
  "map_transient_region os fsize =
    check (os_lseek os) (check (os_write os)
      (case os_mmap os of None \<Rightarrow> Inl AssertFailed
       | Some addr \<Rightarrow>
           Inr \<lparr>FILESIZE = fsize, base_addr = addr, hdr = fresh_hdr fsize addr, persist = False\<rparr>))"

definition remap_transient_region :: "os_answers \<Rightarrow> nat \<Rightarrow> region_hdr \<Rightarrow> RegionManager outcome" where
  "remap_transient_region os fsize h =
    check (os_lseek os) (check (os_write os)
      (case os_mmap os of None \<Rightarrow> Inl AssertFailed
       | Some addr \<Rightarrow>
           check (hdr_size h = of_nat fsize)
             (Inr \<lparr>FILESIZE = fsize, base_addr = addr, hdr = h, persist = False\<rparr>)))"

section \<open>Heap start\<close>

definition store_heap_start :: "addr \<Rightarrow> RegionManager \<Rightarrow> RegionManager" where
  "store_heap_start root r =
    r\<lparr>hdr := (hdr r)\<lparr>hdr_heap_start := of_nat root - of_nat (base_addr r)\<rparr>\<rparr>"

definition fetch_heap_start :: "RegionManager \<Rightarrow> addr" where
  "fetch_heap_start r = unat (hdr_heap_start (hdr r) + of_nat (base_addr r))"

section \<open>Moving the frontier\<close>

definition bad_alignment :: "nat \<Rightarrow> bool" where
  "bad_alignment alignment \<longleftrightarrow>
    (of_nat alignment AND (NOT (of_nat alignment) + 1)) \<noteq> (of_nat alignment :: u64) \<or> alignment < 8"

text \<open>The address \<^verbatim>\<open>new_curr_addr\<close> after the adjustment, in 64-bit arithmetic.\<close>

definition align_up :: "addr \<Rightarrow> nat \<Rightarrow> addr" where
  "align_up a alignment =
    (let aln_adj = unat (of_nat a AND (of_nat alignment - 1) :: u64)
     in if aln_adj \<noteq> 0 then (a + (alignment - aln_adj)) mod 2 ^ 64 else a)"

text \<open>
  \<^verbatim>\<open>__nvm_region_allocator\<close>: the return code, the address stored through \<^verbatim>\<open>memptr\<close> (if any), and
  the region.
\<close>

definition nvm_region_allocator :: "nat \<Rightarrow> nat \<Rightarrow> RegionManager \<Rightarrow> int \<times> addr option \<times> RegionManager" where
  "nvm_region_allocator alignment sz r =
    (if sz = 0 then (-1, None, r)
     else if bad_alignment alignment then (-1, None, r)
     else
       let old_curr_addr = curr_addr r;
           res = align_up old_curr_addr alignment;
           nxt = (res + sz) mod 2 ^ 64
       in if nxt > base_addr r + FILESIZE r then (-1, None, r)
          else
            let (ret, off, _) = atomic_pptr_cas_strong (base_addr r) (hdr_curr (hdr r)) old_curr_addr nxt
            in if ret then (1, Some res, set_curr off r) else (0, None, r))"

definition try_nvm_region_allocator :: "nat \<Rightarrow> nat \<Rightarrow> RegionManager \<Rightarrow> int \<times> addr option \<times> RegionManager" where
  "try_nvm_region_allocator alignment sz r =
    (if sz = 0 then (-1, None, r)
     else if bad_alignment alignment then (-1, None, r)
     else
       let old_curr_addr = curr_addr r;
           res = align_up old_curr_addr alignment;
           nxt = (res + sz) mod 2 ^ 64
       in if nxt > base_addr r + FILESIZE r then (-1, None, r)
          else
            let (ret, off, _) = atomic_pptr_cas_strong (base_addr r) (hdr_curr (hdr r)) old_curr_addr nxt
            in if ret then (0, Some res, set_curr off r) else (1, None, r))"

definition within_range :: "RegionManager \<Rightarrow> addr \<Rightarrow> bool" where
  "within_range r ptr \<longleftrightarrow>
    sint (of_nat (base_addr r) :: u64) < sint (of_nat ptr :: u64) \<and>
    sint (of_nat ptr :: u64) < sint (of_nat (curr_addr r) :: u64)"

section \<open>The constructor\<close>

text \<open>
  \<open>existing\<close> is the header of the file if it exists. The constructor stores the code of the
  allocator in a \<^verbatim>\<open>bool\<close>, so \<^verbatim>\<open>-1\<close> counts as success and \<open>uninit\<close>, the content of the local
  variable \<^verbatim>\<open>t\<close>, becomes the heap start.
\<close>

definition expand_immediately :: "addr \<Rightarrow> nat \<Rightarrow> RegionManager \<Rightarrow> RegionManager outcome" where
  "expand_immediately uninit sz r =
    (let (code, t, r') = nvm_region_allocator CACHELINE_SIZE sz r
     in check (code \<noteq> 0)
       (Inr (store_heap_start (case t of Some a \<Rightarrow> a | None \<Rightarrow> uninit) r')))"

definition RegionManager_new ::
  "os_answers \<Rightarrow> addr \<Rightarrow> region_hdr option \<Rightarrow> nat \<Rightarrow> bool \<Rightarrow> bool \<Rightarrow> RegionManager outcome" where
  "RegionManager_new os uninit existing sz p imm_expand =
    (let fsize = (sz div PAGESIZE + 2) * PAGESIZE
     in check (sz mod CACHELINE_SIZE = 0)
       (case existing of
          Some h \<Rightarrow> if p then remap_persistent_region os fsize h else remap_transient_region os fsize h
        | None \<Rightarrow>
            and_then (if p then map_persistent_region os fsize else map_transient_region os fsize)
              (\<lambda>r. if imm_expand then expand_immediately uninit sz r else Inr r)))"

section \<open>The class \<open>Regions\<close>\<close>

record Regions =
  regions :: "nat \<Rightarrow> RegionManager option"
  regions_address :: "nat \<Rightarrow> addr"
  cur_idx :: nat

definition Regions_new :: Regions where
  "Regions_new = \<lparr>regions = (\<lambda>_. None), regions_address = (\<lambda>_. 0), cur_idx = 0\<rparr>"

definition Regions_destroy :: "Regions \<Rightarrow> Regions" where
  "Regions_destroy rs =
    rs\<lparr>regions := (\<lambda>i. if i < cur_idx rs then None else regions rs i),
       regions_address := (\<lambda>i. if i < cur_idx rs then 0 else regions_address rs i),
       cur_idx := 0\<rparr>"

definition Regions_create ::
  "os_answers \<Rightarrow> addr \<Rightarrow> region_hdr option \<Rightarrow> nat \<Rightarrow> bool \<Rightarrow> bool \<Rightarrow> Regions \<Rightarrow> Regions outcome" where
  "Regions_create os uninit existing sz p imm_expand rs =
    and_then (RegionManager_new os uninit existing sz p imm_expand)
      (\<lambda>new_mgr. Inr (rs\<lparr>
         regions := (regions rs)(cur_idx rs := Some new_mgr),
         regions_address := (regions_address rs)(cur_idx rs :=
           if imm_expand \<or> existing \<noteq> None then fetch_heap_start new_mgr else 0),
         cur_idx := cur_idx rs + 1\<rparr>))"

text \<open>
  \<^verbatim>\<open>create_for\<close> constructs the object in a new region with the region already registered, its address
  not yet; \<open>construct\<close> is the constructor and \<open>obj\<close> what the file holds.
\<close>

definition Regions_create_for :: "os_answers \<Rightarrow> addr \<Rightarrow> region_hdr option \<Rightarrow> nat \<Rightarrow> bool \<Rightarrow>
    (Regions \<Rightarrow> 'a \<Rightarrow> (Regions \<times> 'a) outcome) \<Rightarrow> Regions \<Rightarrow> 'a \<Rightarrow> (Regions \<times> addr \<times> 'a) outcome" where
  "Regions_create_for os uninit existing sz p construct rs obj =
    and_then (RegionManager_new os uninit existing sz p True) (\<lambda>new_mgr.
      let rs1 = rs\<lparr>regions := (regions rs)(cur_idx rs := Some new_mgr)\<rparr>;
          t = fetch_heap_start new_mgr
      in and_then (if existing = None then construct rs1 obj else Inr (rs1, obj)) (\<lambda>(rs2, obj').
        Inr (rs2\<lparr>regions_address := (regions_address rs2)(cur_idx rs2 := t), cur_idx := cur_idx rs2 + 1\<rparr>, t, obj')))"

definition expand :: "nat \<Rightarrow> nat \<Rightarrow> nat \<Rightarrow> Regions \<Rightarrow> (int \<times> addr option \<times> Regions) outcome" where
  "expand index alignment sz rs =
    (case regions rs index of None \<Rightarrow> Inl NullDeref
     | Some r \<Rightarrow> (let (code, t, r') = nvm_region_allocator alignment sz r
        in Inr (code, t, rs\<lparr>regions := (regions rs)(index := Some r')\<rparr>)))"

text \<open>
  Closing a region: the header that stays in the file, the line flushed, and the two numbers of
  the debug message, in MiB.
\<close>

definition close_region :: "RegionManager \<Rightarrow> region_hdr \<times> addr \<times> nat \<times> nat" where
  "close_region r =
    (let space_used = of_nat (curr_addr r) - of_nat (base_addr r) :: u64;
         remaining_space = (of_nat (FILESIZE r) - space_used) div (1024 * 1024)
     in (hdr r, base_addr r, unat space_used div (1024 * 1024), unat remaining_space))"

definition lookup :: "Regions \<Rightarrow> nat \<Rightarrow> addr" where
  "lookup rs index = regions_address rs index"

definition translate :: "addr \<Rightarrow> u64 \<Rightarrow> addr" where
  "translate start rel = unat (of_nat start + rel)"

definition untranslate :: "addr \<Rightarrow> addr \<Rightarrow> u64" where
  "untranslate start a = of_nat a - of_nat start"

definition in_range :: "addr \<Rightarrow> RegionManager \<Rightarrow> addr \<Rightarrow> bool" where
  "in_range start r ptr \<longleftrightarrow> ptr \<ge> start \<and> ptr < curr_addr r"

text \<open>The cache lines \<^verbatim>\<open>flush_region\<close> writes back, in order.\<close>

function flush_lines :: "addr \<Rightarrow> addr \<Rightarrow> addr list" where
  "flush_lines a ending = (if a < ending then a # flush_lines (a + CACHELINE_SIZE) ending else [])"
  by pat_completeness auto
termination
  by (relation "measure (\<lambda>(a, ending). ending - a)") (auto simp: pm_consts)

definition flush_region :: "addr \<Rightarrow> RegionManager \<Rightarrow> addr list" where
  "flush_region start r = flush_lines start (curr_addr r)"

section \<open>Facts about alignment\<close>

lemma not_plus_one_pow2: "NOT (2 ^ k :: u64) + 1 = NOT (mask k)"
  by (simp add: mask_eq_exp_minus_1 minus_eq_not_minus_1 [symmetric] not_eq_complement)

lemma good_alignment_pow2:
  assumes "3 \<le> k" and "k < 64"
  shows "\<not> bad_alignment (2 ^ k)"
proof -
  have "(2 ^ k :: u64) AND NOT (mask k) = 2 ^ k"
    by (rule bit_word_eqI) (auto simp: bit_simps)
  moreover have "(2 :: nat) ^ 3 \<le> 2 ^ k"
    using assms(1) by (rule power_increasing) simp
  ultimately show ?thesis
    by (simp add: bad_alignment_def not_plus_one_pow2)
qed

lemma and_mask_mod:
  assumes "a < 2 ^ 64" and "k < 64"
  shows "unat (of_nat a AND (of_nat (2 ^ k) - 1) :: u64) = a mod 2 ^ k"
proof -
  have "(of_nat (2 ^ k) - 1 :: u64) = mask k"
    by (simp add: mask_eq_exp_minus_1)
  then have "of_nat a AND (of_nat (2 ^ k) - 1 :: u64) = take_bit k (of_nat a)"
    by (simp add: take_bit_eq_mask)
  then have "unat (of_nat a AND (of_nat (2 ^ k) - 1) :: u64) = take_bit k (unat (of_nat a :: u64))"
    by (simp only: unsigned_take_bit_eq)
  also have "unat (of_nat a :: u64) = a"
    using assms(1) by (simp add: unat_of_nat)
  finally show ?thesis
    by (simp only: take_bit_eq_mod)
qed

lemma align_up_ceil:
  assumes "a + 2 ^ k < 2 ^ 64" and "k < 64"
  shows "align_up a (2 ^ k) = ceil_to (2 ^ k) a"
proof -
  let ?m = "2 ^ k :: nat"
  have a: "a < 2 ^ 64" and adj: "unat (of_nat a AND (of_nat ?m - 1) :: u64) = a mod ?m"
    using assms and_mask_mod [of a k] by auto
  show ?thesis
  proof (cases "a mod ?m = 0")
    case True
    then have "ceil_to ?m a \<le> a" and "a \<le> ceil_to ?m a"
      by (auto intro: ceil_to_least)
    then show ?thesis
      using adj True by (simp add: align_up_def)
  next
    case False
    have m: "a mod ?m < ?m"
      by simp
    have "a mod ?m \<le> a"
      by simp
    with m have eq: "a + (?m - a mod ?m) = (a - a mod ?m) + ?m"
      by linarith
    have "?m dvd (a - a mod ?m) + ?m"
      by (rule dvd_add [OF dvd_minus_mod dvd_refl])
    then have "?m dvd a + (?m - a mod ?m)"
      by (simp only: eq)
    then have "ceil_to ?m a = a + (?m - a mod ?m)"
      by (rule ceil_to_unique [rotated]) (use False m in linarith)+
    moreover have "(a + (?m - a mod ?m)) mod 2 ^ 64 = a + (?m - a mod ?m)"
      using assms by simp
    ultimately show ?thesis
      using adj False by (simp only: align_up_def Let_def simp_thms if_True)
  qed
qed

section \<open>Facts about the frontier\<close>

text \<open>
  \<open>region_at r c\<close>: the file lies in user space and its frontier is \<open>c\<close>, a place after the
  header and inside the file.
\<close>

definition region_at :: "RegionManager \<Rightarrow> addr \<Rightarrow> bool" where
  "region_at r c \<longleftrightarrow> user_addr (base_addr r + FILESIZE r) \<and> base_addr r < c \<and>
    c \<le> base_addr r + FILESIZE r \<and> hdr_curr (hdr r) = atomic_pptr_store (base_addr r) c"

lemma region_at_curr: "region_at r c \<Longrightarrow> curr_addr r = c"
  by (auto simp: region_at_def curr_addr_def user_addr_def intro!: atomic_pptr_load_store)

lemma nvm_region_allocator_ok:
  assumes "region_at r c" and "3 \<le> k" and "k < 47" and "0 < sz"
    and "ceil_to (2 ^ k) c + sz \<le> base_addr r + FILESIZE r"
  shows "nvm_region_allocator (2 ^ k) sz r =
      (1, Some (ceil_to (2 ^ k) c),
       set_curr (atomic_pptr_store (base_addr r) (ceil_to (2 ^ k) c + sz)) r)"
    and "region_at (set_curr (atomic_pptr_store (base_addr r) (ceil_to (2 ^ k) c + sz)) r)
      (ceil_to (2 ^ k) c + sz)"
proof -
  have u: "base_addr r + FILESIZE r < 2 ^ 47" and c: "c < 2 ^ 47"
    using assms(1) by (auto simp: region_at_def user_addr_def)
  have "(2 :: nat) ^ k < 2 ^ 47"
    using assms(3) by (rule power_strict_increasing) simp
  then have al: "align_up c (2 ^ k) = ceil_to (2 ^ k) c"
    using c assms(3) by (intro align_up_ceil) auto
  have nxt: "(ceil_to (2 ^ k) c + sz) mod 18446744073709551616 = ceil_to (2 ^ k) c + sz"
    using u assms(5) by simp
  have cas: "atomic_pptr_cas_strong (base_addr r) (hdr_curr (hdr r)) c n =
      (True, atomic_pptr_store (base_addr r) n, c)" for n
    using assms(1) by (simp add: region_at_def atomic_pptr_cas_strong_def atomic_pptr_store_def)
  show "nvm_region_allocator (2 ^ k) sz r =
      (1, Some (ceil_to (2 ^ k) c),
       set_curr (atomic_pptr_store (base_addr r) (ceil_to (2 ^ k) c + sz)) r)"
    using assms(2-5) good_alignment_pow2 [of k]
    by (simp add: nvm_region_allocator_def region_at_curr [OF assms(1)] al nxt cas Let_def)
  have "c \<le> ceil_to (2 ^ k) c"
    by (rule ceil_to_least) simp
  then show "region_at (set_curr (atomic_pptr_store (base_addr r) (ceil_to (2 ^ k) c + sz)) r)
      (ceil_to (2 ^ k) c + sz)"
    using assms(1,5) by (auto simp: region_at_def set_curr_def)
qed

lemma power_two_bounds: "(2 :: nat) ^ 47 + 2 ^ 47 + 2 ^ 63 < 2 ^ 64"
  by simp

lemma nvm_region_allocator_full:
  assumes "region_at r c" and "k < 47" and "sz < 2 ^ 63"
    and "base_addr r + FILESIZE r < ceil_to (2 ^ k) c + sz"
  shows "nvm_region_allocator (2 ^ k) sz r = (-1, None, r)"
proof -
  have c: "c < 2 ^ 47"
    using assms(1) by (auto simp: region_at_def user_addr_def)
  have p: "(2 :: nat) ^ k < 2 ^ 47"
    using assms(2) by (rule power_strict_increasing) simp
  then have al: "align_up c (2 ^ k) = ceil_to (2 ^ k) c"
    using c assms(2) by (intro align_up_ceil) auto
  have "ceil_to (2 ^ k) c < c + 2 ^ k"
    by (rule ceil_to_least) simp
  then have "ceil_to (2 ^ k) c + sz < 2 ^ 64"
    using c p assms(3) power_two_bounds by linarith
  then show ?thesis
    using assms(4)
    by (simp add: nvm_region_allocator_def region_at_curr [OF assms(1)] al Let_def)
qed

lemma fetch_store_heap_start:
  assumes "user_addr root"
  shows "fetch_heap_start (store_heap_start root r) = root"
  using assms by (simp add: fetch_heap_start_def store_heap_start_def unat_of_nat_user)

lemma set_curr_fields [simp]:
  "base_addr (set_curr w r) = base_addr r" "FILESIZE (set_curr w r) = FILESIZE r"
  "persist (set_curr w r) = persist r" "hdr_heap_start (hdr (set_curr w r)) = hdr_heap_start (hdr r)"
  by (simp_all add: set_curr_def)

section \<open>Facts about relative addresses\<close>

lemma translate_untranslate:
  "user_addr a \<Longrightarrow> translate start (untranslate start a) = a"
  by (simp add: translate_def untranslate_def unat_of_nat_user)

lemma unat_untranslate:
  "user_addr a \<Longrightarrow> start \<le> a \<Longrightarrow> unat (untranslate start a) = a - start"
  by (auto simp: untranslate_def unat_sub_if' unat_of_nat_user user_addr_def unat_of_nat)

declare flush_lines.simps [simp del]

text \<open>Every byte from the start to the end lies in a line that is written back.\<close>

lemma flush_lines_cover:
  "a \<le> x \<Longrightarrow> x < ending \<Longrightarrow> \<exists>l \<in> set (flush_lines a ending). l \<le> x \<and> x < l + CACHELINE_SIZE"
proof (induction a ending rule: flush_lines.induct)
  case (1 a ending)
  then have lt: "a < ending" by simp
  show ?case
  proof (cases "x < a + CACHELINE_SIZE")
    case True
    with "1.prems" lt show ?thesis
      by (subst flush_lines.simps) auto
  next
    case False
    then obtain l where "l \<in> set (flush_lines (a + CACHELINE_SIZE) ending)" "l \<le> x" "x < l + CACHELINE_SIZE"
      using "1.IH" [OF lt] "1.prems" by auto
    with lt show ?thesis
      by (subst flush_lines.simps) auto
  qed
qed

section \<open>Properties\<close>

text \<open>C25: moving the frontier of a region. If the aligned request fits into the file, the allocator returns
  code 1 and the first aligned address at or above the old frontier, and the frontier becomes the end of
  the request; otherwise it returns -1 and changes nothing. No sum wraps around for requests below
  \<open>2 ^ 63\<close> bytes.\<close>

theorem nvm_region_allocator_bump:
  assumes "region_at r c" and "3 \<le> k" and "k < 47" and "0 < sz" and "sz < 2 ^ 63"
  shows "case nvm_region_allocator (2 ^ k) sz r of (code, ret, r') \<Rightarrow>
    if ceil_to (2 ^ k) c + sz \<le> base_addr r + FILESIZE r
    then code = 1 \<and> ret = Some (ceil_to (2 ^ k) c) \<and> c \<le> ceil_to (2 ^ k) c \<and>
      2 ^ k dvd ceil_to (2 ^ k) c \<and> region_at r' (ceil_to (2 ^ k) c + sz) \<and>
      curr_addr r' = ceil_to (2 ^ k) c + sz
    else code = -1 \<and> ret = None \<and> r' = r"
proof (cases "ceil_to (2 ^ k) c + sz \<le> base_addr r + FILESIZE r")
  case True
  note ok = nvm_region_allocator_ok [OF assms(1-4) True]
  show ?thesis
    using True ok(2) region_at_curr [OF ok(2)] ceil_to_least(1,3) [of "2 ^ k" c]
    by (simp add: ok(1))
next
  case False
  then show ?thesis
    using nvm_region_allocator_full [OF assms(1,3,5)] by simp
qed

theorem nvm_region_allocator_bump_witness:
  "case nvm_region_allocator (2 ^ 6) 128
      \<lparr>FILESIZE = 65536, base_addr = 4096, hdr = fresh_hdr 65536 4096, persist = True\<rparr> of
    (code, ret, r') \<Rightarrow> code = 1 \<and> ret = Some 8192 \<and> curr_addr r' = 8320"
proof -
  let ?r = "\<lparr>FILESIZE = 65536, base_addr = 4096, hdr = fresh_hdr 65536 4096, persist = True\<rparr>"
  have "region_at ?r 8192"
    by (simp add: region_at_def user_addr_def fresh_hdr_def pm_consts)
  then show ?thesis
    using nvm_region_allocator_bump [of ?r 8192 6 128]
    by (auto simp: ceil_to_def split: prod.splits)
qed

text \<open>C34: a size near \<open>2 ^ 64\<close> wraps the frontier around. The allocator then reports success although
  the request exceeds the file, and the frontier moves backwards.\<close>

theorem nvm_region_allocator_wraps:
  assumes "region_at r c" and "3 \<le> k" and "k < 47" and "2 ^ k dvd c" and "0 < n" and "n < c"
  shows "case nvm_region_allocator (2 ^ k) (2 ^ 64 - n) r of (code, ret, r') \<Rightarrow>
    code = 1 \<and> ret = Some c \<and> FILESIZE r < 2 ^ 64 - n \<and>
    hdr_curr (hdr r') = atomic_pptr_store (base_addr r) (c - n)"
proof -
  have c: "c < 2 ^ 47" "base_addr r + FILESIZE r < 2 ^ 47" "c \<le> base_addr r + FILESIZE r"
    "curr_addr r = c" "hdr_curr (hdr r) = atomic_pptr_store (base_addr r) c"
    using assms(1) region_at_curr by (auto simp: region_at_def user_addr_def)
  have p: "(2 :: nat) ^ k < 2 ^ 47" using assms(3) by (rule power_strict_increasing) simp
  have "c + 2 ^ k < 2 ^ 64" using c(1) p power_two_bounds by linarith
  then have "align_up c (2 ^ k) = ceil_to (2 ^ k) c" using assms(3) by (intro align_up_ceil) simp_all
  also have "\<dots> = c" using assms(4) by (intro ceil_to_unique) simp_all
  finally have al: "align_up c (2 ^ k) = c" .
  have "c + (2 ^ 64 - n) = (c - n) + 2 ^ 64" using assms(6) c(1) by simp
  moreover have "c - n < 2 ^ 64" using c(1) by simp
  ultimately have w: "(c + (2 ^ 64 - n)) mod 2 ^ 64 = c - n" by (simp only: mod_add_self2 mod_less)
  have nz: "2 ^ 64 - n \<noteq> 0" "FILESIZE r < 2 ^ 64 - n" using assms(6) c by auto
  show ?thesis
    using good_alignment_pow2 [OF assms(2)] assms(3) nz c w al
    by (simp add: nvm_region_allocator_def Let_def atomic_pptr_cas_strong_def atomic_pptr_store_def
        set_curr_def)
qed

theorem nvm_region_allocator_wraps_witness:
  "case nvm_region_allocator (2 ^ 12) (2 ^ 64 - 65536)
      \<lparr>FILESIZE = 131072, base_addr = 65536, hdr = fresh_hdr 131072 65536, persist = True\<rparr> of
    (code, ret, r') \<Rightarrow> code = 1 \<and> ret = Some 69632"
proof -
  let ?r = "\<lparr>FILESIZE = 131072, base_addr = 65536, hdr = fresh_hdr 131072 65536, persist = True\<rparr>"
  have "region_at ?r 69632"
    by (simp add: region_at_def user_addr_def fresh_hdr_def pm_consts)
  then show ?thesis
    using nvm_region_allocator_wraps [of ?r 69632 12 65536]
    by (auto simp: dvd_def split: prod.splits)
qed

end
