(* ===== verification/CrossPtr.thy ===== *)
theory CrossPtr
  imports RegionManager
begin

text \<open>
  Pointers between regions (\<^verbatim>\<open>BaseMeta.hpp\<close>, \<^verbatim>\<open>BaseMeta.cpp\<close>): \<^verbatim>\<open>CrossPtr\<close> stores the offset from the
  start of its region, \<^verbatim>\<open>AtomicCrossPtrCnt\<close> packs such an offset and a counter into one word.
  The first argument \<open>start\<close> is the start address of the region pointed into.
\<close>

section \<open>CrossPtr\<close>

definition CrossPtr_new :: "addr \<Rightarrow> addr \<Rightarrow> u64" where
  "CrossPtr_new start real_ptr = (if real_ptr = 0 then 0 else untranslate start real_ptr)"

definition CrossPtr_is_null :: "u64 \<Rightarrow> bool" where
  "CrossPtr_is_null off \<longleftrightarrow> off = 0"

definition CrossPtr_cast :: "addr \<Rightarrow> u64 \<Rightarrow> addr" where
  "CrossPtr_cast start off = (if CrossPtr_is_null off then 0 else translate start off)"

definition CrossPtr_deref :: "addr \<Rightarrow> u64 \<Rightarrow> addr" where
  "CrossPtr_deref start off = translate start off"

text \<open>Assignment from a pointer does not treat the null pointer apart, unlike the constructor.\<close>

definition CrossPtr_assign :: "addr \<Rightarrow> addr \<Rightarrow> u64" where
  "CrossPtr_assign start p = untranslate start p"

definition CrossPtr_assign_nullptr :: u64 where
  "CrossPtr_assign_nullptr = 0"

definition CrossPtr_eq :: "addr \<Rightarrow> u64 \<Rightarrow> u64 \<Rightarrow> bool" where
  "CrossPtr_eq start lhs rhs \<longleftrightarrow> CrossPtr_cast start lhs = CrossPtr_cast start rhs"

section \<open>AtomicCrossPtrCnt\<close>

record ptr_cnt =
  pc_ptr :: addr
  pc_cnt :: u64

definition ptr_cnt_set :: "addr \<Rightarrow> u64 \<Rightarrow> ptr_cnt" where
  "ptr_cnt_set p c = \<lparr>pc_ptr = p, pc_cnt = c\<rparr>"

definition get_ptr :: "ptr_cnt \<Rightarrow> addr" where
  "get_ptr pc = pc_ptr pc"

definition get_counter :: "ptr_cnt \<Rightarrow> u64" where
  "get_counter pc = pc_cnt pc"

definition AtomicCrossPtrCnt_new :: "addr \<Rightarrow> addr \<Rightarrow> u64 \<Rightarrow> u64" where
  "AtomicCrossPtrCnt_new start real_ptr counter =
    (let cnt_prefix = push_bit MAX_DESC_OFFSET_BITS counter
     in if real_ptr = 0 then cnt_prefix else untranslate start real_ptr OR cnt_prefix)"

definition acp_load :: "addr \<Rightarrow> u64 \<Rightarrow> ptr_cnt" where
  "acp_load start cur_off =
    (let cnt = drop_bit MAX_DESC_OFFSET_BITS cur_off;
         off = cur_off AND MAX_DESC_OFFSET_MASK
     in \<lparr>pc_ptr = (if off = 0 then 0 else translate start off), pc_cnt = cnt\<rparr>)"

definition acp_store :: "addr \<Rightarrow> ptr_cnt \<Rightarrow> u64" where
  "acp_store start desired =
    (let cnt_prefix = push_bit MAX_DESC_OFFSET_BITS (pc_cnt desired)
     in if get_ptr desired = 0 then cnt_prefix
        else untranslate start (pc_ptr desired) OR cnt_prefix)"

definition acp_cas_strong :: "addr \<Rightarrow> u64 \<Rightarrow> ptr_cnt \<Rightarrow> ptr_cnt \<Rightarrow> bool \<times> u64 \<times> ptr_cnt" where
  "acp_cas_strong start off expected desired =
    (let old_cnt_prefix = push_bit MAX_DESC_OFFSET_BITS (pc_cnt expected);
         new_cnt_prefix = push_bit MAX_DESC_OFFSET_BITS (pc_cnt desired);
         old_off = (if get_ptr expected = 0 then old_cnt_prefix
                    else untranslate start (pc_ptr expected) OR old_cnt_prefix);
         new_off = (if get_ptr desired = 0 then new_cnt_prefix
                    else untranslate start (pc_ptr desired) OR new_cnt_prefix)
     in if off = old_off then (True, new_off, expected) else (False, off, acp_load start off))"

definition acp_cas_weak :: "bool \<Rightarrow> addr \<Rightarrow> u64 \<Rightarrow> ptr_cnt \<Rightarrow> ptr_cnt \<Rightarrow> bool \<times> u64 \<times> ptr_cnt" where
  "acp_cas_weak spurious start off expected desired =
    (let old_cnt_prefix = push_bit MAX_DESC_OFFSET_BITS (pc_cnt expected);
         new_cnt_prefix = push_bit MAX_DESC_OFFSET_BITS (pc_cnt desired);
         old_off = (if get_ptr expected = 0 then old_cnt_prefix
                    else untranslate start (pc_ptr expected) OR old_cnt_prefix);
         new_off = (if get_ptr desired = 0 then new_cnt_prefix
                    else untranslate start (pc_ptr desired) OR new_cnt_prefix)
     in if off = old_off \<and> \<not> spurious then (True, new_off, expected)
        else (False, off, acp_load start off))"

section \<open>Facts about \<open>CrossPtr\<close>\<close>

lemma CrossPtr_cast_assign:
  assumes "user_addr p" and "start < p"
  shows "CrossPtr_cast start (CrossPtr_assign start p) = p"
proof -
  have "unat (untranslate start p) = p - start"
    using assms by (intro unat_untranslate) simp_all
  then have "untranslate start p \<noteq> 0"
    using assms(2) by auto
  then show ?thesis
    using assms by (simp add: CrossPtr_cast_def CrossPtr_assign_def CrossPtr_is_null_def
        translate_untranslate)
qed

section \<open>Facts about \<open>AtomicCrossPtrCnt\<close>\<close>

text \<open>The pointers the counted word can hold: null, or up to \<open>2 ^ 30\<close> bytes behind \<open>start\<close>.\<close>

definition acp_ptr :: "addr \<Rightarrow> addr \<Rightarrow> bool" where
  "acp_ptr start p \<longleftrightarrow> p = 0 \<or> (start < p \<and> p < start + 2 ^ MAX_DESC_OFFSET_BITS \<and> user_addr p)"

definition acp_start :: "addr \<Rightarrow> bool" where
  "acp_start start \<longleftrightarrow> user_addr (start + 2 ^ MAX_DESC_OFFSET_BITS)"

lemma and_desc_mask: "w AND MAX_DESC_OFFSET_MASK = take_bit MAX_DESC_OFFSET_BITS w"
  by (simp add: MAX_DESC_OFFSET_MASK_def take_bit_eq_mask mask_eq_exp_minus_1)

lemma desc_bits: "MAX_DESC_OFFSET_BITS = 30"
  by (simp add: pm_consts)

lemma acp_load_alt:
  "acp_load start w =
    \<lparr>pc_ptr = (if take_bit 30 w = 0 then 0 else translate start (take_bit 30 w)), pc_cnt = drop_bit 30 w\<rparr>"
  by (simp add: acp_load_def and_desc_mask desc_bits)

lemma acp_store_alt:
  "acp_store start pc =
    (if pc_ptr pc = 0 then push_bit 30 (pc_cnt pc)
     else push_bit 30 (pc_cnt pc) OR untranslate start (pc_ptr pc))"
  by (simp add: acp_store_def get_ptr_def desc_bits or.commute)

lemma acp_cas_strong_iff:
  "acp_cas_strong start off expected desired =
    (if off = acp_store start expected then (True, acp_store start desired, expected)
     else (False, off, acp_load start off))"
  by (simp add: acp_cas_strong_def acp_store_def Let_def)

lemma acp_cas_weak_iff:
  "acp_cas_weak sp start off expected desired =
    (if off = acp_store start expected \<and> \<not> sp then (True, acp_store start desired, expected)
     else (False, off, acp_load start off))"
  by (simp add: acp_cas_weak_def acp_store_def Let_def)

lemma unat_untranslate_ptr:
  assumes "acp_ptr start p" and "p \<noteq> 0"
  shows "unat (untranslate start p) = p - start" and "unat (untranslate start p) < 2 ^ 30"
    and "untranslate start p \<noteq> 0"
proof -
  show eq: "unat (untranslate start p) = p - start"
    using assms by (intro unat_untranslate) (auto simp: acp_ptr_def)
  then show "unat (untranslate start p) < 2 ^ 30" and "untranslate start p \<noteq> 0"
    using assms by (auto simp: acp_ptr_def pm_consts)
qed

text \<open>The pointer comes back, and the counter modulo \<open>2 ^ 34\<close>.\<close>

lemma acp_load_store_take:
  assumes "acp_ptr start (pc_ptr pc)"
  shows "acp_load start (acp_store start pc) = pc\<lparr>pc_cnt := take_bit 34 (pc_cnt pc)\<rparr>"
proof (cases "pc_ptr pc = 0")
  case True
  have "drop_bit 30 (push_bit 30 (pc_cnt pc) OR 0) = take_bit (64 - 30) (pc_cnt pc)"
    by (rule pack_high_take) simp_all
  moreover have "take_bit 30 (push_bit 30 (pc_cnt pc) OR 0) = 0"
    by (rule pack_low) simp
  ultimately show ?thesis
    using True by (simp add: acp_load_alt acp_store_alt)
next
  case False
  let ?o = "untranslate start (pc_ptr pc)"
  have o: "unat ?o < 2 ^ 30" "?o \<noteq> 0"
    using unat_untranslate_ptr [OF assms(1) False] by auto
  have "drop_bit 30 (push_bit 30 (pc_cnt pc) OR ?o) = take_bit (64 - 30) (pc_cnt pc)"
    by (rule pack_high_take) (use o in simp_all)
  moreover have "take_bit 30 (push_bit 30 (pc_cnt pc) OR ?o) = ?o"
    by (rule pack_low) (use o in simp)
  moreover have "translate start ?o = pc_ptr pc"
    using assms(1) False by (intro translate_untranslate) (auto simp: acp_ptr_def)
  ultimately show ?thesis
    using o False by (simp only: acp_load_alt acp_store_alt if_False) simp
qed

lemma acp_load_store:
  assumes "acp_ptr start (pc_ptr pc)" and "unat (pc_cnt pc) < 2 ^ 34"
  shows "acp_load start (acp_store start pc) = pc"
  using assms by (simp add: acp_load_store_take take_bit_self_u64)

lemma translate_low:
  assumes "acp_start start"
  shows "translate start (take_bit 30 w) = start + unat (take_bit 30 w)"
    and "unat (take_bit 30 w) < 2 ^ 30"
proof -
  show o: "unat (take_bit 30 w) < 2 ^ 30"
    by (simp only: unsigned_take_bit_eq take_bit_nat_less_exp)
  moreover have "start + 2 ^ 30 < 2 ^ 47"
    using assms by (simp add: acp_start_def user_addr_def desc_bits)
  ultimately show "translate start (take_bit 30 w) = start + unat (take_bit 30 w)"
    by (simp add: translate_def unat_word_ariths unat_of_nat)
qed

lemma acp_load_ptr:
  assumes "acp_start start"
  shows "acp_ptr start (pc_ptr (acp_load start w))" and "unat (pc_cnt (acp_load start w)) < 2 ^ 34"
proof -
  have "take_bit 30 w \<noteq> 0 \<Longrightarrow> 0 < unat (take_bit 30 w)"
    by (simp add: unat_gt_0)
  then show "acp_ptr start (pc_ptr (acp_load start w))"
    using translate_low [OF assms, of w] assms
    by (auto simp: acp_load_alt acp_ptr_def acp_start_def user_addr_def desc_bits)
  have "unat w < 2 ^ 64"
    by (rule order_less_le_trans [OF unsigned_less]) simp
  then have "unat w div 2 ^ 30 < 2 ^ 34"
    by (simp add: less_mult_imp_div_less)
  then show "unat (pc_cnt (acp_load start w)) < 2 ^ 34"
    using \<open>unat w < 2 ^ 64\<close>
    by (simp add: acp_load_alt unsigned_drop_bit_eq drop_bit_nat_def take_bit_nat_eq_self)
qed

text \<open>Nothing of the word is lost: what was loaded is stored back as the same word.\<close>

lemma acp_store_load:
  assumes "acp_start start"
  shows "acp_store start (acp_load start w) = w"
proof -
  have join: "push_bit 30 (drop_bit 30 w) OR take_bit 30 w = w"
    by (rule bit_word_eqI) (auto simp: bit_simps)
  have "untranslate start (start + unat (take_bit 30 w)) = take_bit 30 w"
    by (simp add: untranslate_def)
  moreover have "take_bit 30 w \<noteq> 0 \<Longrightarrow> unat (take_bit 30 w) \<noteq> 0"
    by (simp add: unat_eq_zero)
  ultimately show ?thesis
    using join translate_low [OF assms, of w]
    by (cases "take_bit 30 w = 0") (simp_all add: acp_store_alt acp_load_alt)
qed

text \<open>Without interference between load and exchange, the exchange succeeds.\<close>

lemma acp_cas_after_load:
  assumes "acp_start start"
  shows "acp_cas_strong start w (acp_load start w) new = (True, acp_store start new, acp_load start w)"
    and "acp_cas_weak False start w (acp_load start w) new = (True, acp_store start new, acp_load start w)"
  using acp_store_load [OF assms, of w] by (simp_all add: acp_cas_strong_iff acp_cas_weak_iff)

end
