(* ===== verification/SizeClass.thy ===== *)
theory SizeClass
  imports PmConfig
begin

text \<open>
  The size classes (\<^verbatim>\<open>SizeClass.hpp\<close>, \<^verbatim>\<open>SizeClass.cpp\<close>): the table of the classes, the record
  kept for each, and the constructor's loop that fills the lookup array. The facts say that
  the array holds, for every size a class covers, the smallest class that is large enough.
\<close>

section \<open>The table\<close>

text \<open>
  One row of \<^verbatim>\<open>SIZE_CLASSES\<close>: the columns the macro \<^verbatim>\<open>SC\<close> uses. \<open>sc_bin\<close> is the column that selects
  \<^verbatim>\<open>SIZE_CLASS_bin_yes\<close> or \<^verbatim>\<open>SIZE_CLASS_bin_no\<close>.
\<close>

record SC =
  sc_index :: nat
  lg_grp :: nat
  lg_delta :: nat
  ndelta :: nat
  sc_bin :: bool

definition mk_SC :: "nat \<Rightarrow> nat \<Rightarrow> nat \<Rightarrow> nat \<Rightarrow> bool \<Rightarrow> SC" where
  "mk_SC i g d n b = \<lparr>sc_index = i, lg_grp = g, lg_delta = d, ndelta = n, sc_bin = b\<rparr>"

text \<open>Rows 0 to 38: the classes with superblocks of their own.\<close>

definition SIZE_CLASSES_bin :: "SC list" where
  "SIZE_CLASSES_bin =
    [mk_SC 0 3 3 0 True, mk_SC 1 3 3 1 True, mk_SC 2 3 3 2 True, mk_SC 3 3 3 3 True,
     mk_SC 4 5 3 1 True, mk_SC 5 5 3 2 True, mk_SC 6 5 3 3 True, mk_SC 7 5 3 4 True,
     mk_SC 8 6 4 1 True, mk_SC 9 6 4 2 True, mk_SC 10 6 4 3 True, mk_SC 11 6 4 4 True,
     mk_SC 12 7 5 1 True, mk_SC 13 7 5 2 True, mk_SC 14 7 5 3 True, mk_SC 15 7 5 4 True,
     mk_SC 16 8 6 1 True, mk_SC 17 8 6 2 True, mk_SC 18 8 6 3 True, mk_SC 19 8 6 4 True,
     mk_SC 20 9 7 1 True, mk_SC 21 9 7 2 True, mk_SC 22 9 7 3 True, mk_SC 23 9 7 4 True,
     mk_SC 24 10 8 1 True, mk_SC 25 10 8 2 True, mk_SC 26 10 8 3 True, mk_SC 27 10 8 4 True,
     mk_SC 28 11 9 1 True, mk_SC 29 11 9 2 True, mk_SC 30 11 9 3 True, mk_SC 31 11 9 4 True,
     mk_SC 32 12 10 1 True, mk_SC 33 12 10 2 True, mk_SC 34 12 10 3 True, mk_SC 35 12 10 4 True,
     mk_SC 36 13 11 1 True, mk_SC 37 13 11 2 True, mk_SC 38 13 11 3 True]"

text \<open>
  Rows 39 to 234, which the table goes on to list with \<^verbatim>\<open>bin = no\<close>: from row 4 on, every group
  of four rows shares \<^verbatim>\<open>lg_grp\<close> and \<^verbatim>\<open>lg_delta\<close>, and \<^verbatim>\<open>ndelta\<close> runs from 1 to 4.
\<close>

definition SIZE_CLASSES_large :: "SC list" where
  "SIZE_CLASSES_large =
    map (\<lambda>i. mk_SC i (i div 4 + 4) (i div 4 + 2) (i mod 4 + 1) False) [39..<235]"

definition SIZE_CLASSES :: "SC list" where
  "SIZE_CLASSES = SIZE_CLASSES_bin @ SIZE_CLASSES_large"

section \<open>Size class data\<close>

record SizeClassData =
  block_size :: nat
  sb_size :: nat
  block_num :: nat
  cache_block_num :: nat

definition get_block_num :: "SizeClassData \<Rightarrow> nat" where
  "get_block_num sc = block_num sc"

definition SIZE_CLASS_bin_yes :: "nat \<Rightarrow> SizeClassData" where
  "SIZE_CLASS_bin_yes bs =
    \<lparr>block_size = bs, sb_size = SBSIZE, block_num = SBSIZE div bs, cache_block_num = SBSIZE div bs\<rparr>"

definition SC_block_size :: "SC \<Rightarrow> nat" where
  "SC_block_size r = 2 ^ lg_grp r + ndelta r * 2 ^ lg_delta r"

definition SC_data :: "SC \<Rightarrow> SizeClassData list" where
  "SC_data r = (if sc_bin r then [SIZE_CLASS_bin_yes (SC_block_size r)] else [])"

text \<open>Index 0 is reserved for large allocations.\<close>

definition sizeclasses :: "SizeClassData list" where
  "sizeclasses =
    \<lparr>block_size = 0, sb_size = 0, block_num = 0, cache_block_num = 0\<rparr> # concat (map SC_data SIZE_CLASSES)"

section \<open>The lookup array\<close>

text \<open>The inner loop of the constructor: \<^verbatim>\<open>while (lookupIdx <= block_size)\<close>.\<close>

function fill_class :: "nat \<Rightarrow> nat \<Rightarrow> (nat \<Rightarrow> nat) \<times> nat \<Rightarrow> (nat \<Rightarrow> nat) \<times> nat" where
  "fill_class bs sc_idx (lookup, lookupIdx) =
    (if lookupIdx \<le> bs then fill_class bs sc_idx (lookup(lookupIdx := sc_idx), Suc lookupIdx)
     else (lookup, lookupIdx))"
  by pat_completeness auto
termination
  by (relation "measure (\<lambda>(bs, sc_idx, lookup, lookupIdx). Suc bs - lookupIdx)") auto

text \<open>The outer loop: \<^verbatim>\<open>for (sc_idx = 1; sc_idx < MAX_SZ_IDX; ++sc_idx)\<close>.\<close>

definition SizeClass_init :: "(nat \<Rightarrow> nat) \<times> nat" where
  "SizeClass_init =
    fold (\<lambda>sc_idx st. fill_class (block_size (sizeclasses ! sc_idx)) sc_idx st)
      [1..<MAX_SZ_IDX] ((\<lambda>_. 0), 0)"

definition sizeclass_lookup :: "nat \<Rightarrow> nat" where
  "sizeclass_lookup = fst SizeClass_init"

definition get_sizeclass :: "nat \<Rightarrow> nat" where
  "get_sizeclass sz = sizeclass_lookup sz"

definition get_sizeclass_by_idx :: "nat \<Rightarrow> SizeClassData" where
  "get_sizeclass_by_idx idx = sizeclasses ! idx"

text \<open>The block size of a class, the quantity everything else is stated with.\<close>

definition bsize :: "nat \<Rightarrow> nat" where
  "bsize sc = block_size (get_sizeclass_by_idx sc)"

section \<open>Facts about the table\<close>

lemma concat_large: "concat (map SC_data SIZE_CLASSES_large) = []"
  by (auto simp: SIZE_CLASSES_large_def SC_data_def mk_SC_def)

lemma sizeclasses_map:
  "sizeclasses = \<lparr>block_size = 0, sb_size = 0, block_num = 0, cache_block_num = 0\<rparr> #
    map SIZE_CLASS_bin_yes
    [8, 16, 24, 32, 40, 48, 56, 64, 80, 96, 112, 128, 160, 192, 224, 256, 320, 384, 448, 512,
     640, 768, 896, 1024, 1280, 1536, 1792, 2048, 2560, 3072, 3584, 4096, 5120, 6144, 7168, 8192,
     10240, 12288, 14336]"
  by (simp add: sizeclasses_def SIZE_CLASSES_def concat_large SIZE_CLASSES_bin_def SC_data_def
      mk_SC_def SC_block_size_def)

definition bsizes :: "nat list" where
  "bsizes = map block_size sizeclasses"

lemma bsizes_eq:
  "bsizes =
    [0, 8, 16, 24, 32, 40, 48, 56, 64, 80, 96, 112, 128, 160, 192, 224, 256, 320, 384, 448, 512,
     640, 768, 896, 1024, 1280, 1536, 1792, 2048, 2560, 3072, 3584, 4096, 5120, 6144, 7168, 8192,
     10240, 12288, 14336]"
  by (simp add: bsizes_def sizeclasses_map SIZE_CLASS_bin_yes_def)

lemma length_sizeclasses [simp]: "length sizeclasses = MAX_SZ_IDX"
  by (simp add: sizeclasses_map pm_consts)

lemma bsize_nth: "sc < MAX_SZ_IDX \<Longrightarrow> bsize sc = bsizes ! sc"
  by (simp add: bsize_def get_sizeclass_by_idx_def bsizes_def)

lemma bsizes_sorted: "sorted_wrt (<) bsizes"
  by (simp add: bsizes_eq)

lemma length_bsizes [simp]: "length bsizes = MAX_SZ_IDX"
  by (simp add: bsizes_def)

lemma bsize_strict_mono: "a < b \<Longrightarrow> b < MAX_SZ_IDX \<Longrightarrow> bsize a < bsize b"
  using sorted_wrt_nth_less [OF bsizes_sorted, of a b] by (simp add: bsize_nth)

lemma bsize_0 [simp]: "bsize 0 = 0"
  by (simp add: bsize_nth bsizes_eq pm_consts)

lemma bsize_last: "bsize (MAX_SZ_IDX - 1) = MAX_SZ"
  by (simp add: bsize_nth bsizes_eq pm_consts)

lemma bsize_props:
  assumes "1 \<le> sc" and "sc < MAX_SZ_IDX"
  shows "8 \<le> bsize sc" and "8 dvd bsize sc" and "bsize sc \<le> MAX_SZ"
proof -
  have "bsize sc \<in> set (tl bsizes)"
    using assms by (cases sc) (simp_all add: bsize_nth nth_tl [symmetric])
  moreover have "\<forall>x \<in> set (tl bsizes). 8 \<le> x \<and> 8 dvd x \<and> x \<le> MAX_SZ"
    by (simp add: bsizes_eq pm_consts)
  ultimately show "8 \<le> bsize sc" and "8 dvd bsize sc" and "bsize sc \<le> MAX_SZ"
    by blast+
qed

lemma sizeclass_data:
  assumes "1 \<le> sc" and "sc < MAX_SZ_IDX"
  shows "get_sizeclass_by_idx sc = SIZE_CLASS_bin_yes (bsize sc)"
proof -
  have *: "\<forall>d \<in> set (tl sizeclasses). d = SIZE_CLASS_bin_yes (block_size d)"
    by (simp add: sizeclasses_map SIZE_CLASS_bin_yes_def)
  have "sizeclasses ! sc \<in> set (tl sizeclasses)"
    using assms by (cases sc) (simp_all add: nth_tl [symmetric])
  with * show ?thesis
    by (simp add: bsize_def get_sizeclass_by_idx_def)
qed

text \<open>The number of blocks of a superblock of class \<open>sc\<close>.\<close>

definition nblocks :: "nat \<Rightarrow> nat" where
  "nblocks sc = SBSIZE div bsize sc"

lemma sizeclass_fields:
  assumes "1 \<le> sc" and "sc < MAX_SZ_IDX"
  shows "block_size (get_sizeclass_by_idx sc) = bsize sc"
    and "sb_size (get_sizeclass_by_idx sc) = SBSIZE"
    and "block_num (get_sizeclass_by_idx sc) = nblocks sc"
    and "cache_block_num (get_sizeclass_by_idx sc) = nblocks sc"
  by (simp_all add: sizeclass_data [OF assms] SIZE_CLASS_bin_yes_def nblocks_def)

lemma nblocks_props:
  assumes "1 \<le> sc" and "sc < MAX_SZ_IDX"
  shows "4 \<le> nblocks sc" and "nblocks sc * bsize sc \<le> SBSIZE" and "nblocks sc \<le> 8192"
proof -
  note b = bsize_props [OF assms]
  have "SBSIZE div MAX_SZ \<le> SBSIZE div bsize sc"
    using b by (intro div_le_mono2) simp_all
  then show "4 \<le> nblocks sc"
    by (simp add: nblocks_def pm_consts)
  show "nblocks sc * bsize sc \<le> SBSIZE"
    by (simp add: nblocks_def div_times_less_eq_dividend)
  have "SBSIZE div bsize sc \<le> SBSIZE div 8"
    using b by (simp add: div_le_mono2)
  then show "nblocks sc \<le> 8192"
    by (simp add: nblocks_def pm_consts)
qed

section \<open>Facts about the lookup array\<close>

declare fill_class.simps [simp del]

lemma fill_class_eq:
  assumes "i \<le> Suc bs"
  shows "fill_class bs sc (l, i) = ((\<lambda>j. if i \<le> j \<and> j \<le> bs then sc else l j), Suc bs)"
  using assms
proof (induction "Suc bs - i" arbitrary: i l)
  case 0
  then have "i = Suc bs" by simp
  then show ?case
    by (subst fill_class.simps) (auto simp: fun_eq_iff)
next
  case (Suc n)
  then have "i \<le> bs" by simp
  then have "fill_class bs sc (l, i) = fill_class bs sc (l(i := sc), Suc i)"
    by (subst fill_class.simps) simp
  also have "\<dots> = ((\<lambda>j. if Suc i \<le> j \<and> j \<le> bs then sc else (l(i := sc)) j), Suc bs)"
    by (rule Suc.hyps(1)) (use Suc.hyps(2) \<open>i \<le> bs\<close> in simp_all)
  finally show ?case
    using \<open>i \<le> bs\<close> by (auto simp: fun_eq_iff)
qed

text \<open>After the classes below \<open>n\<close>: the array is filled up to the largest of them.\<close>

definition lookup_ok :: "nat \<Rightarrow> (nat \<Rightarrow> nat) \<times> nat \<Rightarrow> bool" where
  "lookup_ok n st \<longleftrightarrow> snd st = Suc (bsize n) \<and>
    (\<forall>j \<le> bsize n. 1 \<le> fst st j \<and> fst st j \<le> n \<and> j \<le> bsize (fst st j) \<and>
      (fst st j = 1 \<or> bsize (fst st j - 1) < j))"

lemma lookup_fold:
  "1 \<le> n \<Longrightarrow> n < MAX_SZ_IDX \<Longrightarrow>
    lookup_ok n (fold (\<lambda>sc_idx st. fill_class (block_size (sizeclasses ! sc_idx)) sc_idx st)
      [1..<Suc n] ((\<lambda>_. 0), 0))"
proof (induction n rule: nat_induct_at_least)
  case base
  then show ?case
    by (simp add: lookup_ok_def fill_class_eq bsize_def get_sizeclass_by_idx_def)
next
  case (Suc n)
  define st where "st = fold (\<lambda>sc_idx st. fill_class (block_size (sizeclasses ! sc_idx)) sc_idx st)
    [1..<Suc n] ((\<lambda>_. 0), 0)"
  obtain l i where st: "st = (l, i)" by fastforce
  have ok: "lookup_ok n (l, i)"
    using Suc st by (simp add: st_def)
  have lt: "bsize n < bsize (Suc n)"
    using Suc.prems by (intro bsize_strict_mono) simp_all
  have i: "i = Suc (bsize n)"
    using ok by (simp add: lookup_ok_def)
  have "fill_class (bsize (Suc n)) (Suc n) (l, i) =
      ((\<lambda>j. if i \<le> j \<and> j \<le> bsize (Suc n) then Suc n else l j), Suc (bsize (Suc n)))"
    using lt i by (intro fill_class_eq) simp
  then have "lookup_ok (Suc n) (fill_class (bsize (Suc n)) (Suc n) (l, i))"
    using ok lt i by (auto simp: lookup_ok_def not_less_eq_eq le_Suc_eq)
  moreover have "fold (\<lambda>sc_idx st. fill_class (block_size (sizeclasses ! sc_idx)) sc_idx st)
      [1..<Suc (Suc n)] ((\<lambda>_. 0), 0) = fill_class (bsize (Suc n)) (Suc n) st"
    using Suc.hyps by (simp add: st_def bsize_def get_sizeclass_by_idx_def)
  ultimately show ?case
    by (simp only: st)
qed

lemma lookup_ok_final: "lookup_ok (MAX_SZ_IDX - 1) SizeClass_init"
  using lookup_fold [of "MAX_SZ_IDX - 1"] by (simp add: SizeClass_init_def pm_consts)

lemma get_sizeclass_spec:
  assumes "sz \<le> MAX_SZ"
  shows "1 \<le> get_sizeclass sz" and "get_sizeclass sz < MAX_SZ_IDX"
    and "sz \<le> bsize (get_sizeclass sz)"
    and "get_sizeclass sz = 1 \<or> bsize (get_sizeclass sz - 1) < sz"
  using lookup_ok_final assms
  unfolding lookup_ok_def bsize_last get_sizeclass_def sizeclass_lookup_def
  by (auto simp: MAX_SZ_IDX_def dest!: spec [of _ sz])

section \<open>Properties\<close>

lemma get_sizeclass_least:
  assumes "sz \<le> MAX_SZ" and sc: "1 \<le> sc" "sc < MAX_SZ_IDX" "sz \<le> bsize sc"
  shows "get_sizeclass sz \<le> sc"
proof (rule ccontr)
  note spec = get_sizeclass_spec [OF assms(1)]
  assume "\<not> get_sizeclass sz \<le> sc"
  then have lt: "sc < get_sizeclass sz" by simp
  with sc(1) spec(4) have "bsize (get_sizeclass sz - 1) < sz" by auto
  moreover have "sc = get_sizeclass sz - 1 \<or> bsize sc < bsize (get_sizeclass sz - 1)"
    using bsize_strict_mono [of sc "get_sizeclass sz - 1"] lt spec(2) by linarith
  ultimately show False using sc(3) by auto
qed

text \<open>A request of exactly the size of a class is served by that class.\<close>

lemma bsize_get_sizeclass:
  assumes "1 \<le> sc" "sc < MAX_SZ_IDX" "bsize sc \<le> MAX_SZ"
  shows "bsize (get_sizeclass (bsize sc)) = bsize sc"
proof -
  note spec = get_sizeclass_spec [OF assms(3)]
  have le: "get_sizeclass (bsize sc) \<le> sc" by (rule get_sizeclass_least [OF assms(3,1,2)]) simp
  then show ?thesis using spec(3) bsize_strict_mono [of "get_sizeclass (bsize sc)" sc] assms(2)
    by (cases "get_sizeclass (bsize sc) = sc") auto
qed

text \<open>C20: for every request up to \<^verbatim>\<open>MAX_SZ\<close>, the lookup table that the constructor of \<^verbatim>\<open>SizeClass\<close> fills gives
  the smallest size class whose blocks hold the request, and never the reserved class 0.\<close>

theorem get_sizeclass_best_fit:
  assumes "sz \<le> MAX_SZ"
  shows "1 \<le> get_sizeclass sz \<and> get_sizeclass sz < MAX_SZ_IDX \<and> sz \<le> bsize (get_sizeclass sz) \<and>
    (\<forall>sc. 1 \<le> sc \<and> sc < MAX_SZ_IDX \<and> sz \<le> bsize sc \<longrightarrow> get_sizeclass sz \<le> sc)"
proof -
  note spec = get_sizeclass_spec [OF assms]
  have "get_sizeclass sz \<le> sc" if "1 \<le> sc" "sc < MAX_SZ_IDX" "sz \<le> bsize sc" for sc
    by (rule get_sizeclass_least [OF assms that])
  with spec show ?thesis by blast
qed

theorem get_sizeclass_best_fit_witness:
  "100 \<le> MAX_SZ \<and> 100 \<le> bsize (get_sizeclass 100) \<and> get_sizeclass 100 \<le> 11"
proof -
  have m: "(100 :: nat) \<le> MAX_SZ" by (simp add: pm_consts)
  have "100 \<le> bsize 11" by (simp add: bsize_nth bsizes_eq pm_consts)
  then show ?thesis
    using get_sizeclass_best_fit [OF m] m by (auto simp: MAX_SZ_IDX_def)
qed

end
