(* ===== verification/Descriptor.thy ===== *)
theory Descriptor
  imports CrossPtr SizeClass
begin

text \<open>
  The metadata of a superblock (\<^verbatim>\<open>BaseMeta.hpp\<close>): the 64-bit anchor with its bit fields, the
  descriptor, and the heap of a size class. Free superblocks and partially used superblocks
  are linked through their descriptors; both links fulfil the contract of \<open>link_store\<close>.
\<close>

section \<open>Anchor\<close>

datatype SuperblockState = SB_ERROR | SB_FULL | SB_PARTIAL | SB_EMPTY

fun state_code :: "SuperblockState \<Rightarrow> nat" where
  "state_code SB_ERROR = 0"
| "state_code SB_FULL = 1"
| "state_code SB_PARTIAL = 2"
| "state_code SB_EMPTY = 3"

definition code_state :: "nat \<Rightarrow> SuperblockState" where
  "code_state n = (if n = 0 then SB_ERROR else if n = 1 then SB_FULL
    else if n = 2 then SB_PARTIAL else SB_EMPTY)"

text \<open>\<^verbatim>\<open>uint64_t avail:31,count:31, state:2\<close>; an assignment to a field keeps its low bits.\<close>

record Anchor =
  avail :: nat
  count :: nat
  state :: SuperblockState

definition set_avail :: "nat \<Rightarrow> Anchor \<Rightarrow> Anchor" where
  "set_avail v a = a\<lparr>avail := v mod 2 ^ 31\<rparr>"

definition set_count :: "nat \<Rightarrow> Anchor \<Rightarrow> Anchor" where
  "set_count v a = a\<lparr>count := v mod 2 ^ 31\<rparr>"

definition set_state :: "SuperblockState \<Rightarrow> Anchor \<Rightarrow> Anchor" where
  "set_state v a = a\<lparr>state := v\<rparr>"

definition Anchor_new :: "nat \<Rightarrow> nat \<Rightarrow> SuperblockState \<Rightarrow> Anchor" where
  "Anchor_new a c s = \<lparr>avail = a mod 2 ^ 31, count = c mod 2 ^ 31, state = s\<rparr>"

text \<open>The word the anchor is stored in, and the constructor from a word.\<close>

definition anchor_word :: "Anchor \<Rightarrow> nat" where
  "anchor_word a = avail a + count a * 2 ^ 31 + state_code (state a) * 2 ^ 62"

definition Anchor_of_word :: "nat \<Rightarrow> Anchor" where
  "Anchor_of_word w =
    \<lparr>avail = w mod 2 ^ 31, count = w div 2 ^ 31 mod 2 ^ 31, state = code_state (w div 2 ^ 62 mod 4)\<rparr>"

section \<open>Descriptor\<close>

text \<open>
  \<open>heap\<close> points to an element of the array of heaps and is kept as its index. The links are
  raw \<^verbatim>\<open>atomic_pptr\<close> words; their addresses are the first two words of the descriptor.
\<close>

record Descriptor =
  next_free :: u64
  next_partial :: u64
  anchor :: Anchor
  superblock :: u64
  heap :: "nat option"
  desc_block_size :: nat
  maxcount :: nat

definition Descriptor_new :: Descriptor where
  "Descriptor_new = \<lparr>next_free = PPTR_PATTERN_POS, next_partial = PPTR_PATTERN_POS,
    anchor = Anchor_of_word 0, superblock = 0, heap = None, desc_block_size = 0, maxcount = 0\<rparr>"

record ProcHeap =
  partial_list :: u64
  sc_idx :: nat

section \<open>The links\<close>

type_synonym desc_map = "addr \<Rightarrow> Descriptor"

definition next_free_load :: "desc_map \<Rightarrow> addr \<Rightarrow> addr" where
  "next_free_load ds d = atomic_pptr_load d (next_free (ds d))"

definition next_free_store :: "addr \<Rightarrow> addr \<Rightarrow> desc_map \<Rightarrow> desc_map" where
  "next_free_store d v ds = ds(d := (ds d)\<lparr>next_free := atomic_pptr_store d v\<rparr>)"

definition next_partial_load :: "desc_map \<Rightarrow> addr \<Rightarrow> addr" where
  "next_partial_load ds d = atomic_pptr_load (d + 8) (next_partial (ds d))"

definition next_partial_store :: "addr \<Rightarrow> addr \<Rightarrow> desc_map \<Rightarrow> desc_map" where
  "next_partial_store d v ds = ds(d := (ds d)\<lparr>next_partial := atomic_pptr_store (d + 8) v\<rparr>)"

section \<open>Facts\<close>

definition anchor_wf :: "Anchor \<Rightarrow> bool" where
  "anchor_wf a \<longleftrightarrow> avail a < 2 ^ 31 \<and> count a < 2 ^ 31"

lemma code_state_code [simp]: "code_state (state_code s) = s"
  by (cases s) (simp_all add: code_state_def)

lemma state_code_lt: "state_code s < 4"
  by (cases s) simp_all

lemma state_code_code: "n < 4 \<Longrightarrow> state_code (code_state n) = n"
  by (auto simp: code_state_def)

lemma anchor_word_roundtrip:
  assumes "anchor_wf a"
  shows "Anchor_of_word (anchor_word a) = a"
proof -
  let ?w = "anchor_word a"
  have b: "avail a < 2147483648" "count a < 2147483648" "state_code (state a) < 4"
    using assms state_code_lt by (auto simp: anchor_wf_def)
  have 1: "?w = avail a + (count a + state_code (state a) * 2147483648) * 2147483648"
    by (simp add: anchor_word_def algebra_simps)
  have split: "(x + y * 2147483648) mod 2147483648 = x" "(x + y * 2147483648) div 2147483648 = y"
    if "x < 2147483648" for x y :: nat
    using that by simp_all
  have "?w mod 2147483648 = avail a"
    unfolding 1 by (rule split(1) [OF b(1)])
  moreover have d: "?w div 2147483648 = count a + state_code (state a) * 2147483648"
    unfolding 1 by (rule split(2) [OF b(1)])
  moreover have "?w div 2147483648 mod 2147483648 = count a"
    unfolding d by (rule split(1) [OF b(2)])
  moreover have "?w div 4611686018427387904 = ?w div 2147483648 div 2147483648"
    by (simp flip: div_mult2_eq)
  then have "?w div 4611686018427387904 = state_code (state a)"
    unfolding d using split(2) [OF b(2)] by (simp only:)
  ultimately show ?thesis
    using b by (simp add: Anchor_of_word_def)
qed

lemma anchor_of_word_roundtrip:
  assumes "w < 2 ^ 64"
  shows "anchor_wf (Anchor_of_word w)" and "anchor_word (Anchor_of_word w) = w"
proof -
  show "anchor_wf (Anchor_of_word w)"
    by (simp add: anchor_wf_def Anchor_of_word_def)
  have "w div 4611686018427387904 < 4"
    using assms by (simp add: less_mult_imp_div_less)
  moreover have "w div 4611686018427387904 = w div 2147483648 div 2147483648"
    by (simp flip: div_mult2_eq)
  ultimately have "anchor_word (Anchor_of_word w) =
      w mod 2147483648 + (w div 2147483648 mod 2147483648) * 2147483648 +
      (w div 2147483648 div 2147483648) * 4611686018427387904"
    by (simp add: anchor_word_def Anchor_of_word_def state_code_code)
  then show "anchor_word (Anchor_of_word w) = w"
    using mod_div_mult_eq [of w 2147483648] mod_div_mult_eq [of "w div 2147483648" 2147483648]
    by linarith
qed

lemma Descriptor_new_simps [simp]:
  "heap Descriptor_new = None" "superblock Descriptor_new = 0"
  "desc_block_size Descriptor_new = 0" "maxcount Descriptor_new = 0"
  "state (anchor Descriptor_new) = SB_ERROR"
  by (simp_all add: Descriptor_new_def Anchor_of_word_def code_state_def)

text \<open>
  A descriptor address is usable if it is a user address with room for the whole
  descriptor. Distinct descriptors never share a link.
\<close>

definition desc_addr_ok :: "addr \<Rightarrow> bool" where
  "desc_addr_ok d \<longleftrightarrow> user_addr (d + 8)"

text \<open>
  The links as the invariant reads them. A word may name the null pointer in two ways: by the null word,
  or by a distance that leads to address 0. Only the first stays null when the file is mapped elsewhere, and
  only the first is ever stored; the second is read as 1 here, which is the address of no descriptor.
\<close>

definition checked_load :: "addr \<Rightarrow> u64 \<Rightarrow> addr" where
  "checked_load p off = (if is_null_pptr off then 0 else if atomic_pptr_load p off = 0 then 1 else atomic_pptr_load p off)"

definition free_link :: "desc_map \<Rightarrow> addr \<Rightarrow> addr" where
  "free_link ds d = checked_load d (next_free (ds d))"

definition partial_link :: "desc_map \<Rightarrow> addr \<Rightarrow> addr" where
  "partial_link ds d = checked_load (d + 8) (next_partial (ds d))"

lemma checked_load_store:
  assumes "user_addr v" and "user_addr p"
  shows "checked_load p (atomic_pptr_store p v) = v"
proof (cases "v = 0")
  case True
  then show ?thesis by (simp add: checked_load_def atomic_pptr_store_def to_pptr_off_def is_null_pptr_def)
next
  case False
  have "(of_nat v :: u64) \<noteq> 0" using unat_of_nat_user [OF assms(1)] False by auto
  then have "\<not> is_null_pptr (atomic_pptr_store p v)"
    using to_pptr_off_null [OF user_near [OF assms]] by (simp add: atomic_pptr_store_def)
  then show ?thesis using False by (simp add: checked_load_def atomic_pptr_load_store [OF assms])
qed

lemma checked_load_eq: "checked_load p off \<noteq> 1 \<Longrightarrow> atomic_pptr_load p off = checked_load p off"
  by (auto simp: checked_load_def atomic_pptr_load_def from_pptr_off_def split: if_splits)

lemma next_load_link:
  "free_link ds d \<noteq> 1 \<Longrightarrow> next_free_load ds d = free_link ds d"
  "partial_link ds d \<noteq> 1 \<Longrightarrow> next_partial_load ds d = partial_link ds d"
  by (simp_all add: next_free_load_def next_partial_load_def free_link_def partial_link_def checked_load_eq)

interpretation fre: link_store free_link next_free_store desc_addr_ok "(\<noteq>)"
  by unfold_locales
    (auto simp: free_link_def next_free_store_def desc_addr_ok_def user_addr_def
      intro!: checked_load_store)

interpretation par: link_store partial_link next_partial_store desc_addr_ok "(\<noteq>)"
  by unfold_locales
    (auto simp: partial_link_def next_partial_store_def desc_addr_ok_def user_addr_def
      intro!: checked_load_store)

lemma partial_link_free_store [simp]:
  "partial_link (next_free_store d v ds) = partial_link ds"
  by (auto simp: partial_link_def next_free_store_def fun_eq_iff)

lemma free_link_partial_store [simp]:
  "free_link (next_partial_store d v ds) = free_link ds"
  by (auto simp: free_link_def next_partial_store_def fun_eq_iff)

end
