(* ===== verification/TCache.thy ===== *)
theory TCache
  imports ByteMemory SizeClass
begin

text \<open>
  The thread local caches (\<^verbatim>\<open>TCache.hpp\<close>, \<^verbatim>\<open>TCache.cpp\<close>): for each size class a list of free
  blocks, linked through the blocks themselves and counted. The operations work on the
  bin and on the memory; \<open>cache_list\<close> relates them to the list they stand for.
\<close>

section \<open>The operations\<close>

record TCacheBin =
  tc_block :: addr
  tc_num :: nat

definition TCacheBin_new :: TCacheBin where
  "TCacheBin_new = \<lparr>tc_block = 0, tc_num = 0\<rparr>"

definition push_block :: "addr \<Rightarrow> TCacheBin \<times> memory \<Rightarrow> TCacheBin \<times> memory" where
  "push_block block = (\<lambda>(c, m).
    (\<lparr>tc_block = block, tc_num = (tc_num c + 1) mod 2 ^ 32\<rparr>, write_pptr block (tc_block c) m))"

definition push_list :: "addr \<Rightarrow> nat \<Rightarrow> TCacheBin \<Rightarrow> TCacheBin outcome" where
  "push_list block len c = check (tc_num c = 0) (Inr \<lparr>tc_block = block, tc_num = len\<rparr>)"

definition pop_block :: "memory \<Rightarrow> TCacheBin \<Rightarrow> (addr \<times> TCacheBin) outcome" where
  "pop_block m c = check (tc_num c > 0)
    (Inr (tc_block c, \<lparr>tc_block = read_pptr m (tc_block c), tc_num = tc_num c - 1\<rparr>))"

definition pop_list :: "addr \<Rightarrow> nat \<Rightarrow> TCacheBin \<Rightarrow> TCacheBin outcome" where
  "pop_list block len c = check (tc_num c \<ge> len)
    (Inr \<lparr>tc_block = block, tc_num = tc_num c - len\<rparr>)"

definition peek_block :: "TCacheBin \<Rightarrow> addr" where
  "peek_block c = tc_block c"

definition cache_block_count :: "TCacheBin \<Rightarrow> nat" where
  "cache_block_count c = tc_num c"

section \<open>What a bin stands for\<close>

definition cache_list :: "memory \<Rightarrow> TCacheBin \<Rightarrow> addr list \<Rightarrow> bool" where
  "cache_list m c xs \<longleftrightarrow> run (read_pptr m) (tc_block c) xs \<and> tc_num c = length xs"

lemma cache_list_new: "cache_list m TCacheBin_new []"
  by (simp add: cache_list_def TCacheBin_new_def)

lemma cache_list_Nil: "tc_num c = 0 \<Longrightarrow> cache_list m c []"
  by (simp add: cache_list_def)

lemma pop_block_list:
  assumes "cache_list m c (x # xs)"
  shows "\<exists>c'. pop_block m c = Inr (x, c') \<and> cache_list m c' xs"
  using assms by (auto simp: cache_list_def pop_block_def run_Cons)

lemma push_block_list:
  assumes "cache_list m c xs" and "user_addr b"
    and "\<And>x. x \<in> set xs \<Longrightarrow> user_addr x \<and> apart8 b x" and "length xs < 2 ^ 32 - 1"
  shows "cache_list (snd (push_block b (c, m))) (fst (push_block b (c, m))) (b # xs)"
proof (cases xs)
  case Nil
  then show ?thesis using assms(1) by (simp add: cache_list_def push_block_def)
next
  case (Cons x ys)
  then have "user_addr (tc_block c)" using assms(1,3) by (simp add: cache_list_def run_Cons)
  then show ?thesis
    using assms blk.run_push [of b "tc_block c" m xs] by (simp add: cache_list_def push_block_def)
qed

text \<open>The cached list does not notice writes to other cells.\<close>

lemma cache_list_cong:
  assumes "cache_list m c xs" and "\<And>x. x \<in> set xs \<Longrightarrow> read_pptr m' x = read_pptr m x"
  shows "cache_list m' c xs"
  using assms by (auto simp: cache_list_def intro: run_cong_set)

end
