(* ===== verification/BaseMeta.thy ===== *)
theory BaseMeta
  imports Descriptor TCache
begin

text \<open>
  The allocator proper (\<^verbatim>\<open>BaseMeta.hpp\<close>, \<^verbatim>\<open>BaseMeta.cpp\<close>): its state and every operation on it, up
  to \<^verbatim>\<open>do_malloc\<close> and \<^verbatim>\<open>do_free\<close>. An operation is run by one thread \<open>t\<close> to its end; the body of a
  compare and exchange loop is its one iteration, with the outcome \<open>Retry\<close> should the
  exchange fail. Flush and fence instructions have no effect on the state.
\<close>

section \<open>State\<close>

text \<open>
  \<open>sb_start\<close> and \<open>desc_start\<close> are \<^verbatim>\<open>regions_address\<close> of the superblock and of the descriptor region;
  \<open>descs\<close> holds the descriptors by their addresses; \<open>t_cache\<close> holds the caches of each thread.
\<close>

record ralloc =
  sb_region :: RegionManager
  sb_start :: addr
  desc_start :: addr
  mem :: memory
  descs :: desc_map
  avail_sb :: u64
  heaps :: "nat \<Rightarrow> ProcHeap"
  roots :: "nat \<Rightarrow> u64"
  t_cache :: "nat \<Rightarrow> nat \<Rightarrow> TCacheBin"

definition upd_desc :: "addr \<Rightarrow> (Descriptor \<Rightarrow> Descriptor) \<Rightarrow> ralloc \<Rightarrow> ralloc" where
  "upd_desc d f s = s\<lparr>descs := (descs s)(d := f (descs s d))\<rparr>"

definition construct_desc :: "addr \<Rightarrow> ralloc \<Rightarrow> ralloc" where
  "construct_desc d s = s\<lparr>descs := (descs s)(d := Descriptor_new)\<rparr>"

definition set_cache :: "nat \<Rightarrow> nat \<Rightarrow> TCacheBin \<Rightarrow> ralloc \<Rightarrow> ralloc" where
  "set_cache t sc c s = s\<lparr>t_cache := (t_cache s)(t := (t_cache s t)(sc := c))\<rparr>"

definition set_partial_list :: "nat \<Rightarrow> u64 \<Rightarrow> ralloc \<Rightarrow> ralloc" where
  "set_partial_list h w s = s\<lparr>heaps := (heaps s)(h := (heaps s h)\<lparr>partial_list := w\<rparr>)\<rparr>"

section \<open>Helpers\<close>

definition round_up :: "u64 \<Rightarrow> u64 \<Rightarrow> u64 outcome" where
  "round_up numToRound multiple =
    check (multiple \<noteq> 0 \<and> multiple AND (multiple - 1) = 0)
      (Inr ((numToRound + multiple - 1) AND NOT (multiple - 1)))"

definition desc_lookup :: "ralloc \<Rightarrow> addr \<Rightarrow> addr" where
  "desc_lookup s ptr =
    unat (of_nat (desc_start s) +
      of_nat DESCSIZE * (drop_bit SB_SHIFT (of_nat ptr) - drop_bit SB_SHIFT (of_nat (sb_start s))) :: u64)"

definition sb_lookup :: "ralloc \<Rightarrow> addr \<Rightarrow> addr" where
  "sb_lookup s desc =
    unat (of_nat (sb_start s) +
      push_bit SB_SHIFT (drop_bit DESC_SHIFT (of_nat desc) - drop_bit DESC_SHIFT (of_nat (desc_start s))) :: u64)"

definition get_sizeclass_heap :: "ProcHeap \<Rightarrow> SizeClassData" where
  "get_sizeclass_heap h = get_sizeclass_by_idx (sc_idx h)"

text \<open>The \<^verbatim>\<open>switch\<close> has a case for every class but class 0; the block size is a 32-bit number.\<close>

definition compute_idx :: "addr \<Rightarrow> addr \<Rightarrow> nat \<Rightarrow> nat outcome" where
  "compute_idx sblock block sc =
    (let sc_data = get_sizeclass_by_idx sc
     in check (block \<ge> sblock) (check (block < sblock + sb_size sc_data)
       (let diff = (block - sblock) mod 2 ^ 32
        in check (1 \<le> sc \<and> sc < MAX_SZ_IDX) (Inr (diff div block_size sc_data)))))"

section \<open>Lists of superblocks\<close>

text \<open>
  The loop that pushes a chain of descriptors, from \<open>first\<close> to \<open>last_d\<close>, to the free list.
\<close>

definition avail_push :: "addr \<Rightarrow> addr \<Rightarrow> ralloc \<Rightarrow> ralloc outcome" where
  "avail_push first last_d s =
    (let oldhead = acp_load (desc_start s) (avail_sb s);
         s1 = s\<lparr>descs := next_free_store last_d (get_ptr oldhead) (descs s)\<rparr>;
         newhead = ptr_cnt_set first (get_counter oldhead + 1);
         (ret, w, _) = acp_cas_weak False (desc_start s1) (avail_sb s1) oldhead newhead
     in if ret then Inr (s1\<lparr>avail_sb := w\<rparr>) else Inl Retry)"

text \<open>\<^verbatim>\<open>for (i = 1; i < count; i++)\<close>: link to the next descriptor and construct it.\<close>

fun organize_loop :: "nat \<Rightarrow> addr \<Rightarrow> ralloc \<Rightarrow> addr \<times> ralloc" where
  "organize_loop 0 desc s = (desc, s)"
| "organize_loop (Suc n) desc s =
    organize_loop n (desc + DESCSIZE)
      (construct_desc (desc + DESCSIZE)
        (s\<lparr>descs := next_free_store desc (desc + DESCSIZE) (descs s)\<rparr>))"

definition organize_sb_list :: "addr \<Rightarrow> nat \<Rightarrow> ralloc \<Rightarrow> ralloc outcome" where
  "organize_sb_list start n s =
    (let first = desc_lookup s start;
         (last_d, s1) = organize_loop (n - 1) first (construct_desc first s)
     in avail_push first last_d s1)"

definition small_sb_retire :: "addr \<Rightarrow> nat \<Rightarrow> ralloc \<Rightarrow> ralloc outcome" where
  "small_sb_retire sb sz s =
    check (sz = SBSIZE)
      (let desc = desc_lookup s sb in avail_push desc desc (construct_desc desc s))"

definition small_sb_alloc :: "nat \<Rightarrow> ralloc \<Rightarrow> (addr \<times> ralloc) outcome" where
  "small_sb_alloc sz s =
    check (sz = SBSIZE)
      (let oldhead = acp_load (desc_start s) (avail_sb s);
           oldptr = get_ptr oldhead
       in if oldptr \<noteq> 0 then
            (let newhead = ptr_cnt_set (next_free_load (descs s) oldptr) (get_counter oldhead);
                 (ret, w, _) = acp_cas_strong (desc_start s) (avail_sb s) oldhead newhead
             in if ret then Inr (sb_lookup s oldptr, s\<lparr>avail_sb := w\<rparr>) else Inl Retry)
          else
            (let r = sb_region s;
                 old_curr_addr = curr_addr r;
                 aln_adj = unat (of_nat old_curr_addr AND (of_nat PAGESIZE - 1) :: u64);
                 res = (if aln_adj \<noteq> 0 then (old_curr_addr + (PAGESIZE - aln_adj)) mod 2 ^ 64 else old_curr_addr);
                 nxt = (res + SB_REGION_EXPAND_SIZE) mod 2 ^ 64
             in if nxt > base_addr r + FILESIZE r then Inl OutOfSpace
                else
                  (let (ret, off, _) = atomic_pptr_cas_strong (base_addr r) (hdr_curr (hdr r)) old_curr_addr nxt
                   in if \<not> ret then Inl Retry
                      else
                        and_then (organize_sb_list ((res + SBSIZE) mod 2 ^ 64)
                            (SB_REGION_EXPAND_SIZE div SBSIZE - 1) (s\<lparr>sb_region := set_curr off r\<rparr>))
                          (\<lambda>s1. Inr (res, construct_desc (desc_lookup s1 res) s1)))))"

section \<open>The partial list of a heap\<close>

definition heap_push_partial :: "addr \<Rightarrow> ralloc \<Rightarrow> ralloc outcome" where
  "heap_push_partial desc s =
    (case heap (descs s desc) of None \<Rightarrow> Inl NullDeref
     | Some h \<Rightarrow>
        (let oldhead = acp_load (desc_start s) (partial_list (heaps s h));
             newhead = ptr_cnt_set desc (get_counter oldhead + 1)
         in check (get_ptr oldhead \<noteq> get_ptr newhead)
           (let s1 = s\<lparr>descs := next_partial_store (get_ptr newhead) (get_ptr oldhead) (descs s)\<rparr>;
                (ret, w, _) = acp_cas_weak False (desc_start s1) (partial_list (heaps s1 h)) oldhead newhead
            in if ret then Inr (set_partial_list h w s1) else Inl Retry)))"

definition heap_pop_partial :: "nat \<Rightarrow> ralloc \<Rightarrow> (addr \<times> ralloc) outcome" where
  "heap_pop_partial h s =
    (let oldhead = acp_load (desc_start s) (partial_list (heaps s h));
         olddesc = get_ptr oldhead
     in if olddesc = 0 then Inr (0, s)
        else
          (let newhead = ptr_cnt_set (next_partial_load (descs s) olddesc) (get_counter oldhead);
               (ret, w, oldhead') = acp_cas_weak False (desc_start s) (partial_list (heaps s h)) oldhead newhead
           in if ret then Inr (get_ptr oldhead', set_partial_list h w s) else Inl Retry))"

section \<open>Filling a cache\<close>

text \<open>
  \<^verbatim>\<open>goto retry\<close> is the recursive call; the number of superblocks bounds how often it is taken.
  The result is the number of blocks taken.
\<close>

fun malloc_from_partial_fuel :: "nat \<Rightarrow> nat \<Rightarrow> nat \<Rightarrow> ralloc \<Rightarrow> (nat \<times> ralloc) outcome" where
  "malloc_from_partial_fuel 0 t sc s = Inl OutOfFuel"
| "malloc_from_partial_fuel (Suc fuel) t sc s =
    and_then (heap_pop_partial sc s) (\<lambda>(desc, s1).
      if desc = 0 then Inr (0, s1)
      else
        (let d = descs s1 desc;
             oldanchor = anchor d;
             maxcnt = maxcount d;
             bs = desc_block_size d;
             sblock = CrossPtr_cast (sb_start s1) (superblock d)
         in if state oldanchor = SB_EMPTY then
              and_then (small_sb_retire sblock (sb_size (get_sizeclass_heap (heaps s1 sc))) s1)
                (malloc_from_partial_fuel fuel t sc)
            else
              check (state oldanchor = SB_PARTIAL)
                (let newanchor = set_state SB_FULL (set_avail maxcnt (set_count 0 oldanchor));
                     s2 = upd_desc desc (\<lambda>d. d\<lparr>anchor := newanchor\<rparr>) s1;
                     block_take = count oldanchor;
                     block = sblock + (avail oldanchor * bs) mod 2 ^ 32
                 in check (avail oldanchor < maxcnt)
                   (check (tc_num (t_cache s2 t sc) = 0)
                     (and_then (push_list block block_take (t_cache s2 t sc))
                       (\<lambda>c. Inr (block_take, set_cache t sc c s2)))))))"

definition malloc_from_partial :: "nat \<Rightarrow> nat \<Rightarrow> ralloc \<Rightarrow> (nat \<times> ralloc) outcome" where
  "malloc_from_partial t sc s = malloc_from_partial_fuel (Suc MAX_SB_AMOUNT) t sc s"

text \<open>\<^verbatim>\<open>for (idx = 0; idx < maxcount - 1; ++idx)\<close>: link the blocks of a superblock.\<close>

definition link_blocks :: "addr \<Rightarrow> nat \<Rightarrow> nat \<Rightarrow> memory \<Rightarrow> memory" where
  "link_blocks sblock bs n m =
    fold (\<lambda>idx m. write_pptr (sblock + (idx * bs) mod 2 ^ 32) (sblock + ((idx + 1) * bs) mod 2 ^ 32) m) [0..<n] m"

definition malloc_from_newsb :: "nat \<Rightarrow> nat \<Rightarrow> ralloc \<Rightarrow> (nat \<times> ralloc) outcome" where
  "malloc_from_newsb t sc s =
    (let sc_data = get_sizeclass_by_idx sc;
         bs = block_size sc_data;
         maxcnt = get_block_num sc_data
     in and_then (small_sb_alloc (sb_size sc_data) s) (\<lambda>(sblock, s1).
       check (sblock \<noteq> 0)
         (let desc = desc_lookup s1 sblock;
              s2 = upd_desc desc (\<lambda>d. d\<lparr>heap := Some sc, desc_block_size := bs, maxcount := maxcnt,
                     superblock := CrossPtr_assign (sb_start s1) sblock\<rparr>) s1;
              s3 = s2\<lparr>mem := link_blocks sblock bs (maxcnt - 1) (mem s2)\<rparr>
          in and_then (push_list sblock maxcnt (t_cache s3 t sc)) (\<lambda>c.
            let a = set_state SB_FULL (set_count 0 (set_avail maxcnt (Anchor_of_word 0)));
                s4 = upd_desc desc (\<lambda>d. d\<lparr>anchor := a\<rparr>) (set_cache t sc c s3)
            in check (avail a < maxcnt \<or> state a = SB_FULL)
              (check (count a < maxcnt)
                (check (state a = SB_FULL) (Inr (maxcnt, s4))))))))"

definition fill_cache :: "nat \<Rightarrow> nat \<Rightarrow> ralloc \<Rightarrow> ralloc outcome" where
  "fill_cache t sc s =
    and_then (malloc_from_partial t sc s) (\<lambda>(n, s1).
      and_then (if n = 0 then malloc_from_newsb t sc s1 else Inr (n, s1)) (\<lambda>(block_num, s2).
        check (block_num > 0) (check (block_num \<le> cache_block_num (get_sizeclass_by_idx sc)) (Inr s2))))"

section \<open>Flushing a cache\<close>

text \<open>
  The inner loop: how far the cached list stays inside one superblock. The result is the
  last block of that stretch and its length.
\<close>

function same_sb_run :: "memory \<Rightarrow> addr \<Rightarrow> nat \<Rightarrow> nat \<Rightarrow> addr \<Rightarrow> nat \<Rightarrow> addr \<times> nat" where
  "same_sb_run m sblock sbsz num tl_b block_count =
    (if num > block_count then
       (let ptr = read_pptr m tl_b
        in if ptr < sblock \<or> ptr \<ge> sblock + sbsz then (tl_b, block_count)
           else same_sb_run m sblock sbsz num ptr (block_count + 1))
     else (tl_b, block_count))"
  by pat_completeness auto
termination
  by (relation "measure (\<lambda>(m, sblock, sbsz, num, tl_b, bc). num - bc)") auto

declare same_sb_run.simps [simp del]

text \<open>The new anchor of a superblock that gets \<open>block_count\<close> blocks back, the first at index \<open>idx\<close>.\<close>

definition flush_anchor :: "nat \<Rightarrow> nat \<Rightarrow> nat \<Rightarrow> Anchor \<Rightarrow> Anchor" where
  "flush_anchor idx block_count maxcnt oldanchor =
    (let a1 = set_avail idx oldanchor;
         a2 = (if state oldanchor = SB_FULL then set_state SB_PARTIAL a1 else a1)
     in if (count oldanchor + block_count) mod 2 ^ 32 = maxcnt
        then set_state SB_EMPTY (set_count (maxcnt - 1) a2)
        else set_count (count a2 + block_count) a2)"

text \<open>One round of the outer loop.\<close>

definition flush_one :: "nat \<Rightarrow> nat \<Rightarrow> ralloc \<Rightarrow> ralloc outcome" where
  "flush_one t sc s =
    (let sc_data = get_sizeclass_by_idx sc;
         sbsz = sb_size sc_data;
         bs = block_size sc_data;
         maxcnt = get_block_num sc_data;
         cache = t_cache s t sc;
         head = peek_block cache;
         desc = desc_lookup s head;
         sblock = CrossPtr_cast (sb_start s) (superblock (descs s desc));
         (tl_b, block_count) = same_sb_run (mem s) sblock sbsz (tc_num cache) head 1
     in and_then (pop_list (read_pptr (mem s) tl_b) block_count cache) (\<lambda>cache'.
       and_then (compute_idx sblock head sc) (\<lambda>idx.
         let s1 = set_cache t sc cache' s;
             d = descs s1 desc;
             oldanchor = anchor d;
             nxt = sblock + (avail oldanchor * bs) mod 2 ^ 32;
             s2 = s1\<lparr>mem := write_pptr tl_b nxt (mem s1)\<rparr>;
             newanchor = flush_anchor idx block_count (maxcount d) oldanchor
         in check (count oldanchor < maxcount d)
           (let s3 = upd_desc desc (\<lambda>d. d\<lparr>anchor := newanchor\<rparr>) s2
            in check (avail oldanchor < maxcnt \<or> state oldanchor = SB_FULL)
              (check (avail newanchor < maxcnt)
                (check (count newanchor < maxcnt)
                  (if state oldanchor = SB_FULL then
                     (if state newanchor = SB_EMPTY then small_sb_retire sblock SBSIZE s3
                      else heap_push_partial desc s3)
                   else Inr s3)))))))"

section \<open>Frames needed for the termination of the outer loop\<close>

lemma same_sb_run_ge: "block_count \<le> snd (same_sb_run m sblock sbsz num tl_b block_count)"
proof (induction m sblock sbsz num tl_b block_count rule: same_sb_run.induct)
  case (1 m sblock sbsz num tl_b block_count)
  then show ?case
    by (subst same_sb_run.simps) (auto simp: Let_def)
qed

lemma avail_push_cache: "avail_push a b s = Inr s' \<Longrightarrow> t_cache s' = t_cache s"
  by (auto simp: avail_push_def Let_def split: prod.splits if_splits)

lemma small_sb_retire_cache: "small_sb_retire sb sz s = Inr s' \<Longrightarrow> t_cache s' = t_cache s"
  by (auto simp: small_sb_retire_def check_Inr Let_def construct_desc_def dest: avail_push_cache)

lemma heap_push_partial_cache: "heap_push_partial d s = Inr s' \<Longrightarrow> t_cache s' = t_cache s"
  by (auto simp: heap_push_partial_def check_Inr Let_def set_partial_list_def
      split: option.splits prod.splits if_splits)

lemma flush_one_decreases:
  assumes "flush_one t sc s = Inr s'" and "0 < tc_num (t_cache s t sc)"
  shows "tc_num (t_cache s' t sc) < tc_num (t_cache s t sc)"
proof -
  let ?run = "same_sb_run (mem s)
    (CrossPtr_cast (sb_start s) (superblock (descs s (desc_lookup s (peek_block (t_cache s t sc))))))
    (sb_size (get_sizeclass_by_idx sc)) (tc_num (t_cache s t sc)) (peek_block (t_cache s t sc)) 1"
  have bc: "1 \<le> snd ?run"
    by (rule same_sb_run_ge)
  have "t_cache s' t sc = \<lparr>tc_block = read_pptr (mem s) (fst ?run), tc_num = tc_num (t_cache s t sc) - snd ?run\<rparr>"
    using assms(1)
    by (auto simp: flush_one_def pop_list_def outcome_simps Let_def set_cache_def upd_desc_def split_beta
        split: if_splits dest!: small_sb_retire_cache heap_push_partial_cache)
  then show ?thesis
    using bc assms(2) by simp
qed

function flush_cache :: "nat \<Rightarrow> nat \<Rightarrow> ralloc \<Rightarrow> ralloc outcome" where
  "flush_cache t sc s =
    (if tc_num (t_cache s t sc) > 0
     then (case flush_one t sc s of Inl e \<Rightarrow> Inl e | Inr s' \<Rightarrow> flush_cache t sc s')
     else Inr s)"
  by pat_completeness auto
termination
  by (relation "measure (\<lambda>(t, sc, s). tc_num (t_cache s t sc))") (auto dest: flush_one_decreases)

declare flush_cache.simps [simp del]

section \<open>Large blocks\<close>

definition expand_get_large_sb :: "nat \<Rightarrow> ralloc \<Rightarrow> (addr \<times> ralloc) outcome" where
  "expand_get_large_sb sz s =
    (let (code, ret, r) = nvm_region_allocator PAGESIZE sz (sb_region s)
     in if code = 0 then Inl Retry
        else if code = -1 then Inl OutOfSpace
        else
          (let p = (case ret of Some a \<Rightarrow> a | None \<Rightarrow> 0);
               s1 = s\<lparr>sb_region := r\<rparr>
           in Inr (p, construct_desc (desc_lookup s1 p) s1)))"

definition large_sb_alloc :: "nat \<Rightarrow> ralloc \<Rightarrow> (addr \<times> ralloc) outcome" where
  "large_sb_alloc sz s = expand_get_large_sb sz s"

definition large_sb_retire :: "addr \<Rightarrow> nat \<Rightarrow> ralloc \<Rightarrow> ralloc outcome" where
  "large_sb_retire sb sz s = check (sz mod SBSIZE = 0) (organize_sb_list sb (sz div SBSIZE) s)"

definition alloc_large_block :: "nat \<Rightarrow> ralloc \<Rightarrow> (addr \<times> ralloc) outcome" where
  "alloc_large_block sz s = large_sb_alloc sz s"

section \<open>Allocation and deallocation\<close>

definition malloc_large :: "nat \<Rightarrow> ralloc \<Rightarrow> (addr \<times> ralloc) outcome" where
  "malloc_large sz s =
    and_then (round_up (of_nat sz) (of_nat SBSIZE)) (\<lambda>sbs.
      and_then (alloc_large_block (unat sbs) s) (\<lambda>(ptr, s1).
        check (ptr \<noteq> 0)
          (let desc = desc_lookup s1 ptr
           in Inr (ptr, upd_desc desc (\<lambda>d. d\<lparr>heap := Some 0, desc_block_size := unat sbs mod 2 ^ 32,
                maxcount := 1, superblock := CrossPtr_assign (sb_start s1) ptr,
                anchor := set_state SB_FULL (set_count 0 (set_avail 0 (Anchor_of_word 0)))\<rparr>) s1))))"

definition do_malloc :: "nat \<Rightarrow> nat \<Rightarrow> ralloc \<Rightarrow> (addr \<times> ralloc) outcome" where
  "do_malloc t sz s =
    (if sz > MAX_SZ then malloc_large sz s
     else
       (let sc = get_sizeclass sz
        in and_then (if tc_num (t_cache s t sc) = 0 then fill_cache t sc s else Inr s) (\<lambda>s1.
          and_then (pop_block (mem s1) (t_cache s1 t sc)) (\<lambda>(b, c).
            Inr (b, set_cache t sc c s1)))))"

text \<open>
  The descriptor of a superblock without blocks holds the null \<^verbatim>\<open>CrossPtr\<close>. Its arrow operator does not test for null and leads to the
  start of the metadata, where the code would read what is no heap: freeing such an address is an invalid call.
\<close>

definition do_free :: "nat \<Rightarrow> addr \<Rightarrow> ralloc \<Rightarrow> ralloc outcome" where
  "do_free t ptr s =
    (if ptr = 0 then Inr s
     else check (in_range (sb_start s) (sb_region s) ptr)
       (let desc = desc_lookup s ptr
        in case heap (descs s desc) of None \<Rightarrow> Inl BadCall
           | Some h \<Rightarrow>
              (let sc = sc_idx (heaps s h)
               in if sc = 0 then
                    large_sb_retire (CrossPtr_cast (sb_start s) (superblock (descs s desc)))
                      (desc_block_size (descs s desc)) s
                  else
                    and_then (if tc_num (t_cache s t sc) \<ge> cache_block_num (get_sizeclass_by_idx sc)
                              then flush_cache t sc s else Inr s) (\<lambda>s1.
                      let (c, m) = push_block ptr (t_cache s1 t sc, mem s1)
                      in Inr (set_cache t sc c (s1\<lparr>mem := m\<rparr>))))))"

definition public_flush_cache :: "bool \<Rightarrow> nat \<Rightarrow> ralloc \<Rightarrow> ralloc outcome" where
  "public_flush_cache initialized t s =
    (if initialized then fold (\<lambda>i r. and_then r (flush_cache t i)) [1..<MAX_SZ_IDX] (Inr s) else Inr s)"

section \<open>Cache statistics and roots\<close>

definition cache_count :: "nat \<Rightarrow> TCacheBin \<Rightarrow> nat" where
  "cache_count sc c = cache_block_count c"

definition cache_size :: "nat \<Rightarrow> TCacheBin \<Rightarrow> nat" where
  "cache_size sc c = (cache_block_count c * block_size (get_sizeclass_by_idx sc)) mod 2 ^ 32"

definition set_root :: "addr \<Rightarrow> nat \<Rightarrow> ralloc \<Rightarrow> (addr \<times> ralloc) outcome" where
  "set_root ptr i s =
    check (i < MAX_ROOTS)
      (Inr (if \<not> CrossPtr_is_null (roots s i) then CrossPtr_cast (sb_start s) (roots s i) else 0,
            s\<lparr>roots := (roots s)(i := CrossPtr_assign (sb_start s) ptr)\<rparr>))"

definition get_root :: "nat \<Rightarrow> ralloc \<Rightarrow> addr outcome" where
  "get_root i s = check (i < MAX_ROOTS) (Inr (CrossPtr_cast (sb_start s) (roots s i)))"

section \<open>The constructor\<close>

text \<open>
  The caller passes the state with its three regions mapped, the memory still zero. The
  first superblock is skipped, so that no \<^verbatim>\<open>CrossPtr\<close> into the region has offset zero.
\<close>

definition BaseMeta_new :: "ralloc \<Rightarrow> ralloc outcome" where
  "BaseMeta_new s =
    (let s1 = s\<lparr>avail_sb := AtomicCrossPtrCnt_new (desc_start s) 0 0,
                heaps := (\<lambda>idx. \<lparr>partial_list = acp_store (desc_start s) (ptr_cnt_set 0 0), sc_idx = idx\<rparr>),
                roots := (\<lambda>_. CrossPtr_assign_nullptr)\<rparr>;
         (code, ret, r) = nvm_region_allocator SBSIZE SB_REGION_EXPAND_SIZE (sb_region s1)
     in if code = 0 then Inl Retry
        else if code = -1 then Inl AssertFailed
        else
          (let tmp_sec_start = (case ret of Some a \<Rightarrow> a | None \<Rightarrow> 0);
               s2 = s1\<lparr>sb_region := store_heap_start tmp_sec_start r, sb_start := tmp_sec_start\<rparr>
           in organize_sb_list ((tmp_sec_start + SBSIZE) mod 2 ^ 64) (SB_REGION_EXPAND_SIZE div SBSIZE - 1) s2))"

end
