(* ===== verification/HeapInv.thy ===== *)
theory HeapInv
  imports BaseMeta
begin

text \<open>
  What a sound heap is. Superblock \<open>i\<close> of the region has its descriptor at \<open>dsc s i\<close> and its bytes
  from \<open>sbk s i\<close> on; superblock 0 is never used. A ghost state says what every superblock is used for
  and who owns every block, and lists what the linked structures of the state hold; \<open>heap_inv\<close> says
  that the state agrees with it.
\<close>

section \<open>Ghost state\<close>

text \<open>
  \<open>Held\<close> is a superblock that no list holds and no block is cut from: the running operation owns
  it. \<open>Large m\<close> is the first of \<open>m\<close> superblocks of a large block and \<open>Tail\<close> one of the others.
\<close>

datatype sbkind = Free | Small nat | Large nat | Tail | Held

datatype owner = NoBlock | InSb | InCache nat nat | User

record ghost =
  nsb :: nat
  kind :: "nat \<Rightarrow> sbkind"
  own :: "addr \<Rightarrow> owner"
  free :: "nat list"
  part :: "nat \<Rightarrow> nat list"
  fl :: "nat \<Rightarrow> addr list"
  cached :: "nat \<Rightarrow> nat \<Rightarrow> addr list"

definition dsc :: "ralloc \<Rightarrow> nat \<Rightarrow> addr" where
  "dsc s i = desc_start s + i * DESCSIZE"

definition sbk :: "ralloc \<Rightarrow> nat \<Rightarrow> addr" where
  "sbk s i = sb_start s + i * SBSIZE"

definition blocks :: "ralloc \<Rightarrow> nat \<Rightarrow> nat \<Rightarrow> addr set" where
  "blocks s sc i = (\<lambda>k. sbk s i + k * bsize sc) ` {..<nblocks sc}"

definition desc_of :: "ralloc \<Rightarrow> nat \<Rightarrow> Descriptor" where
  "desc_of s i = descs s (dsc s i)"

definition sc_ok :: "nat \<Rightarrow> bool" where
  "sc_ok sc \<longleftrightarrow> 1 \<le> sc \<and> sc < MAX_SZ_IDX"

definition used :: "ghost \<Rightarrow> nat \<Rightarrow> bool" where
  "used g i \<longleftrightarrow> 1 \<le> i \<and> i < nsb g"

definition small_blk :: "ralloc \<Rightarrow> ghost \<Rightarrow> addr \<Rightarrow> nat \<Rightarrow> nat \<Rightarrow> bool" where
  "small_blk s g b i sc \<longleftrightarrow> used g i \<and> kind g i = Small sc \<and> b \<in> blocks s sc i"

definition large_blk :: "ralloc \<Rightarrow> ghost \<Rightarrow> addr \<Rightarrow> nat \<Rightarrow> nat \<Rightarrow> bool" where
  "large_blk s g b i m \<longleftrightarrow> used g i \<and> kind g i = Large m \<and> b = sbk s i"

definition users :: "ghost \<Rightarrow> addr set" where
  "users g = {b. own g b = User}"

section \<open>The invariant\<close>

text \<open>The regions: where they start, how far they reach, and that no address is too large.\<close>

definition geom :: "ralloc \<Rightarrow> nat \<Rightarrow> bool" where
  "geom s n \<longleftrightarrow> region_at (sb_region s) (sb_start s + n * SBSIZE) \<and>
    base_addr (sb_region s) + FILESIZE (sb_region s) < sb_start s + (MAX_SB_AMOUNT + 1) * SBSIZE \<and>
    base_addr (sb_region s) < sb_start s \<and> SBSIZE dvd sb_start s \<and> DESCSIZE dvd desc_start s \<and>
    acp_start (desc_start s) \<and> 0 < desc_start s"

definition free_ok :: "ralloc \<Rightarrow> ghost \<Rightarrow> bool" where
  "free_ok s g \<longleftrightarrow>
    chain (free_link (descs s)) (pc_ptr (acp_load (desc_start s) (avail_sb s)))
      (map (dsc s) (free g)) 0 \<and>
    distinct (free g) \<and> set (free g) = {i. used g i \<and> kind g i = Free}"

definition nonfull :: "ralloc \<Rightarrow> ghost \<Rightarrow> nat \<Rightarrow> nat \<Rightarrow> bool" where
  "nonfull s g sc i \<longleftrightarrow> used g i \<and> kind g i = Small sc \<and> state (anchor (desc_of s i)) \<noteq> SB_FULL"

definition part_list_ok :: "ralloc \<Rightarrow> ghost \<Rightarrow> nat \<Rightarrow> bool" where
  "part_list_ok s g sc \<longleftrightarrow>
    chain (partial_link (descs s)) (pc_ptr (acp_load (desc_start s) (partial_list (heaps s sc))))
      (map (dsc s) (part g sc)) 0 \<and>
    distinct (part g sc) \<and> set (part g sc) = {i. nonfull s g sc i}"

definition part_ok :: "ralloc \<Rightarrow> ghost \<Rightarrow> bool" where
  "part_ok s g \<longleftrightarrow> (\<forall>sc. sc < MAX_SZ_IDX \<longrightarrow> sc_idx (heaps s sc) = sc) \<and>
    (\<forall>sc. sc_ok sc \<longrightarrow> part_list_ok s g sc)"

text \<open>A superblock \<open>b\<close> cut into blocks, its descriptor \<open>d\<close>, and the blocks \<open>xs\<close> of its free list.\<close>

definition small_at :: "memory \<Rightarrow> addr \<Rightarrow> addr \<Rightarrow> nat \<Rightarrow> Descriptor \<Rightarrow> addr list \<Rightarrow> bool" where
  "small_at m start b sc d xs \<longleftrightarrow>
    heap d = Some sc \<and> desc_block_size d = bsize sc \<and> maxcount d = nblocks sc \<and>
    CrossPtr_cast start (superblock d) = b \<and>
    (case state (anchor d) of
       SB_ERROR \<Rightarrow> False
     | SB_FULL \<Rightarrow> count (anchor d) = 0 \<and> xs = []
     | SB_PARTIAL \<Rightarrow> 0 < count (anchor d) \<and> count (anchor d) < nblocks sc \<and>
         length xs = count (anchor d) \<and> avail (anchor d) < nblocks sc \<and>
         run (read_pptr m) (b + avail (anchor d) * bsize sc) xs
     | SB_EMPTY \<Rightarrow> count (anchor d) = nblocks sc - 1 \<and>
         length xs = nblocks sc \<and> avail (anchor d) < nblocks sc \<and>
         run (read_pptr m) (b + avail (anchor d) * bsize sc) xs)"

definition small_sb :: "ralloc \<Rightarrow> ghost \<Rightarrow> nat \<Rightarrow> nat \<Rightarrow> bool" where
  "small_sb s g i sc \<longleftrightarrow>
    sc_ok sc \<and> small_at (mem s) (sb_start s) (sbk s i) sc (desc_of s i) (fl g i) \<and>
    distinct (fl g i) \<and> set (fl g i) = {b \<in> blocks s sc i. own g b = InSb}"

definition small_ok :: "ralloc \<Rightarrow> ghost \<Rightarrow> bool" where
  "small_ok s g \<longleftrightarrow> (\<forall>i sc. used g i \<longrightarrow> kind g i = Small sc \<longrightarrow> small_sb s g i sc)"

definition large_at :: "addr \<Rightarrow> addr \<Rightarrow> nat \<Rightarrow> Descriptor \<Rightarrow> bool" where
  "large_at start b m d \<longleftrightarrow>
    heap d = Some 0 \<and> desc_block_size d = m * SBSIZE \<and> CrossPtr_cast start (superblock d) = b"

definition large_ok :: "ralloc \<Rightarrow> ghost \<Rightarrow> bool" where
  "large_ok s g \<longleftrightarrow>
    (\<forall>i m. used g i \<longrightarrow> kind g i = Large m \<longrightarrow> 0 < m \<and> m * SBSIZE < 2 ^ 32 \<and> i + m \<le> nsb g \<and>
      large_at (sb_start s) (sbk s i) m (desc_of s i) \<and> (\<forall>j. i < j \<and> j < i + m \<longrightarrow> kind g j = Tail)) \<and>
    (\<forall>j. used g j \<longrightarrow> kind g j = Tail \<longrightarrow> (\<exists>i m. used g i \<and> kind g i = Large m \<and> i < j \<and> j < i + m))"

definition own_at :: "ralloc \<Rightarrow> ghost \<Rightarrow> addr \<Rightarrow> bool" where
  "own_at s g b \<longleftrightarrow>
    (case own g b of NoBlock \<Rightarrow> True
     | InSb \<Rightarrow> \<exists>i sc. small_blk s g b i sc
     | InCache t sc \<Rightarrow> sc_ok sc \<and> (\<exists>i. small_blk s g b i sc)
     | User \<Rightarrow> (\<exists>i sc. small_blk s g b i sc) \<or> (\<exists>i m. large_blk s g b i m)) \<and>
    (\<forall>i sc. small_blk s g b i sc \<longrightarrow> own g b \<noteq> NoBlock) \<and>
    (\<forall>i m. large_blk s g b i m \<longrightarrow> own g b = User)"

definition own_ok :: "ralloc \<Rightarrow> ghost \<Rightarrow> bool" where
  "own_ok s g \<longleftrightarrow> (\<forall>b. own_at s g b)"

definition cache_at :: "ralloc \<Rightarrow> ghost \<Rightarrow> nat \<Rightarrow> nat \<Rightarrow> bool" where
  "cache_at s g t sc \<longleftrightarrow>
    cache_list (mem s) (t_cache s t sc) (cached g t sc) \<and> distinct (cached g t sc) \<and>
    set (cached g t sc) = {b. own g b = InCache t sc} \<and> length (cached g t sc) \<le> nblocks sc"

definition cache_ok :: "ralloc \<Rightarrow> ghost \<Rightarrow> bool" where
  "cache_ok s g \<longleftrightarrow> (\<forall>t sc. sc_ok sc \<longrightarrow> cache_at s g t sc)"

text \<open>
  What recovery relies on: only the descriptor of a superblock that holds blocks names a heap, and the
  descriptor of a large block counts one block.
\<close>

definition clean_ok :: "ralloc \<Rightarrow> ghost \<Rightarrow> bool" where
  "clean_ok s g \<longleftrightarrow>
    (\<forall>i. 1 \<le> i \<longrightarrow> (used g i \<longrightarrow> kind g i = Free \<or> kind g i = Tail) \<longrightarrow> heap (desc_of s i) = None) \<and>
    (\<forall>i m. used g i \<longrightarrow> kind g i = Large m \<longrightarrow> maxcount (desc_of s i) = 1)"

definition heap_inv :: "ralloc \<Rightarrow> ghost \<Rightarrow> bool" where
  "heap_inv s g \<longleftrightarrow> geom s (nsb g) \<and> free_ok s g \<and> part_ok s g \<and> small_ok s g \<and> large_ok s g \<and>
    own_ok s g \<and> cache_ok s g \<and> clean_ok s g"

text \<open>No superblock is held: the invariant between two operations.\<close>

definition quiet :: "ghost \<Rightarrow> bool" where
  "quiet g \<longleftrightarrow> (\<forall>i. used g i \<longrightarrow> kind g i \<noteq> Held)"

lemma heap_invI:
  "geom s (nsb g) \<Longrightarrow> free_ok s g \<Longrightarrow> part_ok s g \<Longrightarrow> small_ok s g \<Longrightarrow> large_ok s g \<Longrightarrow>
    own_ok s g \<Longrightarrow> cache_ok s g \<Longrightarrow> clean_ok s g \<Longrightarrow> heap_inv s g"
  by (simp add: heap_inv_def)

lemma heap_invD:
  assumes "heap_inv s g"
  shows "geom s (nsb g)" "free_ok s g" "part_ok s g" "small_ok s g" "large_ok s g" "own_ok s g" "cache_ok s g"
    "clean_ok s g"
  using assms by (simp_all add: heap_inv_def)

section \<open>Addresses\<close>

lemma dsc_inj [simp]: "dsc s i = dsc s j \<longleftrightarrow> i = j"
  by (simp add: dsc_def pm_consts)

lemma sbk_inj [simp]: "sbk s i = sbk s j \<longleftrightarrow> i = j"
  by (simp add: sbk_def pm_consts)

lemma addr_upd [simp]:
  "dsc (s\<lparr>descs := D\<rparr>) = dsc s"
  "dsc (s\<lparr>avail_sb := w\<rparr>) = dsc s"
  "dsc (s\<lparr>mem := m\<rparr>) = dsc s"
  "dsc (s\<lparr>t_cache := c\<rparr>) = dsc s"
  "dsc (s\<lparr>heaps := h\<rparr>) = dsc s"
  "dsc (s\<lparr>sb_region := r\<rparr>) = dsc s"
  "dsc (s\<lparr>roots := ro\<rparr>) = dsc s"
  "sbk (s\<lparr>descs := D\<rparr>) = sbk s"
  "sbk (s\<lparr>avail_sb := w\<rparr>) = sbk s"
  "sbk (s\<lparr>mem := m\<rparr>) = sbk s"
  "sbk (s\<lparr>t_cache := c\<rparr>) = sbk s"
  "sbk (s\<lparr>heaps := h\<rparr>) = sbk s"
  "sbk (s\<lparr>sb_region := r\<rparr>) = sbk s"
  "sbk (s\<lparr>roots := ro\<rparr>) = sbk s"
  "blocks (s\<lparr>descs := D\<rparr>) = blocks s"
  "blocks (s\<lparr>avail_sb := w\<rparr>) = blocks s"
  "blocks (s\<lparr>mem := m\<rparr>) = blocks s"
  "blocks (s\<lparr>t_cache := c\<rparr>) = blocks s"
  "blocks (s\<lparr>heaps := h\<rparr>) = blocks s"
  "blocks (s\<lparr>sb_region := r\<rparr>) = blocks s"
  "blocks (s\<lparr>roots := ro\<rparr>) = blocks s"
  by (simp_all add: dsc_def sbk_def blocks_def fun_eq_iff)

lemma desc_of_upd [simp]:
  "desc_of (s\<lparr>avail_sb := w\<rparr>) = desc_of s"
  "desc_of (s\<lparr>mem := m\<rparr>) = desc_of s"
  "desc_of (s\<lparr>t_cache := c\<rparr>) = desc_of s"
  "desc_of (s\<lparr>heaps := h\<rparr>) = desc_of s"
  "desc_of (s\<lparr>sb_region := r\<rparr>) = desc_of s"
  "desc_of (s\<lparr>roots := ro\<rparr>) = desc_of s"
  by (simp_all add: desc_of_def fun_eq_iff)

lemma desc_of_descs [simp]:
  "desc_of (s\<lparr>descs := (descs s)(dsc s i := d)\<rparr>) j = (if j = i then d else desc_of s j)"
  "desc_of (construct_desc (dsc s i) s) j = (if j = i then Descriptor_new else desc_of s j)"
  "desc_of (upd_desc (dsc s i) f s) j = (if j = i then f (desc_of s i) else desc_of s j)"
  by (simp_all add: desc_of_def construct_desc_def upd_desc_def)

lemma ops_upd [simp]:
  "dsc (construct_desc d s) = dsc s" "sbk (construct_desc d s) = sbk s" "blocks (construct_desc d s) = blocks s"
  "dsc (upd_desc d f s) = dsc s" "sbk (upd_desc d f s) = sbk s" "blocks (upd_desc d f s) = blocks s"
  "dsc (set_cache t sc c s) = dsc s" "sbk (set_cache t sc c s) = sbk s" "blocks (set_cache t sc c s) = blocks s"
  "dsc (set_partial_list h w s) = dsc s" "sbk (set_partial_list h w s) = sbk s"
  "blocks (set_partial_list h w s) = blocks s" "desc_of (set_cache t sc c s) = desc_of s"
  "desc_of (set_partial_list h w s) = desc_of s"
  by (simp_all add: construct_desc_def upd_desc_def set_cache_def set_partial_list_def)

lemma sbk_mono: "i < j \<Longrightarrow> sbk s i + SBSIZE \<le> sbk s j"
proof -
  assume "i < j"
  then have "(i + 1) * SBSIZE \<le> j * SBSIZE" by (intro mult_le_mono1) simp
  then show ?thesis by (simp add: sbk_def)
qed

lemma sbk_add: "sbk s (i + m) = sbk s i + m * SBSIZE"
  by (simp add: sbk_def algebra_simps)

lemma block_bounds:
  assumes "sc_ok sc" and "k < nblocks sc"
  shows "k * bsize sc + bsize sc \<le> SBSIZE"
proof -
  have "(k + 1) * bsize sc \<le> nblocks sc * bsize sc"
    using assms(2) by (intro mult_le_mono1) simp
  also have "\<dots> \<le> SBSIZE" using assms(1) nblocks_props by (simp add: sc_ok_def)
  finally show ?thesis by simp
qed

lemma blocks_in_sb:
  assumes "b \<in> blocks s sc i" and "sc_ok sc"
  shows "sbk s i \<le> b" and "b + bsize sc \<le> sbk s i + SBSIZE" and "b < sbk s i + SBSIZE"
proof -
  from assms(1) obtain k where k: "k < nblocks sc" "b = sbk s i + k * bsize sc"
    by (auto simp: blocks_def)
  then show "sbk s i \<le> b" and 1: "b + bsize sc \<le> sbk s i + SBSIZE"
    using block_bounds [OF assms(2) k(1)] by simp_all
  show "b < sbk s i + SBSIZE"
    using 1 bsize_props(1) [of sc] assms(2) by (simp add: sc_ok_def)
qed

text \<open>Address ranges inside different superblocks do not meet.\<close>

lemma same_sb:
  assumes "sbk s i \<le> x" "x < sbk s i + SBSIZE" "sbk s j \<le> x" "x < sbk s j + SBSIZE"
  shows "i = j"
  using sbk_mono [of i j s] sbk_mono [of j i s] assms by (cases i j rule: linorder_cases) auto

lemma geom_bounds:
  assumes "geom s n"
  shows "n \<le> MAX_SB_AMOUNT" and "user_addr (sb_start s + n * SBSIZE)"
    and "i \<le> n \<Longrightarrow> user_addr (sbk s i)" and "i < n \<Longrightarrow> user_addr (sbk s i + SBSIZE)"
    and "i < n \<Longrightarrow> desc_addr_ok (dsc s i)" and "1 \<le> i \<Longrightarrow> i < n \<Longrightarrow> acp_ptr (desc_start s) (dsc s i)"
    and "dsc s i \<noteq> 0" and "sbk s i \<noteq> 0" and "DESCSIZE dvd dsc s i" and "SBSIZE dvd sbk s i"
proof -
  note g = assms [unfolded geom_def region_at_def]
  have "n * SBSIZE < (MAX_SB_AMOUNT + 1) * SBSIZE" using g by linarith
  then show n: "n \<le> MAX_SB_AMOUNT" by (simp add: pm_consts)
  show u: "user_addr (sb_start s + n * SBSIZE)" using g by (auto simp: user_addr_def)
  show "i \<le> n \<Longrightarrow> user_addr (sbk s i)"
    using u mult_le_mono1 [of i n SBSIZE] unfolding user_addr_def sbk_def by linarith
  show "i < n \<Longrightarrow> user_addr (sbk s i + SBSIZE)"
    using u sbk_mono [of i n s] unfolding user_addr_def sbk_def by linarith
  have d: "desc_start s + 2 ^ 30 < 2 ^ 47" using g by (simp add: acp_start_def user_addr_def pm_consts)
  have i: "i * DESCSIZE + DESCSIZE \<le> 2 ^ 30" if "i < n"
    using n that by (simp add: pm_consts)
  show "i < n \<Longrightarrow> desc_addr_ok (dsc s i)"
    using d i by (simp add: desc_addr_ok_def user_addr_def dsc_def DESCSIZE_def CACHELINE_SIZE_def)
  show "1 \<le> i \<Longrightarrow> i < n \<Longrightarrow> acp_ptr (desc_start s) (dsc s i)"
    using d i by (simp add: acp_ptr_def user_addr_def dsc_def pm_consts)
  show "dsc s i \<noteq> 0" "sbk s i \<noteq> 0" "DESCSIZE dvd dsc s i" "SBSIZE dvd sbk s i"
    using g by (auto simp: dsc_def sbk_def)
qed

lemma dsc_not_one: "geom s n \<Longrightarrow> dsc s i \<noteq> 1"
  using geom_bounds(9) [of s n i] by (auto simp: pm_consts)

lemma chain_not_one: "geom s n \<Longrightarrow> chain f p (map (dsc s) xs) 0 \<Longrightarrow> p \<noteq> 1"
  using dsc_not_one by (cases xs) auto

section \<open>Frames\<close>

text \<open>
  A step of the heap that touches only the superblocks \<open>R\<close>: the others keep their use, descriptor
  and owners, and every free block whose owner stays the same keeps its link.
\<close>

definition sb_range :: "ralloc \<Rightarrow> nat \<Rightarrow> addr set" where
  "sb_range s i = {sbk s i..<sbk s i + SBSIZE}"

definition linked :: "owner \<Rightarrow> bool" where
  "linked ow \<longleftrightarrow> ow \<noteq> NoBlock \<and> ow \<noteq> User"

definition frame :: "nat set \<Rightarrow> ralloc \<Rightarrow> ghost \<Rightarrow> ralloc \<Rightarrow> ghost \<Rightarrow> bool" where
  "frame R s g s' g' \<longleftrightarrow> sb_start s' = sb_start s \<and> desc_start s' = desc_start s \<and>
    (\<forall>i. i \<notin> R \<longrightarrow> used g' i = used g i \<and> kind g' i = kind g i \<and> desc_of s' i = desc_of s i \<and>
      fl g' i = fl g i) \<and>
    (\<forall>b. b \<notin> \<Union> (sb_range s ` R) \<longrightarrow> own g' b = own g b) \<and>
    (\<forall>b. own g' b = own g b \<longrightarrow> linked (own g b) \<longrightarrow> read_pptr (mem s') b = read_pptr (mem s) b)"

lemma frameD:
  assumes "frame R s g s' g'"
  shows "sb_start s' = sb_start s" "desc_start s' = desc_start s" "dsc s' = dsc s" "sbk s' = sbk s"
    "blocks s' = blocks s" "sb_range s' = sb_range s"
    "i \<notin> R \<Longrightarrow> used g' i = used g i" "i \<notin> R \<Longrightarrow> kind g' i = kind g i"
    "i \<notin> R \<Longrightarrow> desc_of s' i = desc_of s i" "i \<notin> R \<Longrightarrow> fl g' i = fl g i"
    "b \<notin> \<Union> (sb_range s ` R) \<Longrightarrow> own g' b = own g b"
    "own g' b = own g b \<Longrightarrow> linked (own g b) \<Longrightarrow> read_pptr (mem s') b = read_pptr (mem s) b"
  using assms by (auto simp: frame_def dsc_def sbk_def blocks_def sb_range_def fun_eq_iff)

lemma sb_range_unique: "b \<in> sb_range s i \<Longrightarrow> b \<in> sb_range s j \<Longrightarrow> i = j"
  using same_sb [of s i b j] by (simp add: sb_range_def)

lemma blocks_range: "b \<in> blocks s sc i \<Longrightarrow> sc_ok sc \<Longrightarrow> b \<in> sb_range s i"
  using blocks_in_sb [of b s sc i] by (simp add: sb_range_def)

lemma sbk_range [simp]: "sbk s i \<in> sb_range s i"
  by (simp add: sb_range_def pm_consts)

lemma not_in_ranges: "b \<in> sb_range s i \<Longrightarrow> i \<notin> R \<Longrightarrow> b \<notin> \<Union> (sb_range s ` R)"
  using sb_range_unique by blast

lemma small_at_cong:
  assumes "\<And>b. b \<in> set xs \<Longrightarrow> read_pptr m' b = read_pptr m b"
  shows "small_at m' start b sc d xs \<longleftrightarrow> small_at m start b sc d xs"
proof -
  have "run (read_pptr m') p xs \<longleftrightarrow> run (read_pptr m) p xs" for p
    using assms by (metis run_cong_set)
  then show ?thesis
    unfolding small_at_def by (cases "state (anchor d)") simp_all
qed

lemma small_okD: "small_ok s g \<Longrightarrow> used g i \<Longrightarrow> kind g i = Small sc \<Longrightarrow> small_sb s g i sc"
  by (simp add: small_ok_def)

lemma small_ok_sc: "small_ok s g \<Longrightarrow> used g i \<Longrightarrow> kind g i = Small sc \<Longrightarrow> sc_ok sc"
  by (simp add: small_ok_def small_sb_def)

lemma small_ok_frame:
  assumes "small_ok s g" and f: "frame R s g s' g'"
    and R: "\<And>i sc. i \<in> R \<Longrightarrow> used g' i \<Longrightarrow> kind g' i = Small sc \<Longrightarrow> small_sb s' g' i sc"
  shows "small_ok s' g'"
  unfolding small_ok_def
proof (intro allI impI)
  fix i sc assume i: "used g' i" "kind g' i = Small sc"
  show "small_sb s' g' i sc"
  proof (cases "i \<in> R")
    case True then show ?thesis using i by (rule R)
  next
    case False
    have s: "small_sb s g i sc"
      using i frameD(7,8) [OF f False] by (intro small_okD [OF assms(1)]) simp_all
    have own: "own g' b = own g b" if "b \<in> blocks s sc i" for b
    proof -
      have "b \<in> sb_range s i" using s that blocks_range by (auto simp: small_sb_def)
      then show ?thesis by (rule frameD(11) [OF f not_in_ranges [OF _ False]])
    qed
    have "read_pptr (mem s') b = read_pptr (mem s) b" if "b \<in> set (fl g i)" for b
      using that s own by (intro frameD(12) [OF f]) (auto simp: small_sb_def linked_def)
    then have "small_at (mem s') start b sc d (fl g i) \<longleftrightarrow> small_at (mem s) start b sc d (fl g i)" for start b d
      by (rule small_at_cong)
    then show ?thesis
      using s own unfolding small_sb_def frameD(1,4,5) [OF f] frameD(9,10) [OF f False] by auto
  qed
qed

lemma large_ok_frame:
  assumes "large_ok s g" and f: "frame R s g s' g'" and "nsb g \<le> nsb g'"
    and R: "\<And>i. i \<in> R \<Longrightarrow> \<not> (used g i \<and> (kind g i = Tail \<or> (\<exists>m. kind g i = Large m))) \<and>
      \<not> (used g' i \<and> (kind g' i = Tail \<or> (\<exists>m. kind g' i = Large m)))"
  shows "large_ok s' g'"
proof -
  have same: "i \<notin> R \<and> kind g' i = kind g i \<and> used g i = used g' i"
    if "used g i \<and> (kind g i = Tail \<or> (\<exists>m. kind g i = Large m)) \<or>
        used g' i \<and> (kind g' i = Tail \<or> (\<exists>m. kind g' i = Large m))" for i
    using R [of i] that frameD(7,8) [OF f, of i] by (cases "i \<in> R") auto
  have "i + m \<le> nsb g' \<and> large_at (sb_start s') (sbk s' i) m (desc_of s' i) \<and> 0 < m \<and> m * SBSIZE < 2 ^ 32 \<and>
      (\<forall>j. i < j \<and> j < i + m \<longrightarrow> kind g' j = Tail)"
    if "used g' i" "kind g' i = Large m" for i m
  proof -
    have i: "used g i" "kind g i = Large m" "i \<notin> R" using same [of i] that by auto
    then have l: "0 < m" "m * SBSIZE < 2 ^ 32" "i + m \<le> nsb g" "large_at (sb_start s) (sbk s i) m (desc_of s i)"
      "\<And>j. i < j \<and> j < i + m \<Longrightarrow> kind g j = Tail"
      using assms(1) unfolding large_ok_def by blast+
    have "kind g' j = Tail" if "i < j \<and> j < i + m" for j
    proof -
      have "used g j" using that l(3) i(1) by (simp add: used_def)
      with l(5) [OF that] same [of j] show ?thesis by auto
    qed
    then show ?thesis
      using l assms(3) unfolding frameD(1,4) [OF f] frameD(9) [OF f i(3)] by simp
  qed
  moreover have "\<exists>i m. used g' i \<and> kind g' i = Large m \<and> i < j \<and> j < i + m"
    if "used g' j" "kind g' j = Tail" for j
  proof -
    have "used g j" "kind g j = Tail" using same [of j] that by auto
    then obtain i m where "used g i" "kind g i = Large m" "i < j" "j < i + m"
      using assms(1) unfolding large_ok_def by blast
    with same [of i] show ?thesis by auto
  qed
  ultimately show ?thesis unfolding large_ok_def by blast
qed

lemma own_ok_frame:
  assumes "own_ok s g" and "small_ok s g" and "small_ok s' g'" and f: "frame R s g s' g'"
    and R: "\<And>i b. i \<in> R \<Longrightarrow> b \<in> sb_range s i \<Longrightarrow> own_at s' g' b"
  shows "own_ok s' g'"
  unfolding own_ok_def
proof
  fix b
  show "own_at s' g' b"
  proof (cases "b \<in> \<Union> (sb_range s ` R)")
    case True
    then obtain i where "i \<in> R" "b \<in> sb_range s i" by blast
    then show ?thesis by (rule R)
  next
    case False
    have sb: "small_blk s' g' b i sc \<longleftrightarrow> small_blk s g b i sc" for i sc
    proof -
      have "i \<notin> R" if "small_blk s' g' b i sc \<or> small_blk s g b i sc"
      proof -
        have "sc_ok sc" "b \<in> blocks s sc i"
          using that small_ok_sc [OF assms(2)] small_ok_sc [OF assms(3)]
          unfolding small_blk_def frameD(5) [OF f] by auto
        then show ?thesis using False blocks_range [of b s sc i] by blast
      qed
      then show ?thesis using frameD(7,8) [OF f] unfolding small_blk_def frameD(5) [OF f] by metis
    qed
    have lb: "large_blk s' g' b i m \<longleftrightarrow> large_blk s g b i m" for i m
    proof -
      have "i \<notin> R" if "large_blk s' g' b i m \<or> large_blk s g b i m"
        using that False unfolding large_blk_def frameD(4) [OF f] by auto
      then show ?thesis using frameD(7,8) [OF f] unfolding large_blk_def frameD(4) [OF f] by metis
    qed
    have "own_at s g b" using assms(1) by (simp add: own_ok_def)
    then show ?thesis unfolding own_at_def sb lb frameD(11) [OF f False] .
  qed
qed

lemma partial_link_dsc: "partial_link (descs s) (dsc s i) = checked_load (dsc s i + 8) (next_partial (desc_of s i))"
  by (simp add: partial_link_def desc_of_def)

lemma free_link_dsc: "free_link (descs s) (dsc s i) = checked_load (dsc s i) (next_free (desc_of s i))"
  by (simp add: free_link_def desc_of_def)

lemma chain_map_cong:
  assumes "\<And>i. i \<in> set xs \<Longrightarrow> f (h i) = f' (h i)"
  shows "chain f p (map h xs) q \<longleftrightarrow> chain f' p (map h xs) q"
  using assms by (intro chain_cong) auto

lemma part_list_ok_frame:
  assumes "part_list_ok s g sc" and f: "frame R s g s' g'"
    and "partial_list (heaps s' sc) = partial_list (heaps s sc)" and "part g' sc = part g sc"
    and R: "\<And>i. i \<in> R \<Longrightarrow> nonfull s' g' sc i = nonfull s g sc i \<and>
      (nonfull s g sc i \<longrightarrow> next_partial (desc_of s' i) = next_partial (desc_of s i))"
  shows "part_list_ok s' g' sc"
proof -
  have nf: "nonfull s' g' sc i = nonfull s g sc i" for i
    using R [of i] frameD(7-9) [OF f] by (cases "i \<in> R") (auto simp: nonfull_def)
  have "partial_link (descs s') (dsc s i) = partial_link (descs s) (dsc s i)" if "i \<in> set (part g sc)" for i
  proof -
    have "next_partial (desc_of s' i) = next_partial (desc_of s i)"
      using that assms(1) R [of i] frameD(9) [OF f, of i] by (cases "i \<in> R") (auto simp: part_list_ok_def)
    then show ?thesis
      using partial_link_dsc [of s' i] partial_link_dsc [of s i] frameD(3) [OF f] by simp
  qed
  then have "chain (partial_link (descs s')) p (map (dsc s) (part g sc)) q \<longleftrightarrow>
      chain (partial_link (descs s)) p (map (dsc s) (part g sc)) q" for p q
    by (rule chain_map_cong)
  then show ?thesis
    using assms(1,3,4) by (simp add: part_list_ok_def nf frameD [OF f])
qed

lemma clean_ok_frame:
  assumes "clean_ok s g" and f: "frame R s g s' g'"
    and R: "\<And>i. i \<in> R \<Longrightarrow> 1 \<le> i \<Longrightarrow> (used g' i \<longrightarrow> kind g' i = Free \<or> kind g' i = Tail) \<Longrightarrow> heap (desc_of s' i) = None"
      "\<And>i m. i \<in> R \<Longrightarrow> used g' i \<Longrightarrow> kind g' i = Large m \<Longrightarrow> maxcount (desc_of s' i) = 1"
  shows "clean_ok s' g'"
  unfolding clean_ok_def
proof (intro conjI allI impI)
  fix i assume i: "1 \<le> i" "used g' i \<longrightarrow> kind g' i = Free \<or> kind g' i = Tail"
  show "heap (desc_of s' i) = None"
  proof (cases "i \<in> R")
    case False
    then show ?thesis using i assms(1) frameD(7-9) [OF f False] by (simp add: clean_ok_def)
  qed (use R(1) i in blast)
next
  fix i m assume i: "used g' i" "kind g' i = Large m"
  show "maxcount (desc_of s' i) = 1"
  proof (cases "i \<in> R")
    case False
    then show ?thesis using i assms(1) frameD(7-9) [OF f False] by (simp add: clean_ok_def)
  qed (use R(2) i in blast)
qed

lemma free_ok_frame:
  assumes "free_ok s g" and f: "frame R s g s' g'" and "avail_sb s' = avail_sb s" and "free g' = free g"
    and R: "\<And>i. i \<in> R \<Longrightarrow> (used g' i \<and> kind g' i = Free) = (used g i \<and> kind g i = Free) \<and>
      (used g i \<and> kind g i = Free \<longrightarrow> next_free (desc_of s' i) = next_free (desc_of s i))"
  shows "free_ok s' g'"
proof -
  have nf: "(used g' i \<and> kind g' i = Free) = (used g i \<and> kind g i = Free)" for i
    using R [of i] frameD(7-9) [OF f] by (cases "i \<in> R") auto
  have "free_link (descs s') (dsc s i) = free_link (descs s) (dsc s i)" if "i \<in> set (free g)" for i
  proof -
    have "next_free (desc_of s' i) = next_free (desc_of s i)"
      using that assms(1) R [of i] frameD(9) [OF f, of i] by (cases "i \<in> R") (auto simp: free_ok_def)
    then show ?thesis
      using free_link_dsc [of s' i] free_link_dsc [of s i] frameD(3) [OF f] by simp
  qed
  then have "chain (free_link (descs s')) p (map (dsc s) (free g)) q \<longleftrightarrow>
      chain (free_link (descs s)) p (map (dsc s) (free g)) q" for p q
    by (rule chain_map_cong)
  then show ?thesis
    using assms(1,3,4) by (simp add: free_ok_def nf frameD [OF f])
qed

lemma cache_at_frame:
  assumes "cache_at s g t sc" and f: "frame R s g s' g'"
    and "t_cache s' t sc = t_cache s t sc" and "cached g' t sc = cached g t sc"
    and own: "\<And>b. own g' b = InCache t sc \<longleftrightarrow> own g b = InCache t sc"
  shows "cache_at s' g' t sc"
proof -
  have "read_pptr (mem s') b = read_pptr (mem s) b" if "b \<in> set (cached g t sc)" for b
    using that assms(1) own [of b] by (intro frameD(12) [OF f]) (auto simp: cache_at_def linked_def)
  then have "cache_list (mem s') (t_cache s t sc) (cached g t sc)"
    using assms(1) by (auto simp: cache_at_def intro: cache_list_cong)
  then show ?thesis
    using assms by (simp add: cache_at_def)
qed

end
