(* ===== verification/HeapLists.thy ===== *)
theory HeapLists
  imports HeapInv
begin

text \<open>
  How the operations of the allocator move superblocks between the free list, the partial lists and
  the running operation, each with the state it ends in and the ghost state that goes with it.
\<close>

section \<open>Lookups\<close>

lemma drop_bit_of_nat: "p < 2 ^ 64 \<Longrightarrow> drop_bit k (of_nat p :: u64) = of_nat (p div 2 ^ k)"
proof (rule word_unat_eq_iff [THEN iffD2])
  assume p: "p < 2 ^ 64"
  then have "p div 2 ^ k < 2 ^ 64" by (meson div_le_dividend order_le_less_trans)
  with p show "unat (drop_bit k (of_nat p :: u64)) = unat (of_nat (p div 2 ^ k) :: u64)"
    by (simp add: unsigned_drop_bit_eq drop_bit_nat_def take_bit_nat_eq_self unat_of_nat)
qed

lemma desc_lookup_in:
  assumes g: "geom s n" and "i < n" and p: "p \<in> sb_range s i"
  shows "desc_lookup s p = dsc s i"
proof -
  from g obtain q where q: "sb_start s = q * SBSIZE" by (auto simp: geom_def dvd_def mult.commute)
  have sz: "SBSIZE = 65536" and sh: "SB_SHIFT = 16" by (simp_all add: pm_consts)
  have pb: "p < 2 ^ 47" "sb_start s < 2 ^ 47"
    using p geom_bounds(4) [OF g assms(2)] geom_bounds(3) [OF g, of 0]
    by (auto simp: sb_range_def user_addr_def sbk_def)
  have "p div 65536 = q + i"
    using p by (intro div_nat_eqI) (auto simp: sb_range_def sbk_def q sz algebra_simps)
  then have "drop_bit 16 (of_nat p :: u64) = of_nat (q + i)"
    using pb drop_bit_of_nat [of p 16] by simp
  moreover have "drop_bit 16 (of_nat (sb_start s) :: u64) = of_nat q"
    using pb drop_bit_of_nat [of "sb_start s" 16] by (simp add: q sz)
  ultimately have "drop_bit 16 (of_nat p :: u64) - drop_bit 16 (of_nat (sb_start s)) = of_nat i"
    by simp
  then have "desc_lookup s p = unat (of_nat (dsc s i) :: u64)"
    by (simp add: desc_lookup_def sh dsc_def mult.commute)
  moreover have "user_addr (dsc s i)"
    using geom_bounds(5) [OF g assms(2)] by (simp add: desc_addr_ok_def user_addr_def)
  ultimately show ?thesis by (simp add: unat_of_nat_user)
qed

lemma sb_lookup_dsc:
  assumes g: "geom s n" and "i < n"
  shows "sb_lookup s (dsc s i) = sbk s i"
proof -
  from g obtain q where q: "desc_start s = q * 64" by (auto simp: geom_def dvd_def mult.commute pm_consts)
  have u: "dsc s i < 2 ^ 47" "desc_start s < 2 ^ 47"
    using geom_bounds(5) [OF g assms(2)] by (auto simp: desc_addr_ok_def user_addr_def dsc_def)
  have "dsc s i = (q + i) * 64" by (simp add: dsc_def q pm_consts)
  then have "drop_bit 6 (of_nat (dsc s i) :: u64) = of_nat (q + i)"
    using u drop_bit_of_nat [of "dsc s i" 6] by simp
  moreover have "drop_bit 6 (of_nat (desc_start s) :: u64) = of_nat q"
    using u drop_bit_of_nat [of "desc_start s" 6] by (simp add: q)
  ultimately have "sb_lookup s (dsc s i) = unat (of_nat (sb_start s) + push_bit 16 (of_nat i) :: u64)"
    by (simp add: sb_lookup_def pm_consts)
  also have "\<dots> = unat (of_nat (sbk s i) :: u64)"
    by (simp add: push_bit_eq_mult sbk_def pm_consts)
  finally show ?thesis
    using geom_bounds(3) [OF g, of i] assms(2) by (simp add: unat_of_nat_user)
qed

lemma compute_idx_block:
  assumes "sc_ok sc" and "k < nblocks sc"
  shows "compute_idx b (b + k * bsize sc) sc = Inr k"
proof -
  have "k * bsize sc + bsize sc \<le> 65536" "0 < bsize sc"
    using block_bounds [OF assms] bsize_props(1) [of sc] assms(1) by (auto simp: sc_ok_def pm_consts)
  then show ?thesis
    using sizeclass_fields [of sc] assms(1)
    by (simp add: compute_idx_def Let_def sc_ok_def check_def pm_consts)
qed

section \<open>Pushing superblocks to the free list\<close>

lemma avail_push_eq:
  assumes "acp_start (desc_start s)"
  shows "avail_push first last_d s = Inr (s
    \<lparr>descs := next_free_store last_d (pc_ptr (acp_load (desc_start s) (avail_sb s))) (descs s),
     avail_sb := acp_store (desc_start s) (ptr_cnt_set first (pc_cnt (acp_load (desc_start s) (avail_sb s)) + 1))\<rparr>)"
  using acp_cas_after_load(2) [OF assms]
  by (simp add: avail_push_def Let_def get_ptr_def get_counter_def)

lemma acp_load_store_set:
  "acp_ptr start p \<Longrightarrow> pc_ptr (acp_load start (acp_store start (ptr_cnt_set p c))) = p"
  by (simp add: acp_load_store_take ptr_cnt_set_def)

lemma organize_loop_spec:
  assumes "\<And>j. j \<le> i + m \<Longrightarrow> desc_addr_ok (desc_start s + j * DESCSIZE)"
  shows "\<exists>D. organize_loop m (dsc s i) s = (dsc s (i + m), s\<lparr>descs := D\<rparr>) \<and>
    (\<forall>j. i \<le> j \<and> j < i + m \<longrightarrow> free_link D (dsc s j) = dsc s (j + 1)) \<and>
    (\<forall>x. (\<forall>j. i \<le> j \<and> j \<le> i + m \<longrightarrow> x \<noteq> dsc s j) \<longrightarrow> D x = descs s x) \<and>
    heap (D (dsc s i)) = heap (descs s (dsc s i)) \<and> (\<forall>j. i < j \<and> j \<le> i + m \<longrightarrow> heap (D (dsc s j)) = None)"
  using assms
proof (induction m arbitrary: i s)
  case 0
  then show ?case by (auto intro!: exI [of _ "descs s"])
next
  case (Suc m)
  let ?s1 = "construct_desc (dsc s i + DESCSIZE)
    (s\<lparr>descs := next_free_store (dsc s i) (dsc s i + DESCSIZE) (descs s)\<rparr>)"
  have d: "dsc s i + DESCSIZE = dsc s (i + 1)" by (simp add: dsc_def)
  have ds: "dsc ?s1 = dsc s" by (simp add: construct_desc_def dsc_def fun_eq_iff)
  have dss: "desc_start ?s1 = desc_start s" by (simp add: construct_desc_def)
  obtain D where D: "organize_loop m (dsc s (i + 1)) ?s1 = (dsc s (i + 1 + m), ?s1\<lparr>descs := D\<rparr>)"
    "\<And>j. i + 1 \<le> j \<and> j < i + 1 + m \<Longrightarrow> free_link D (dsc s j) = dsc s (j + 1)"
    "\<And>x. (\<forall>j. i + 1 \<le> j \<and> j \<le> i + 1 + m \<longrightarrow> x \<noteq> dsc s j) \<Longrightarrow> D x = descs ?s1 x"
    "heap (D (dsc s (i + 1))) = heap (descs ?s1 (dsc s (i + 1)))"
    "\<And>j. i + 1 < j \<and> j \<le> i + 1 + m \<Longrightarrow> heap (D (dsc s j)) = None"
    using Suc.IH [of "i + 1" ?s1] Suc.prems unfolding ds dss by auto
  have Di: "D (dsc s i) = descs ?s1 (dsc s i)" by (rule D(3)) auto
  have hp: "heap (D (dsc s i)) = heap (descs s (dsc s i))" using Di by (simp add: construct_desc_def next_free_store_def d)
  have hn: "heap (D (dsc s j)) = None" if "i < j \<and> j \<le> i + Suc m" for j
    using that D(4) D(5) [of j] by (cases "j = i + 1") (simp_all add: construct_desc_def d Descriptor_new_def)
  from Di have "free_link D (dsc s i) = free_link (next_free_store (dsc s i) (dsc s (i + 1)) (descs s)) (dsc s i)"
    by (simp add: free_link_def construct_desc_def d)
  also have "\<dots> = dsc s (i + 1)"
    using Suc.prems [of i] Suc.prems [of "i + 1"] by (intro fre.rd_wr_same) (simp_all add: dsc_def)
  finally have first: "free_link D (dsc s i) = dsc s (i + 1)" .
  have other: "D x = descs s x" if "\<forall>j. i \<le> j \<and> j \<le> i + Suc m \<longrightarrow> x \<noteq> dsc s j" for x
  proof -
    have "x \<noteq> dsc s i" "x \<noteq> dsc s (i + 1)" using that by (auto simp del: dsc_inj)
    moreover have "D x = descs ?s1 x" using that by (intro D(3)) (auto simp del: dsc_inj)
    ultimately show ?thesis by (simp add: construct_desc_def next_free_store_def d)
  qed
  have links: "free_link D (dsc s j) = dsc s (j + 1)" if "i \<le> j \<and> j < i + Suc m" for j
    using that first D(2) [of j] by (cases "j = i") auto
  have "organize_loop (Suc m) (dsc s i) s = (dsc s (i + Suc m), s\<lparr>descs := D\<rparr>)"
    using D(1) by (simp add: d) (simp add: construct_desc_def)
  then show ?case using links other hp hn by blast
qed

lemma chain_upt:
  assumes "\<And>j. i \<le> j \<Longrightarrow> j < i + m \<Longrightarrow> f (h j) = h (j + 1)"
  shows "chain f (h i) (map h [i..<i + m]) (h (i + m))"
  using assms
proof (induction m)
  case 0
  then show ?case by simp
next
  case (Suc m)
  then show ?case by (auto simp: chain_append)
qed

text \<open>
  The list that \<^verbatim>\<open>organize_sb_list\<close> makes of \<open>m\<close> superblocks in a row: only their descriptors and the
  head change, and the new chain is in front of the old one.
\<close>

lemma organize_sb_list_state:
  assumes g: "geom s n" and "1 \<le> i" and "0 < m" and "i + m \<le> n"
    and ch: "chain (free_link (descs s)) (pc_ptr (acp_load (desc_start s) (avail_sb s))) (map (dsc s) fs) 0"
    and fs: "\<And>j. j \<in> set fs \<Longrightarrow> j < i \<or> i + m \<le> j" and head: "\<And>j. j \<in> set fs \<Longrightarrow> j < n"
  shows "\<exists>D w. organize_sb_list (sbk s i) m s = Inr (s\<lparr>descs := D, avail_sb := w\<rparr>) \<and>
    (\<forall>x. (\<forall>j. i \<le> j \<and> j < i + m \<longrightarrow> x \<noteq> dsc s j) \<longrightarrow> D x = descs s x) \<and>
    chain (free_link D) (pc_ptr (acp_load (desc_start s) w)) (map (dsc s) ([i..<i + m] @ fs)) 0 \<and>
    (\<forall>j. i \<le> j \<and> j < i + m \<longrightarrow> heap (D (dsc s j)) = None)"
proof -
  let ?p = "pc_ptr (acp_load (desc_start s) (avail_sb s))"
  have acp: "acp_start (desc_start s)" using g by (simp add: geom_def)
  have first: "desc_lookup s (sbk s i) = dsc s i"
    using assms(3,4) by (intro desc_lookup_in [OF g]) simp_all
  have p: "desc_addr_ok ?p"
    using ch head geom_bounds(5) [OF g] by (cases fs) (auto simp: desc_addr_ok_def user_addr_def)
  let ?s0 = "construct_desc (dsc s i) s"
  have ds: "dsc ?s0 = dsc s" "desc_start ?s0 = desc_start s" "avail_sb ?s0 = avail_sb s"
    by (simp_all add: construct_desc_def dsc_def fun_eq_iff)
  have ok: "desc_addr_ok (dsc s j)" if "j < n" for j using geom_bounds(5) [OF g that] .
  have okj: "desc_addr_ok (desc_start ?s0 + j * DESCSIZE)" if "j \<le> i + (m - 1)" for j
    using ok [of j] that assms(3,4) by (simp add: ds dsc_def [symmetric])
  obtain D where D: "organize_loop (m - 1) (dsc s i) ?s0 = (dsc s (i + (m - 1)), ?s0\<lparr>descs := D\<rparr>)"
    "\<And>j. i \<le> j \<and> j < i + (m - 1) \<Longrightarrow> free_link D (dsc s j) = dsc s (j + 1)"
    "\<And>x. (\<forall>j. i \<le> j \<and> j \<le> i + (m - 1) \<longrightarrow> x \<noteq> dsc s j) \<Longrightarrow> D x = descs ?s0 x"
    "heap (D (dsc s i)) = heap (descs ?s0 (dsc s i))" "\<And>j. i < j \<and> j \<le> i + (m - 1) \<Longrightarrow> heap (D (dsc s j)) = None"
    using organize_loop_spec [of i "m - 1" ?s0, OF okj] unfolding ds by blast
  let ?l = "dsc s (i + (m - 1))"
  let ?D = "next_free_store ?l ?p D"
  let ?w = "acp_store (desc_start s) (ptr_cnt_set (dsc s i) (pc_cnt (acp_load (desc_start s) (avail_sb s)) + 1))"
  have st: "organize_sb_list (sbk s i) m s = Inr (s\<lparr>descs := ?D, avail_sb := ?w\<rparr>)"
    using D(1) acp by (simp add: organize_sb_list_def first avail_push_eq ds) (simp add: construct_desc_def)
  have out: "D x = descs s x" if "\<forall>j. i \<le> j \<and> j < i + m \<longrightarrow> x \<noteq> dsc s j" for x
  proof -
    have "D x = descs ?s0 x" using that assms(3) by (intro D(3)) (auto simp del: dsc_inj)
    moreover have "x \<noteq> dsc s i" using that assms(3) by (auto simp del: dsc_inj)
    ultimately show ?thesis by (simp add: construct_desc_def)
  qed
  have out': "?D x = descs s x" if "\<forall>j. i \<le> j \<and> j < i + m \<longrightarrow> x \<noteq> dsc s j" for x
    using out [OF that] that assms(3) by (auto simp: next_free_store_def simp del: dsc_inj)
  have last_ok: "desc_addr_ok ?l" using assms by (intro ok) simp
  have "free_link ?D (dsc s j) = dsc s (j + 1)" if "i \<le> j" "j < i + (m - 1)" for j
    using D(2) [of j] that fre.rd_wr_other [of ?l "dsc s j" ?p D] by simp
  then have "chain (free_link ?D) (dsc s i) (map (dsc s) [i..<i + (m - 1)]) ?l"
    by (rule chain_upt)
  moreover have "free_link ?D ?l = ?p"
    using last_ok p by (rule fre.rd_wr_same)
  moreover have "[i..<i + m] = [i..<i + (m - 1)] @ [i + (m - 1)]"
    using assms(3) by (metis Suc_pred' le_add1 add_Suc_right upt_Suc_append)
  ultimately have "chain (free_link ?D) (dsc s i) (map (dsc s) [i..<i + m]) ?p"
    by (simp add: chain_append)
  moreover have "chain (free_link ?D) ?p (map (dsc s) fs) 0"
  proof -
    have "free_link (descs s) (dsc s j) = free_link ?D (dsc s j)" if "j \<in> set fs" for j
    proof -
      have "?D (dsc s j) = descs s (dsc s j)" using fs [OF that] by (intro out') auto
      then show ?thesis by (simp add: free_link_def)
    qed
    then show ?thesis using ch chain_map_cong [of fs "free_link (descs s)" "dsc s" "free_link ?D"] by simp
  qed
  moreover have "pc_ptr (acp_load (desc_start s) ?w) = dsc s i"
    using assms geom_bounds(6) [OF g, of i] by (intro acp_load_store_set) simp
  ultimately have "chain (free_link ?D) (pc_ptr (acp_load (desc_start s) ?w)) (map (dsc s) ([i..<i + m] @ fs)) 0"
    by (auto simp: chain_append)
  moreover have "heap (?D (dsc s j)) = None" if "i \<le> j \<and> j < i + m" for j
    using that D(4) D(5) [of j] by (cases "j = i") (auto simp: next_free_store_def construct_desc_def Descriptor_new_def)
  ultimately show ?thesis using st out' by blast
qed

section \<open>Superblocks without blocks\<close>

lemma blk_range:
  "small_ok s g \<Longrightarrow> small_blk s g b i sc \<Longrightarrow> b \<in> sb_range s i"
  "large_blk s g b i m \<Longrightarrow> b \<in> sb_range s i"
  using blocks_range small_ok_sc by (auto simp: small_blk_def large_blk_def)

definition plain :: "sbkind \<Rightarrow> bool" where
  "plain k \<longleftrightarrow> (\<forall>sc. k \<noteq> Small sc) \<and> (\<forall>m. k \<noteq> Large m)"

lemma plain_simps [simp]:
  "plain Free" "plain Held" "plain Tail" "\<not> plain (Small sc)" "\<not> plain (Large m)"
  by (simp_all add: plain_def)

lemma no_blk:
  assumes "small_ok s g" and "b \<in> sb_range s i" and "used g i \<longrightarrow> plain (kind g i)"
  shows "\<not> small_blk s g b j sc" and "\<not> large_blk s g b j m"
proof -
  have eq: "j = i" if "b \<in> sb_range s j"
    using that assms(2) by (rule sb_range_unique)
  show "\<not> small_blk s g b j sc"
    using eq blk_range(1) [OF assms(1)] assms(3) by (auto simp: small_blk_def)
  show "\<not> large_blk s g b j m"
    using eq blk_range(2) [of s g b j m] assms(3) by (auto simp: large_blk_def)
qed

lemma own_none:
  assumes "own_ok s g" and "small_ok s g" and "b \<in> sb_range s i" and "used g i \<longrightarrow> plain (kind g i)"
  shows "own g b = NoBlock"
proof -
  have "own_at s g b" using assms(1) by (simp add: own_ok_def)
  then show ?thesis using no_blk [OF assms(2-4)] by (cases "own g b") (auto simp: own_at_def)
qed

lemma own_at_none:
  assumes "small_ok s g" and "b \<in> sb_range s i" and "used g i \<longrightarrow> plain (kind g i)" and "own g b = NoBlock"
  shows "own_at s g b"
  using assms(4) no_blk [OF assms(1-3)] by (simp add: own_at_def)

text \<open>A step in which some superblocks only change between free, held and not yet there.\<close>

lemma heap_inv_raw_step:
  assumes inv: "heap_inv s g" and f: "frame R s g s' g'" and "nsb g \<le> nsb g'" and "heaps s' = heaps s"
    and "part g' = part g" and "t_cache s' = t_cache s" and "cached g' = cached g" and "own g' = own g"
    and R: "\<And>i. i \<in> R \<Longrightarrow> (used g i \<longrightarrow> kind g i \<in> {Free, Held}) \<and> (used g' i \<longrightarrow> kind g' i \<in> {Free, Held})"
    and clean: "\<And>i. i \<in> R \<Longrightarrow> 1 \<le> i \<Longrightarrow> (used g' i \<longrightarrow> kind g' i = Free) \<Longrightarrow> heap (desc_of s' i) = None"
    and "geom s' (nsb g')" and "free_ok s' g'"
  shows "heap_inv s' g'"
proof -
  note i = heap_invD [OF inv]
  have small: "small_ok s' g'"
    by (rule small_ok_frame [OF i(4) f]) (use R in fastforce)
  have "large_ok s' g'"
    by (rule large_ok_frame [OF i(5) f assms(3)]) (use R in fastforce)
  moreover have "own_ok s' g'"
  proof (rule own_ok_frame [OF i(6) i(4) small f])
    fix j b assume j: "j \<in> R" "b \<in> sb_range s j"
    have k: "used g j \<longrightarrow> plain (kind g j)" "used g' j \<longrightarrow> plain (kind g' j)" using R [OF j(1)] by auto
    have "own g b = NoBlock" by (rule own_none [OF i(6,4) j(2) k(1)])
    then show "own_at s' g' b"
      using small j(2) k(2) frameD(6) [OF f] assms(8) by (intro own_at_none [of s' g' b j]) simp_all
  qed
  moreover have "part_ok s' g'"
  proof -
    have "part_list_ok s' g' sc" if "part_list_ok s g sc" for sc
      using that f by (rule part_list_ok_frame) (use assms(4,5) R in \<open>fastforce simp: nonfull_def\<close>)+
    then show ?thesis using i(3) assms(4) by (simp add: part_ok_def)
  qed
  moreover have "cache_ok s' g'"
  proof -
    have "cache_at s' g' t sc" if "cache_at s g t sc" for t sc
      using that f by (rule cache_at_frame) (simp_all add: assms)
    then show ?thesis using i(7) by (simp add: cache_ok_def)
  qed
  moreover have "clean_ok s' g'"
    by (rule clean_ok_frame [OF i(8) f]) (use R clean in fastforce)+
  ultimately show ?thesis using small assms by (intro heap_invI) simp_all
qed

text \<open>Fields that moving superblocks around never touches.\<close>

definition same_blocks :: "ralloc \<Rightarrow> ralloc \<Rightarrow> bool" where
  "same_blocks s s' \<longleftrightarrow> mem s' = mem s \<and> t_cache s' = t_cache s \<and> heaps s' = heaps s \<and> roots s' = roots s \<and>
    sb_start s' = sb_start s \<and> desc_start s' = desc_start s"

lemma same_blocks_refl [simp]: "same_blocks s s"
  by (simp add: same_blocks_def)

lemma same_blocks_trans: "same_blocks s s' \<Longrightarrow> same_blocks s' s'' \<Longrightarrow> same_blocks s s''"
  by (simp add: same_blocks_def)

definition to_free :: "nat \<Rightarrow> nat \<Rightarrow> ghost \<Rightarrow> ghost" where
  "to_free i m g = g\<lparr>kind := (\<lambda>j. if i \<le> j \<and> j < i + m then Free else kind g j), free := [i..<i + m] @ free g\<rparr>"

lemma organize_ok:
  assumes inv: "heap_inv s g" and "1 \<le> i" and "0 < m" and "i + m \<le> nsb g"
    and held: "\<And>j. i \<le> j \<Longrightarrow> j < i + m \<Longrightarrow> kind g j = Held"
  shows "\<exists>s'. organize_sb_list (sbk s i) m s = Inr s' \<and> heap_inv s' (to_free i m g) \<and> same_blocks s s' \<and>
    sb_region s' = sb_region s \<and> (\<forall>j. j < i \<or> i + m \<le> j \<longrightarrow> desc_of s' j = desc_of s j)"
proof -
  note iv = heap_invD [OF inv]
  have fr: "set (free g) = {j. used g j \<and> kind g j = Free}" "distinct (free g)"
    using iv(2) by (simp_all add: free_ok_def)
  have fs: "j < i \<or> i + m \<le> j" "j < nsb g" if "j \<in> set (free g)" for j
    using that fr(1) held [of j] by (force simp: used_def)+
  obtain D w where D: "organize_sb_list (sbk s i) m s = Inr (s\<lparr>descs := D, avail_sb := w\<rparr>)"
    "\<And>x. (\<forall>j. i \<le> j \<and> j < i + m \<longrightarrow> x \<noteq> dsc s j) \<Longrightarrow> D x = descs s x"
    "chain (free_link D) (pc_ptr (acp_load (desc_start s) w)) (map (dsc s) ([i..<i + m] @ free g)) 0"
    "\<And>j. i \<le> j \<and> j < i + m \<Longrightarrow> heap (D (dsc s j)) = None"
    using organize_sb_list_state [OF iv(1) assms(2-4), of "free g"] iv(2) fs by (auto simp: free_ok_def)
  let ?s' = "s\<lparr>descs := D, avail_sb := w\<rparr>" and ?g' = "to_free i m g"
  have ds: "dsc ?s' = dsc s" by (simp add: dsc_def fun_eq_iff)
  have des: "desc_of ?s' j = desc_of s j" if "j < i \<or> i + m \<le> j" for j
    using D(2) [of "dsc s j"] that by (auto simp: desc_of_def ds)
  have f: "frame {i..<i + m} s g ?s' ?g'"
    using des by (auto simp: frame_def to_free_def used_def)
  have "heap_inv ?s' ?g'"
  proof (rule heap_inv_raw_step [OF inv f])
    show "geom ?s' (nsb ?g')" using iv(1) by (simp add: geom_def to_free_def)
    have "set ([i..<i + m] @ free g) = {j. used ?g' j \<and> kind ?g' j = Free}"
      unfolding set_append fr(1) using assms(2,4) by (auto simp: to_free_def used_def)
    moreover have "distinct ([i..<i + m] @ free g)"
      using fr(2) fs(1) by fastforce
    ultimately show "free_ok ?s' ?g'" using D(3) by (simp add: free_ok_def ds) (simp add: to_free_def)
    show "heap (desc_of ?s' j) = None" if "j \<in> {i..<i + m}" for j using D(4) [of j] that by (simp add: desc_of_def ds)
  qed (use held in \<open>auto simp: to_free_def\<close>)
  then show ?thesis using D(1) des by (auto simp: same_blocks_def)
qed

lemma small_sb_retire_organize: "small_sb_retire sb SBSIZE s = organize_sb_list sb 1 s"
  by (simp add: small_sb_retire_def organize_sb_list_def)

section \<open>Taking a superblock\<close>

lemma free_list_D:
  assumes "free_ok s g"
  shows "set (free g) = {j. used g j \<and> kind g j = Free}" and "distinct (free g)"
  using assms by (simp_all add: free_ok_def)

lemma avail_ptr:
  assumes "heap_inv s g"
  shows "free g = [] \<Longrightarrow> pc_ptr (acp_load (desc_start s) (avail_sb s)) = 0"
    and "free g = i # fs \<Longrightarrow> pc_ptr (acp_load (desc_start s) (avail_sb s)) = dsc s i"
    and "free g = i # fs \<Longrightarrow> used g i \<and> kind g i = Free"
proof -
  note iv = heap_invD [OF assms]
  show "free g = [] \<Longrightarrow> pc_ptr (acp_load (desc_start s) (avail_sb s)) = 0"
    "free g = i # fs \<Longrightarrow> pc_ptr (acp_load (desc_start s) (avail_sb s)) = dsc s i"
    using iv(2) by (simp_all add: free_ok_def)
  show "used g i \<and> kind g i = Free" if "free g = i # fs"
  proof -
    have "i \<in> set (free g)" using that by simp
    then show ?thesis unfolding free_list_D(1) [OF iv(2)] by simp
  qed
qed

lemma take_free_ok:
  assumes inv: "heap_inv s g" and fr: "free g = i # fs"
    and w: "w = acp_store (desc_start s) (ptr_cnt_set (free_link (descs s) (dsc s i)) c)"
  shows "heap_inv (s\<lparr>avail_sb := w\<rparr>) (g\<lparr>kind := (kind g)(i := Held), free := fs\<rparr>)"
proof -
  note iv = heap_invD [OF inv]
  let ?s' = "s\<lparr>avail_sb := w\<rparr>" and ?g' = "g\<lparr>kind := (kind g)(i := Held), free := fs\<rparr>"
  note fl = free_list_D [OF iv(2)]
  have i: "used g i" "kind g i = Free" using avail_ptr(3) [OF inv fr] by simp_all
  have ch: "chain (free_link (descs s)) (free_link (descs s) (dsc s i)) (map (dsc s) fs) 0"
    using iv(2) fr by (simp add: free_ok_def)
  have "acp_ptr (desc_start s) (free_link (descs s) (dsc s i))"
  proof (cases fs)
    case Nil
    then show ?thesis using ch by (simp add: acp_ptr_def)
  next
    case (Cons j js)
    then have "j \<in> set (free g)" using fr by simp
    then have "1 \<le> j" "j < nsb g" unfolding fl(1) by (simp_all add: used_def)
    then show ?thesis using ch Cons geom_bounds(6) [OF iv(1)] by simp
  qed
  then have hd: "pc_ptr (acp_load (desc_start s) w) = free_link (descs s) (dsc s i)"
    unfolding w by (rule acp_load_store_set)
  show ?thesis
  proof (rule heap_inv_raw_step [OF inv])
    show "frame {i} s g ?s' ?g'"
      by (auto simp: frame_def used_def desc_of_def dsc_def)
    show "geom ?s' (nsb ?g')" using iv(1) by (simp add: geom_def)
    have "set fs = set (free g) - {i}" using fr fl(2) by auto
    then have "set fs = {j. used ?g' j \<and> kind ?g' j = Free}" unfolding fl(1) by (auto simp: used_def)
    moreover have "dsc ?s' = dsc s" by (simp add: dsc_def fun_eq_iff)
    ultimately show "free_ok ?s' ?g'"
      using ch hd fl(2) fr by (simp add: free_ok_def)
  qed (use i in \<open>auto simp: used_def\<close>)
qed

lemma grow_ok:
  assumes inv: "heap_inv s g" and "1 \<le> nsb g"
    and fit: "sb_start s + (nsb g + m) * SBSIZE \<le> base_addr (sb_region s) + FILESIZE (sb_region s)"
    and w: "w = atomic_pptr_store (base_addr (sb_region s)) (sb_start s + (nsb g + m) * SBSIZE)"
  shows "heap_inv (s\<lparr>sb_region := set_curr w (sb_region s)\<rparr>)
    (g\<lparr>nsb := nsb g + m, kind := (\<lambda>j. if nsb g \<le> j \<and> j < nsb g + m then Held else kind g j)\<rparr>)"
proof -
  note iv = heap_invD [OF inv]
  let ?s' = "s\<lparr>sb_region := set_curr w (sb_region s)\<rparr>"
  let ?g' = "g\<lparr>nsb := nsb g + m, kind := (\<lambda>j. if nsb g \<le> j \<and> j < nsb g + m then Held else kind g j)\<rparr>"
  have f: "frame {nsb g..<nsb g + m} s g ?s' ?g'"
    by (auto simp: frame_def used_def desc_of_def dsc_def)
  show ?thesis
  proof (rule heap_inv_raw_step [OF inv f])
    have "region_at (set_curr w (sb_region s)) (sb_start s + (nsb g + m) * SBSIZE)"
      using iv(1) fit w by (auto simp: geom_def region_at_def set_curr_def algebra_simps)
    then show "geom ?s' (nsb ?g')" using iv(1) by (simp add: geom_def)
    show "free_ok ?s' ?g'"
      by (rule free_ok_frame [OF iv(2) f]) (auto simp: used_def)
  qed (auto simp: used_def)
qed

lemma held_desc_ok:
  assumes inv: "heap_inv s g" and "kind g i = Held" and "heap d = None"
  shows "heap_inv (s\<lparr>descs := (descs s)(dsc s i := d)\<rparr>) g"
proof -
  note iv = heap_invD [OF inv]
  let ?s' = "s\<lparr>descs := (descs s)(dsc s i := d)\<rparr>"
  have f: "frame {i} s g ?s' g"
    by (auto simp: frame_def desc_of_def dsc_def pm_consts)
  show ?thesis
  proof (rule heap_inv_raw_step [OF inv f])
    show "geom ?s' (nsb g)" using iv(1) by (simp add: geom_def)
    show "free_ok ?s' g"
      by (rule free_ok_frame [OF iv(2) f]) (simp_all add: assms(2))
  qed (simp_all add: assms(2,3))
qed

text \<open>The frontier lies on a superblock boundary, so aligning it to a page changes nothing.\<close>

lemma frontier_aligned:
  assumes "geom s n"
  shows "curr_addr (sb_region s) = sbk s n"
    and "unat (of_nat (sbk s n) AND (of_nat PAGESIZE - 1) :: u64) = 0"
proof -
  show "curr_addr (sb_region s) = sbk s n"
    using assms region_at_curr by (auto simp: geom_def sbk_def)
  have "sbk s n < 2 ^ 64"
    using geom_bounds(2) [OF assms] by (simp add: user_addr_def sbk_def)
  then have "unat (of_nat (sbk s n) AND (of_nat (2 ^ 12) - 1) :: u64) = sbk s n mod 2 ^ 12"
    by (rule and_mask_mod) simp
  moreover have "sbk s n mod 2 ^ 12 = 0"
    using geom_bounds(10) [OF assms, of n] by (auto simp: pm_consts elim!: dvdE)
  moreover have "PAGESIZE = 2 ^ 12" by (simp add: pm_consts)
  ultimately show "unat (of_nat (sbk s n) AND (of_nat PAGESIZE - 1) :: u64) = 0" by (simp only:)
qed

text \<open>
  What \<^verbatim>\<open>small_sb_alloc\<close> hands out: a held superblock; nothing changes but the free list and, if that
  was empty, the frontier.
\<close>

definition no_room :: "ralloc \<Rightarrow> ghost \<Rightarrow> bool" where
  "no_room s g \<longleftrightarrow> free g = [] \<and>
    base_addr (sb_region s) + FILESIZE (sb_region s) < sb_start s + nsb g * SBSIZE + SB_REGION_EXPAND_SIZE"

definition same_ghost_blocks :: "ghost \<Rightarrow> ghost \<Rightarrow> bool" where
  "same_ghost_blocks g g' \<longleftrightarrow> own g' = own g \<and> cached g' = cached g \<and> part g' = part g \<and> fl g' = fl g \<and>
    (\<forall>j. used g j \<longrightarrow> kind g j \<noteq> Free \<longrightarrow> used g' j \<and> kind g' j = kind g j)"

lemma small_sb_alloc_free:
  assumes inv: "heap_inv s g" and fr: "free g = i # fs"
  shows "\<exists>w. small_sb_alloc SBSIZE s = Inr (sbk s i, s\<lparr>avail_sb := w\<rparr>) \<and>
    heap_inv (s\<lparr>avail_sb := w\<rparr>) (g\<lparr>kind := (kind g)(i := Held), free := fs\<rparr>)"
proof -
  note iv = heap_invD [OF inv]
  let ?old = "acp_load (desc_start s) (avail_sb s)"
  let ?w = "acp_store (desc_start s) (ptr_cnt_set (free_link (descs s) (dsc s i)) (pc_cnt ?old))"
  have acp: "acp_start (desc_start s)" using iv(1) by (simp add: geom_def)
  have p: "pc_ptr ?old = dsc s i" by (rule avail_ptr(2) [OF inv fr])
  have "i < nsb g" using avail_ptr(3) [OF inv fr] by (simp add: used_def)
  then have l: "sb_lookup s (dsc s i) = sbk s i" by (rule sb_lookup_dsc [OF iv(1)])
  have "chain (free_link (descs s)) (free_link (descs s) (dsc s i)) (map (dsc s) fs) 0"
    using iv(2) fr by (simp add: free_ok_def)
  note nl = next_load_link(1) [OF chain_not_one [OF iv(1) this]]
  have "small_sb_alloc SBSIZE s = Inr (sbk s i, s\<lparr>avail_sb := ?w\<rparr>)"
    using nl acp_cas_after_load(1) [OF acp, of "avail_sb s"] geom_bounds(7) [OF iv(1), of i]
    by (simp add: small_sb_alloc_def Let_def get_ptr_def get_counter_def p l)
  moreover have "heap_inv (s\<lparr>avail_sb := ?w\<rparr>) (g\<lparr>kind := (kind g)(i := Held), free := fs\<rparr>)"
    by (rule take_free_ok [OF inv fr refl])
  ultimately show ?thesis by blast
qed

lemma small_sb_alloc_empty:
  assumes inv: "heap_inv s g" and fr: "free g = []"
  shows "small_sb_alloc SBSIZE s =
    (if base_addr (sb_region s) + FILESIZE (sb_region s) < sbk s (nsb g) + SB_REGION_EXPAND_SIZE then Inl OutOfSpace
     else and_then (organize_sb_list (sbk s (nsb g + 1)) (SB_REGION_EXPAND_SIZE div SBSIZE - 1)
         (s\<lparr>sb_region := set_curr (atomic_pptr_store (base_addr (sb_region s)) (sbk s (nsb g) + SB_REGION_EXPAND_SIZE)) (sb_region s)\<rparr>))
       (\<lambda>s1. Inr (sbk s (nsb g), construct_desc (desc_lookup s1 (sbk s (nsb g))) s1)))"
proof -
  note iv = heap_invD [OF inv]
  note fa = frontier_aligned [OF iv(1)]
  have p: "pc_ptr (acp_load (desc_start s) (avail_sb s)) = 0" by (rule avail_ptr(1) [OF inv fr])
  have b: "sbk s (nsb g) < 2 ^ 47"
    using geom_bounds(3) [OF iv(1), of "nsb g"] by (simp add: user_addr_def)
  have c: "hdr_curr (hdr (sb_region s)) = atomic_pptr_store (base_addr (sb_region s)) (sbk s (nsb g))"
    using iv(1) by (simp add: geom_def region_at_def sbk_def)
  have m: "(sbk s (nsb g) + SB_REGION_EXPAND_SIZE) mod 18446744073709551616 = sbk s (nsb g) + SB_REGION_EXPAND_SIZE"
    "(sbk s (nsb g) + SBSIZE) mod 18446744073709551616 = sbk s (Suc (nsb g))"
    using b by (simp_all add: pm_consts sbk_def)
  show ?thesis
    unfolding small_sb_alloc_def Let_def get_ptr_def p fa
    by (simp add: fa m c atomic_pptr_cas_strong_def atomic_pptr_store_def not_less)
qed

lemma expand_amount: "SB_REGION_EXPAND_SIZE = 16384 * SBSIZE" "SB_REGION_EXPAND_SIZE div SBSIZE - 1 = 16383"
  by (simp_all add: pm_consts)

lemma small_sb_alloc_expand:
  assumes inv: "heap_inv s g" and "1 \<le> nsb g" and fr: "free g = []"
    and fit: "sbk s (nsb g) + SB_REGION_EXPAND_SIZE \<le> base_addr (sb_region s) + FILESIZE (sb_region s)"
  shows "\<exists>s' g'. small_sb_alloc SBSIZE s = Inr (sbk s (nsb g), s') \<and> heap_inv s' g' \<and>
    nsb g' = nsb g + 16384 \<and> kind g' (nsb g) = Held \<and>
    same_blocks s s' \<and> same_ghost_blocks g g' \<and>
    (\<forall>j. j < nsb g \<longrightarrow> kind g' j = kind g j \<and> desc_of s' j = desc_of s j) \<and>
    (\<forall>j. nsb g < j \<and> j < nsb g' \<longrightarrow> kind g' j = Free)"
proof -
  note iv = heap_invD [OF inv]
  let ?n = "nsb g"
  let ?w = "atomic_pptr_store (base_addr (sb_region s)) (sbk s ?n + SB_REGION_EXPAND_SIZE)"
  let ?s1 = "s\<lparr>sb_region := set_curr ?w (sb_region s)\<rparr>"
  let ?g1 = "g\<lparr>nsb := ?n + 16384, kind := (\<lambda>j. if ?n \<le> j \<and> j < ?n + 16384 then Held else kind g j)\<rparr>"
  have e: "sbk s ?n + SB_REGION_EXPAND_SIZE = sb_start s + (?n + 16384) * SBSIZE"
    unfolding expand_amount sbk_def by (simp add: algebra_simps)
  have 1: "heap_inv ?s1 ?g1"
    by (rule grow_ok [OF inv assms(2)]) (use fit e in simp_all)
  have sk: "sbk ?s1 = sbk s" "dsc ?s1 = dsc s" by (simp_all add: sbk_def dsc_def fun_eq_iff)
  obtain s2 where s2: "organize_sb_list (sbk ?s1 (?n + 1)) 16383 ?s1 = Inr s2"
    "heap_inv s2 (to_free (?n + 1) 16383 ?g1)" "same_blocks ?s1 s2" "sb_region s2 = sb_region ?s1"
    "\<And>j. j < ?n + 1 \<or> ?n + 1 + 16383 \<le> j \<Longrightarrow> desc_of s2 j = desc_of ?s1 j"
    using organize_ok [OF 1, of "?n + 1" 16383] by auto
  let ?g2 = "to_free (?n + 1) 16383 ?g1"
  have sk2: "sbk s2 = sbk s" "dsc s2 = dsc s"
    using s2(3) by (simp_all add: same_blocks_def sbk_def dsc_def fun_eq_iff)
  have look: "desc_lookup s2 (sbk s ?n) = dsc s ?n"
    using desc_lookup_in [OF heap_invD(1) [OF s2(2)] _ sbk_range, of ?n]
    by (simp add: to_free_def sk2)
  let ?s3 = "construct_desc (dsc s ?n) s2"
  have "heap_inv ?s3 ?g2"
    using held_desc_ok [OF s2(2), of ?n Descriptor_new]
    by (simp add: to_free_def construct_desc_def sk2 Descriptor_new_def)
  moreover have "small_sb_alloc SBSIZE s = Inr (sbk s ?n, ?s3)"
    using s2(1) fit look unfolding small_sb_alloc_empty [OF inv fr] expand_amount(2) by (simp add: sk)
  moreover have "desc_of ?s3 j = desc_of s j" if "j < ?n" for j
    using s2(5) [of j] that by (simp flip: sk2(2))
  moreover have "same_ghost_blocks g ?g2"
    using fr by (auto simp: same_ghost_blocks_def to_free_def used_def)
  moreover have "same_blocks s ?s3"
    using s2(3) by (simp add: same_blocks_def construct_desc_def)
  ultimately show ?thesis
    by (intro exI [of _ ?s3] exI [of _ ?g2]) (auto simp: to_free_def)
qed

lemma small_sb_alloc_ok:
  assumes inv: "heap_inv s g" and "1 \<le> nsb g" and room: "\<not> no_room s g"
  shows "\<exists>i s' g'. small_sb_alloc SBSIZE s = Inr (sbk s i, s') \<and> heap_inv s' g' \<and>
    used g' i \<and> kind g' i = Held \<and> same_blocks s s' \<and> same_ghost_blocks g g' \<and> nsb g \<le> nsb g' \<and>
    (used g i \<longrightarrow> kind g i = Free) \<and> (\<forall>j. used g j \<longrightarrow> desc_of s' j = desc_of s j) \<and>
    (\<forall>j. used g' j \<longrightarrow> kind g' j = Held \<longrightarrow> j = i \<or> used g j \<and> kind g j = Held)"
proof (cases "free g")
  case Nil
  then have "sbk s (nsb g) + SB_REGION_EXPAND_SIZE \<le> base_addr (sb_region s) + FILESIZE (sb_region s)"
    using room by (simp add: no_room_def sbk_def not_less)
  from small_sb_alloc_expand [OF inv assms(2) Nil this] obtain s' g' where
    *: "small_sb_alloc SBSIZE s = Inr (sbk s (nsb g), s')" "heap_inv s' g'" "nsb g' = nsb g + 16384"
      "kind g' (nsb g) = Held" "same_blocks s s'" "same_ghost_blocks g g'"
      "\<And>j. j < nsb g \<Longrightarrow> kind g' j = kind g j \<and> desc_of s' j = desc_of s j"
      "\<And>j. nsb g < j \<and> j < nsb g' \<Longrightarrow> kind g' j = Free" by blast
  have "j = nsb g \<or> used g j \<and> kind g j = Held" if "used g' j" "kind g' j = Held" for j
    using *(7,8) [of j] that by (cases j "nsb g" rule: linorder_cases) (auto simp: used_def)
  moreover have "\<forall>j. used g j \<longrightarrow> desc_of s' j = desc_of s j" using *(7) by (auto simp: used_def)
  moreover have "\<not> used g (nsb g)" "used g' (nsb g)" using *(3) assms(2) by (simp_all add: used_def)
  ultimately show ?thesis using * by (intro exI [of _ "nsb g"] exI [of _ s'] exI [of _ g']) simp
next
  case (Cons i fs)
  let ?g' = "g\<lparr>kind := (kind g)(i := Held), free := fs\<rparr>"
  obtain w where w: "small_sb_alloc SBSIZE s = Inr (sbk s i, s\<lparr>avail_sb := w\<rparr>)" "heap_inv (s\<lparr>avail_sb := w\<rparr>) ?g'"
    using small_sb_alloc_free [OF inv Cons] by blast
  have i: "used g i" "kind g i = Free" using avail_ptr(3) [OF inv Cons] by simp_all
  then have "same_ghost_blocks g ?g'" by (auto simp: same_ghost_blocks_def used_def)
  moreover have "desc_of (s\<lparr>avail_sb := w\<rparr>) j = desc_of s j" for j by (simp add: desc_of_def dsc_def)
  ultimately show ?thesis
    using w i by (intro exI [of _ i] exI [of _ "s\<lparr>avail_sb := w\<rparr>"] exI [of _ ?g'])
      (auto simp: same_blocks_def used_def)
qed

lemma small_sb_alloc_no_room:
  assumes "heap_inv s g" and "no_room s g"
  shows "small_sb_alloc SBSIZE s = Inl OutOfSpace"
  using assms(2) small_sb_alloc_empty [OF assms(1)] by (simp add: no_room_def sbk_def)

end
