(* ===== verification/HeapBlocks.thy ===== *)
theory HeapBlocks
  imports HeapLists
begin

text \<open>
  How blocks move between the free list of a superblock, a thread cache and the program. Each step
  touches one superblock and one cache; \<open>heap_inv_block_step\<close> says what has to be shown of them.
\<close>

section \<open>Facts about single blocks\<close>

lemma blocks_aligned:
  assumes "geom s n" and "sc_ok sc" and "b \<in> blocks s sc i"
  shows "8 dvd b"
proof -
  have "8 dvd sbk s i" using geom_bounds(10) [OF assms(1), of i] by (auto simp: pm_consts elim!: dvdE)
  then show ?thesis
    using assms bsize_props(2) [of sc] by (auto simp: blocks_def sc_ok_def intro: dvd_add)
qed

lemma small_blk_facts:
  assumes inv: "heap_inv s g" and b: "small_blk s g b i sc"
  shows "sc_ok sc" and "8 dvd b" and "b \<in> sb_range s i" and "b \<noteq> 0" and "user_addr b"
    and "desc_lookup s b = dsc s i" and "i < nsb g" and "b \<in> blocks s sc i" and "small_sb s g i sc"
    and "b + bsize sc \<le> sbk s i + SBSIZE" and "sbk s i \<le> b" and "b + 8 \<le> sbk s i + SBSIZE"
proof -
  note iv = heap_invD [OF inv]
  have bb: "used g i" "kind g i = Small sc" "b \<in> blocks s sc i" using b by (simp_all add: small_blk_def)
  show sc: "sc_ok sc" and "small_sb s g i sc"
    using small_ok_sc [OF iv(4) bb(1,2)] small_okD [OF iv(4) bb(1,2)] by simp_all
  show i: "i < nsb g" and "b \<in> blocks s sc i" using bb by (simp_all add: used_def)
  show r: "b \<in> sb_range s i" by (rule blk_range(1) [OF iv(4) b])
  show "8 dvd b" by (rule blocks_aligned [OF iv(1) sc bb(3)])
  show "b \<noteq> 0" using r geom_bounds(8) [OF iv(1), of i] by (auto simp: sb_range_def)
  show "user_addr b" using r geom_bounds(4) [OF iv(1) i] by (simp add: sb_range_def user_addr_def)
  show "desc_lookup s b = dsc s i" by (rule desc_lookup_in [OF iv(1) i r])
  show e: "b + bsize sc \<le> sbk s i + SBSIZE" and "sbk s i \<le> b"
    using blocks_in_sb [OF bb(3) sc] by simp_all
  show "b + 8 \<le> sbk s i + SBSIZE" using e bsize_props(1) [of sc] sc by (simp add: sc_ok_def)
qed

lemma own_blk:
  assumes "heap_inv s g"
  shows "own g b = InSb \<Longrightarrow> \<exists>i sc. small_blk s g b i sc"
    and "own g b = InCache t sc \<Longrightarrow> sc_ok sc \<and> (\<exists>i. small_blk s g b i sc)"
    and "own g b = User \<Longrightarrow> (\<exists>i sc. small_blk s g b i sc) \<or> (\<exists>i m. large_blk s g b i m)"
    and "linked (own g b) \<Longrightarrow> \<exists>i sc. small_blk s g b i sc"
proof -
  have "own_at s g b" using heap_invD(6) [OF assms] by (simp add: own_ok_def)
  then show "own g b = InSb \<Longrightarrow> \<exists>i sc. small_blk s g b i sc"
    "own g b = InCache t sc \<Longrightarrow> sc_ok sc \<and> (\<exists>i. small_blk s g b i sc)"
    "own g b = User \<Longrightarrow> (\<exists>i sc. small_blk s g b i sc) \<or> (\<exists>i m. large_blk s g b i m)"
    "linked (own g b) \<Longrightarrow> \<exists>i sc. small_blk s g b i sc"
    by (cases "own g b"; auto simp: own_at_def linked_def)+
qed

lemma small_blk_unique:
  assumes "heap_inv s g" and "small_blk s g b i sc" and "b \<in> sb_range s j"
  shows "i = j"
  using small_blk_facts(3) [OF assms(1,2)] assms(3) by (rule sb_range_unique)

lemma small_blk_kind: "small_blk s g b i sc \<Longrightarrow> used g i \<and> kind g i = Small sc"
  by (simp add: small_blk_def)

text \<open>Distinct free blocks never share a cell.\<close>

lemma blk_apart:
  assumes "heap_inv s g" and "small_blk s g a i sc" and "small_blk s g b j sc'" and "a \<noteq> b"
  shows "apart8 a b"
  using small_blk_facts(2) [OF assms(1,2)] small_blk_facts(2) [OF assms(1,3)] assms(4)
  by (rule apart8_aligned)

section \<open>The shape of a step\<close>

definition small_or_held :: "sbkind \<Rightarrow> bool" where
  "small_or_held k \<longleftrightarrow> k = Held \<or> (\<exists>sc. k = Small sc)"

lemma heap_inv_block_step:
  assumes inv: "heap_inv s g" and f: "frame {i} s g s' g'"
    and same: "nsb g' = nsb g" "sb_region s' = sb_region s" "avail_sb s' = avail_sb s" "free g' = free g"
      "\<And>sc. sc < MAX_SZ_IDX \<Longrightarrow> sc_idx (heaps s' sc) = sc_idx (heaps s sc)"
    and k: "used g i" "small_or_held (kind g i)" "small_or_held (kind g' i)"
    and small: "\<And>sc. kind g' i = Small sc \<Longrightarrow> small_sb s' g' i sc"
    and ow: "\<And>sc b. kind g' i = Small sc \<Longrightarrow> b \<in> blocks s sc i \<Longrightarrow>
        own g' b = InSb \<or> (\<exists>t. own g' b = InCache t sc) \<or> own g' b = User"
    and ow_none: "\<And>b. b \<in> sb_range s i \<Longrightarrow> (\<And>sc. kind g' i = Small sc \<Longrightarrow> b \<notin> blocks s sc i) \<Longrightarrow> own g' b = NoBlock"
    and part: "\<And>sc. sc_ok sc \<Longrightarrow> part_list_ok s' g' sc \<or>
      partial_list (heaps s' sc) = partial_list (heaps s sc) \<and> part g' sc = part g sc \<and>
      nonfull s' g' sc i = nonfull s g sc i \<and>
      (nonfull s g sc i \<longrightarrow> next_partial (desc_of s' i) = next_partial (desc_of s i))"
    and cache: "\<And>t sc. sc_ok sc \<Longrightarrow> cache_at s' g' t sc \<or>
      t_cache s' t sc = t_cache s t sc \<and> cached g' t sc = cached g t sc \<and>
      (\<forall>b. own g' b = InCache t sc \<longleftrightarrow> own g b = InCache t sc)"
  shows "heap_inv s' g'"
proof -
  note iv = heap_invD [OF inv]
  have u: "used g' i" using k(1) same(1) by (simp add: used_def)
  have s: "small_ok s' g'"
    by (rule small_ok_frame [OF iv(4) f]) (use small in auto)
  have "large_ok s' g'"
    by (rule large_ok_frame [OF iv(5) f]) (use k(2,3) same(1) in \<open>auto simp: small_or_held_def\<close>)
  moreover have "own_ok s' g'"
  proof (rule own_ok_frame [OF iv(6,4) s f])
    fix j b assume "j \<in> {i}" and b: "b \<in> sb_range s j"
    then have ji: "j = i" by simp
    with b have bi: "b \<in> sb_range s i" by simp
    have uq: "l = i" if "small_blk s' g' b l sc \<or> large_blk s' g' b l m" for l sc m
    proof -
      have "b \<in> sb_range s' l" using that blk_range(1) [OF s] blk_range(2) by blast
      then show ?thesis using bi frameD(6) [OF f] by (metis sb_range_unique)
    qed
    have nl: "\<not> large_blk s' g' b l m" for l m
    proof
      assume l: "large_blk s' g' b l m"
      then have "l = i" using uq by blast
      with l k(3) show False by (auto simp: large_blk_def small_or_held_def)
    qed
    show "own_at s' g' b"
    proof (cases "\<exists>sc. kind g' i = Small sc \<and> b \<in> blocks s sc i")
      case True
      then obtain sc where sc: "kind g' i = Small sc" "b \<in> blocks s sc i" by blast
      have sb: "small_blk s' g' b i sc" using sc u frameD(5) [OF f] by (simp add: small_blk_def)
      moreover have "sc_ok sc" by (rule small_ok_sc [OF s u sc(1)])
      ultimately show ?thesis
        using nl ow [OF sc] unfolding own_at_def by (elim disjE exE; simp; blast)
    next
      case False
      then have n: "own g' b = NoBlock" using ow_none [OF bi] by auto
      have "\<not> small_blk s' g' b l sc" for l sc
        using uq [of l] False unfolding small_blk_def frameD(5) [OF f] by blast
      then show ?thesis using n nl by (simp add: own_at_def)
    qed
  qed
  moreover have "part_ok s' g'"
  proof -
    have "part_list_ok s' g' sc" if "sc_ok sc" for sc
    proof -
      have "part_list_ok s g sc" using iv(3) that by (simp add: part_ok_def)
      then show ?thesis using part [OF that] part_list_ok_frame [OF _ f] by blast
    qed
    then show ?thesis using iv(3) same(5) by (simp add: part_ok_def)
  qed
  moreover have "cache_ok s' g'"
  proof -
    have "cache_at s' g' t sc" if "sc_ok sc" for t sc
    proof -
      have "cache_at s g t sc" using iv(7) that by (simp add: cache_ok_def)
      then show ?thesis using cache [OF that, of t] cache_at_frame [OF _ f] by blast
    qed
    then show ?thesis by (simp add: cache_ok_def)
  qed
  moreover have "free_ok s' g'"
    by (rule free_ok_frame [OF iv(2) f same(3,4)]) (use k in \<open>auto simp: small_or_held_def\<close>)
  moreover have "geom s' (nsb g')"
    using iv(1) same(1,2) frameD(1,2) [OF f] by (simp add: geom_def)
  moreover have "clean_ok s' g'"
    by (rule clean_ok_frame [OF iv(8) f]) (use k(3) u in \<open>auto simp: small_or_held_def\<close>)
  ultimately show ?thesis using s by (intro heap_invI) simp_all
qed

section \<open>Between a cache and the program\<close>

definition set_cached :: "nat \<Rightarrow> nat \<Rightarrow> addr list \<Rightarrow> ghost \<Rightarrow> ghost" where
  "set_cached t sc xs g = g\<lparr>cached := (cached g)(t := (cached g t)(sc := xs))\<rparr>"

definition set_own :: "addr set \<Rightarrow> owner \<Rightarrow> ghost \<Rightarrow> ghost" where
  "set_own B ow g = g\<lparr>own := (\<lambda>b. if b \<in> B then ow else own g b)\<rparr>"

lemma ghost_upd [simp]:
  "nsb (set_cached t sc xs g) = nsb g" "kind (set_cached t sc xs g) = kind g" "own (set_cached t sc xs g) = own g"
  "free (set_cached t sc xs g) = free g" "part (set_cached t sc xs g) = part g" "fl (set_cached t sc xs g) = fl g"
  "cached (set_cached t sc xs g) t' sc' = (if t' = t \<and> sc' = sc then xs else cached g t' sc')"
  "nsb (set_own B ow g) = nsb g" "kind (set_own B ow g) = kind g" "own (set_own B ow g) b = (if b \<in> B then ow else own g b)"
  "free (set_own B ow g) = free g" "part (set_own B ow g) = part g" "fl (set_own B ow g) = fl g"
  "cached (set_own B ow g) = cached g"
  by (simp_all add: set_cached_def set_own_def)

lemma used_upd [simp]:
  "used (set_cached t sc xs g) i = used g i" "used (set_own B ow g) i = used g i"
  "used (g\<lparr>kind := k\<rparr>) i = used g i" "used (g\<lparr>fl := f\<rparr>) i = used g i" "used (g\<lparr>part := p\<rparr>) i = used g i"
  by (simp_all add: used_def)

lemma set_cache_simps [simp]:
  "t_cache (set_cache t sc c s) t' sc' = (if t' = t \<and> sc' = sc then c else t_cache s t' sc')"
  "mem (set_cache t sc c s) = mem s" "descs (set_cache t sc c s) = descs s" "heaps (set_cache t sc c s) = heaps s"
  "sb_region (set_cache t sc c s) = sb_region s" "sb_start (set_cache t sc c s) = sb_start s"
  "desc_start (set_cache t sc c s) = desc_start s" "avail_sb (set_cache t sc c s) = avail_sb s"
  "roots (set_cache t sc c s) = roots s"
  by (simp_all add: set_cache_def)

lemma cacheD: "heap_inv s g \<Longrightarrow> sc_ok sc \<Longrightarrow> cache_at s g t sc"
  using heap_invD(7) by (simp add: cache_ok_def)

lemma cached_own:
  assumes "heap_inv s g" and "sc_ok sc" and "b \<in> set (cached g t sc)"
  shows "own g b = InCache t sc" and "\<exists>i. small_blk s g b i sc"
proof -
  show "own g b = InCache t sc"
    using cacheD [OF assms(1,2), of t] assms(3) by (auto simp: cache_at_def)
  then show "\<exists>i. small_blk s g b i sc" using own_blk(2) [OF assms(1)] by blast
qed

lemma small_sb_ownD:
  assumes inv: "heap_inv s g" and "used g i" and "kind g i = Small sc"
  shows "b \<in> blocks s sc i \<Longrightarrow> own g b = InSb \<or> (\<exists>t. own g b = InCache t sc) \<or> own g b = User"
    and "b \<in> sb_range s i \<Longrightarrow> b \<notin> blocks s sc i \<Longrightarrow> own g b = NoBlock"
proof -
  note iv = heap_invD [OF inv]
  have at: "own_at s g b" using iv(6) by (simp add: own_ok_def)
  have uq: "l = i" if "small_blk s g b l sc' \<or> large_blk s g b l m" "b \<in> sb_range s i" for l sc' m
    using that blk_range(1) [OF iv(4)] blk_range(2) sb_range_unique by metis
  have kinds: "small_blk s g b l sc' \<Longrightarrow> b \<in> sb_range s i \<Longrightarrow> l = i \<and> sc' = sc"
    "large_blk s g b l m \<Longrightarrow> b \<in> sb_range s i \<Longrightarrow> False" for l sc' m
    using uq [of l sc' m] assms(3) by (auto simp: small_blk_def large_blk_def)
  show "own g b = InSb \<or> (\<exists>t. own g b = InCache t sc) \<or> own g b = User" if b: "b \<in> blocks s sc i"
  proof -
    have sb: "small_blk s g b i sc" using b assms(2,3) by (simp add: small_blk_def)
    have r: "b \<in> sb_range s i" by (rule blk_range(1) [OF iv(4) sb])
    show ?thesis
    proof (cases "own g b")
      case NoBlock then show ?thesis using at sb by (auto simp: own_at_def)
    next
      case (InCache t sc')
      then obtain l where "small_blk s g b l sc'" using own_blk(2) [OF inv] by blast
      then show ?thesis using kinds(1) r InCache by blast
    qed simp_all
  qed
  show "own g b = NoBlock" if b: "b \<in> sb_range s i" "b \<notin> blocks s sc i"
  proof -
    have "\<not> small_blk s g b l sc'" for l sc' using kinds(1) [of l sc'] b by (auto simp: small_blk_def)
    moreover have "\<not> large_blk s g b l m" for l m using kinds(2) b by blast
    ultimately show ?thesis using at by (cases "own g b") (auto simp: own_at_def)
  qed
qed

lemma small_sb_cong:
  assumes sb: "small_sb s g i sc" and "sb_start s' = sb_start s" and "sbk s' = sbk s" and bl: "blocks s' = blocks s"
    and "desc_of s' i = desc_of s i" and fl: "fl g' i = fl g i"
    and own: "\<And>b. b \<in> blocks s sc i \<Longrightarrow> own g' b = InSb \<longleftrightarrow> own g b = InSb"
    and rd: "\<And>b. b \<in> set (fl g i) \<Longrightarrow> read_pptr (mem s') b = read_pptr (mem s) b"
  shows "small_sb s' g' i sc"
proof -
  have "{b \<in> blocks s sc i. own g' b = InSb} = {b \<in> blocks s sc i. own g b = InSb}" using own by blast
  moreover have "small_at (mem s') (sb_start s) (sbk s i) sc (desc_of s i) (fl g i)"
    using sb small_at_cong [of "fl g i", OF rd] by (metis small_sb_def)
  ultimately show ?thesis using assms(1-6) unfolding small_sb_def by presburger
qed

lemma pop_block_ok:
  assumes inv: "heap_inv s g" and sc: "sc_ok sc" and c: "cached g t sc = b # bs"
  shows "\<exists>c. pop_block (mem s) (t_cache s t sc) = Inr (b, c) \<and>
    heap_inv (set_cache t sc c s) (set_own {b} User (set_cached t sc bs g))"
proof -
  note ca = cacheD [OF inv sc, of t, unfolded cache_at_def c]
  obtain c where pc: "pop_block (mem s) (t_cache s t sc) = Inr (b, c)" "cache_list (mem s) c bs"
    using pop_block_list [of "mem s" "t_cache s t sc" b bs] ca by blast
  have ob: "own g b = InCache t sc" and "\<exists>i. small_blk s g b i sc"
    using cached_own [OF inv sc, of b t] c by simp_all
  then obtain i where i: "small_blk s g b i sc" by blast
  note bf = small_blk_facts [OF inv i]
  have k: "used g i" "kind g i = Small sc" using i by (simp_all add: small_blk_def)
  let ?s' = "set_cache t sc c s" and ?g' = "set_own {b} User (set_cached t sc bs g)"
  have sb: "small_sb ?s' ?g' i sc" by (rule small_sb_cong [OF bf(9)]) (use ob in auto)
  have "heap_inv ?s' ?g'"
  proof (rule heap_inv_block_step [OF inv])
    show "frame {i} s g ?s' ?g'"
      using bf(3) by (auto simp: frame_def)
    show "small_sb ?s' ?g' i sc'" if "kind ?g' i = Small sc'" for sc'
      using that k sb by simp
    show "own ?g' x = InSb \<or> (\<exists>t. own ?g' x = InCache t sc') \<or> own ?g' x = User"
      if "kind ?g' i = Small sc'" "x \<in> blocks s sc' i" for sc' x
      using that k small_sb_ownD(1) [OF inv k, of x] by auto
    show "own ?g' x = NoBlock" if "x \<in> sb_range s i" "\<And>sc. kind ?g' i = Small sc \<Longrightarrow> x \<notin> blocks s sc i" for x
      using that k small_sb_ownD(2) [OF inv k, of x] bf(8) by auto
    show "cache_at ?s' ?g' t' sc' \<or> t_cache ?s' t' sc' = t_cache s t' sc' \<and> cached ?g' t' sc' = cached g t' sc' \<and>
        (\<forall>b. own ?g' b = InCache t' sc' \<longleftrightarrow> own g b = InCache t' sc')" for t' sc'
      using pc(2) ca ob by (cases "t' = t \<and> sc' = sc") (auto simp: cache_at_def)
    show "small_or_held (kind g i)" "small_or_held (kind ?g' i)" using k by (simp_all add: small_or_held_def)
  qed (use k in \<open>simp_all add: nonfull_def\<close>)
  with pc(1) show ?thesis by blast
qed

lemma write_other_link:
  assumes "heap_inv s g" and "small_blk s g a i sc" and "linked (own g b)" and "b \<noteq> a"
  shows "read_pptr (write_pptr a v m) b = read_pptr m b"
proof -
  obtain j sc' where "small_blk s g b j sc'" using own_blk(4) [OF assms(1,3)] by blast
  then have "apart8 a b" using blk_apart [OF assms(1,2)] assms(4) by blast
  then show ?thesis by (rule read_write_pptr_other)
qed

lemma push_block_ok:
  assumes inv: "heap_inv s g" and b: "own g b = User" and i: "small_blk s g b i sc"
    and len: "length (cached g t sc) < nblocks sc"
  shows "heap_inv (set_cache t sc (fst (push_block b (t_cache s t sc, mem s))) (s\<lparr>mem := snd (push_block b (t_cache s t sc, mem s))\<rparr>))
    (set_own {b} (InCache t sc) (set_cached t sc (b # cached g t sc) g))"
proof -
  note bf = small_blk_facts [OF inv i]
  let ?p = "push_block b (t_cache s t sc, mem s)"
  let ?s' = "set_cache t sc (fst ?p) (s\<lparr>mem := snd ?p\<rparr>)"
  let ?g' = "set_own {b} (InCache t sc) (set_cached t sc (b # cached g t sc) g)"
  have k: "used g i" "kind g i = Small sc" using i by (simp_all add: small_blk_def)
  note ca = cacheD [OF inv bf(1), of t, unfolded cache_at_def]
  have m: "snd ?p = write_pptr b (tc_block (t_cache s t sc)) (mem s)" by (simp add: push_block_def)
  have rd: "read_pptr (snd ?p) x = read_pptr (mem s) x" if "linked (own g x)" "x \<noteq> b" for x
    unfolding m by (rule write_other_link [OF inv i that])
  have bn: "b \<notin> set (cached g t sc)" "b \<notin> set (fl g i)"
    using ca b bf(9) by (auto simp: small_sb_def)
  have "cache_list (snd ?p) (fst ?p) (b # cached g t sc)"
  proof (rule push_block_list)
    show "cache_list (mem s) (t_cache s t sc) (cached g t sc)" using ca by simp
    show "user_addr x \<and> apart8 b x" if x: "x \<in> set (cached g t sc)" for x
    proof -
      obtain j where j: "small_blk s g x j sc" using cached_own(2) [OF inv bf(1) x] by blast
      then show ?thesis using small_blk_facts(5) [OF inv j] blk_apart [OF inv i j] x bn by auto
    qed
    show "length (cached g t sc) < 2 ^ 32 - 1"
      using len nblocks_props(3) [of sc] bf(1) by (simp add: sc_ok_def)
  qed (rule bf(5))
  then have cache: "cache_at ?s' ?g' t sc"
    using ca len bn b by (auto simp: cache_at_def)
  have sb: "small_sb ?s' ?g' i sc"
  proof (rule small_sb_cong [OF bf(9)])
    show "read_pptr (mem ?s') x = read_pptr (mem s) x" if "x \<in> set (fl g i)" for x
      using that bn bf(9) rd [of x] by (auto simp: small_sb_def linked_def)
  qed (use b in auto)
  show ?thesis
  proof (rule heap_inv_block_step [OF inv])
    show "frame {i} s g ?s' ?g'"
      using bf(3) rd b by (auto simp: frame_def)
    show "small_sb ?s' ?g' i sc'" if "kind ?g' i = Small sc'" for sc'
      using that k sb by simp
    show "own ?g' x = InSb \<or> (\<exists>t. own ?g' x = InCache t sc') \<or> own ?g' x = User"
      if "kind ?g' i = Small sc'" "x \<in> blocks s sc' i" for sc' x
      using that k small_sb_ownD(1) [OF inv k, of x] by auto
    show "own ?g' x = NoBlock" if "x \<in> sb_range s i" "\<And>sc. kind ?g' i = Small sc \<Longrightarrow> x \<notin> blocks s sc i" for x
      using that k small_sb_ownD(2) [OF inv k, of x] bf(8) by auto
    show "cache_at ?s' ?g' t' sc' \<or> t_cache ?s' t' sc' = t_cache s t' sc' \<and> cached ?g' t' sc' = cached g t' sc' \<and>
        (\<forall>b. own ?g' b = InCache t' sc' \<longleftrightarrow> own g b = InCache t' sc')" for t' sc'
      using cache b by (cases "t' = t \<and> sc' = sc") auto
    show "small_or_held (kind g i)" "small_or_held (kind ?g' i)" using k by (simp_all add: small_or_held_def)
  qed (use k in \<open>simp_all add: nonfull_def\<close>)
qed

section \<open>Cutting a new superblock into blocks\<close>

definition block_list :: "ralloc \<Rightarrow> nat \<Rightarrow> nat \<Rightarrow> addr list" where
  "block_list s sc i = map (\<lambda>k. sbk s i + k * bsize sc) [0..<nblocks sc]"

lemma block_list_props:
  assumes "sc_ok sc"
  shows "set (block_list s sc i) = blocks s sc i" and "distinct (block_list s sc i)"
    and "length (block_list s sc i) = nblocks sc"
proof -
  have "bsize sc \<noteq> 0" using bsize_props(1) [of sc] assms by (simp add: sc_ok_def)
  then show "distinct (block_list s sc i)"
    by (auto simp: block_list_def distinct_map inj_on_def)
qed (auto simp: block_list_def blocks_def)

lemma link_blocks_run:
  assumes "8 \<le> bs" and "(n + 1) * bs \<le> 65536" and "user_addr (p + 65536)"
  shows "run (read_pptr (link_blocks p bs n m)) p (map (\<lambda>k. p + k * bs) [0..<n + 1])"
    and "\<And>x. x < p \<or> p + n * bs \<le> x \<Longrightarrow> link_blocks p bs n m x = m x"
  using assms
proof (induction n)
  case 0
  { case 1 show ?case by simp }
  { case 2 show ?case by (simp add: link_blocks_def) }
next
  case (Suc n)
  let ?m = "link_blocks p bs n m" and ?xs = "map (\<lambda>k. p + k * bs) [0..<n + 1]"
  have b: "n * bs + bs + bs \<le> 65536" if "(Suc n + 1) * bs \<le> 65536" using that by simp
  have st: "link_blocks p bs (Suc n) m = write_pptr (p + n * bs) (p + (n + 1) * bs) ?m"
    if "(Suc n + 1) * bs \<le> 65536"
    using b [OF that] by (simp add: link_blocks_def)
  { case 1
    have r: "run (read_pptr ?m) p ?xs" using Suc.IH(1) 1 by simp
    have l: "last ?xs = p + n * bs" "butlast ?xs = map (\<lambda>k. p + k * bs) [0..<n]" by simp_all
    have ap: "apart8 (last ?xs) x" if x: "x \<in> set (butlast ?xs)" for x
    proof -
      obtain k where "k < n" "x = p + k * bs" using x unfolding l by auto
      moreover from this have "(k + 1) * bs \<le> n * bs" by (intro mult_le_mono1) simp
      ultimately show ?thesis using 1(1) l by (simp add: apart8_def)
    qed
    have u: "user_addr (last ?xs)" "user_addr (p + (n + 1) * bs)"
      using 1(3) b [OF 1(2)] l by (simp_all add: user_addr_def)
    have "run (read_pptr (write_pptr (last ?xs) (p + (n + 1) * bs) ?m)) p (?xs @ [p + (n + 1) * bs])"
      by (rule blk.run_link [OF r _ _ u]) (use ap in simp_all)
    then show ?case using st [OF 1(2)] l by simp }
  { case 2
    have "?m x = m x" using Suc.IH(2) [of x] 2 by (auto simp: algebra_simps)
    moreover have "write_pptr (p + n * bs) (p + (n + 1) * bs) ?m x = ?m x"
      using 2(1,2) by (intro write_pptr_outside) auto
    ultimately show ?case using st [OF 2(3)] by simp }
qed

definition cut_ghost :: "nat \<Rightarrow> nat \<Rightarrow> nat \<Rightarrow> ralloc \<Rightarrow> ghost \<Rightarrow> ghost" where
  "cut_ghost t sc i s g = set_own (blocks s sc i) (InCache t sc) (set_cached t sc (block_list s sc i)
    (g\<lparr>kind := (kind g)(i := Small sc), fl := (fl g)(i := [])\<rparr>))"

lemma cut_ok:
  assumes inv: "heap_inv s g" and i: "used g i" "kind g i = Held" and sc: "sc_ok sc" and ca: "cached g t sc = []"
    and d: "heap d = Some sc" "desc_block_size d = bsize sc" "maxcount d = nblocks sc"
      "CrossPtr_cast (sb_start s) (superblock d) = sbk s i" "state (anchor d) = SB_FULL" "count (anchor d) = 0"
  shows "heap_inv (set_cache t sc \<lparr>tc_block = sbk s i, tc_num = nblocks sc\<rparr>
      (s\<lparr>descs := (descs s)(dsc s i := d), mem := link_blocks (sbk s i) (bsize sc) (nblocks sc - 1) (mem s)\<rparr>))
    (cut_ghost t sc i s g)"
proof -
  note iv = heap_invD [OF inv]
  let ?m = "link_blocks (sbk s i) (bsize sc) (nblocks sc - 1) (mem s)"
  let ?s0 = "s\<lparr>descs := (descs s)(dsc s i := d)\<rparr>"
  let ?s' = "set_cache t sc \<lparr>tc_block = sbk s i, tc_num = nblocks sc\<rparr> (?s0\<lparr>mem := ?m\<rparr>)"
  let ?g' = "cut_ghost t sc i s g"
  note blp = block_list_props [OF sc, of s i]
  have none: "own g b = NoBlock" if "b \<in> sb_range s i" for b
    by (rule own_none [OF iv(6,4) that]) (simp add: i)
  have none': "own g b = NoBlock" if "b \<in> blocks s sc i" for b
    using none blocks_range [OF that sc] by blast
  have nb: "4 \<le> nblocks sc" "nblocks sc * bsize sc \<le> 65536" "8 \<le> bsize sc"
    using nblocks_props [of sc] bsize_props(1) [of sc] sc by (simp_all add: sc_ok_def SBSIZE_def PAGESIZE_def)
  have n1: "nblocks sc - 1 + 1 = nblocks sc" using nb(1) by simp
  have u: "user_addr (sbk s i + 65536)"
    using geom_bounds(4) [OF iv(1), of i] i(1) by (simp add: used_def SBSIZE_def PAGESIZE_def)
  note lk = link_blocks_run [where bs = "bsize sc" and n = "nblocks sc - 1" and p = "sbk s i" and m = "mem s",
      unfolded n1, OF nb(3,2) u]
  have rd: "read_pptr ?m b = read_pptr (mem s) b" if lb: "linked (own g b)" for b
  proof -
    obtain j sc' where j: "small_blk s g b j sc'" using own_blk(4) [OF inv lb] by blast
    have "j \<noteq> i" using j i by (auto simp: small_blk_def)
    then have "b + 8 \<le> sbk s i \<or> sbk s i + SBSIZE \<le> b"
      using small_blk_facts(11,12) [OF inv j] sbk_mono [of i j s] sbk_mono [of j i s] by linarith
    moreover have "(nblocks sc - 1) * bsize sc \<le> SBSIZE"
      using nb(2) by (simp add: diff_mult_distrib SBSIZE_def PAGESIZE_def)
    ultimately have "?m x = mem s x" if "b \<le> x" "x < b + 8" for x
      using lk(2) [of x] that by linarith
    then show ?thesis using load64_cong [of b ?m "mem s"] by (simp add: read_pptr_def)
  qed
  have own': "own ?g' b = (if b \<in> blocks s sc i then InCache t sc else own g b)" for b
    by (simp add: cut_ghost_def set_cached_def)
  have cache: "cache_at ?s' ?g' t sc"
  proof -
    have "cache_list ?m \<lparr>tc_block = sbk s i, tc_num = nblocks sc\<rparr> (block_list s sc i)"
      using lk(1) blp(3) by (simp add: cache_list_def block_list_def)
    moreover have "blocks s sc i = {b. own ?g' b = InCache t sc}"
      using cacheD [OF inv sc, of t] ca by (auto simp: own' cache_at_def)
    ultimately show ?thesis using blp by (simp add: cache_at_def cut_ghost_def)
  qed
  have "{b \<in> blocks s sc i. own ?g' b = InSb} = {}" by (auto simp: own')
  then have sb: "small_sb ?s' ?g' i sc"
    using d sc by (simp add: small_sb_def small_at_def) (simp add: cut_ghost_def)
  show ?thesis
  proof (rule heap_inv_block_step [OF inv, of i])
    show "frame {i} s g ?s' ?g'"
      using rd none' blocks_range [OF _ sc, of _ s i] unfolding frame_def own'
      by (auto simp: cut_ghost_def linked_def)
    show "small_sb ?s' ?g' i sc'" if "kind ?g' i = Small sc'" for sc'
      using that sb by (simp add: cut_ghost_def)
    show "own ?g' x = InSb \<or> (\<exists>t. own ?g' x = InCache t sc') \<or> own ?g' x = User"
      if "kind ?g' i = Small sc'" "x \<in> blocks s sc' i" for sc' x
      using that by (simp add: own') (simp add: cut_ghost_def)
    show "own ?g' x = NoBlock" if "x \<in> sb_range s i" "\<And>sc. kind ?g' i = Small sc \<Longrightarrow> x \<notin> blocks s sc i" for x
      using that none [of x] unfolding own' by (simp add: cut_ghost_def)
    show "cache_at ?s' ?g' t' sc' \<or> t_cache ?s' t' sc' = t_cache s t' sc' \<and> cached ?g' t' sc' = cached g t' sc' \<and>
        (\<forall>b. own ?g' b = InCache t' sc' \<longleftrightarrow> own g b = InCache t' sc')" for t' sc'
      using cache none' by (cases "t' = t \<and> sc' = sc") (auto simp: own', simp_all add: cut_ghost_def)
    show "small_or_held (kind g i)" "small_or_held (kind ?g' i)"
      using i by (simp_all add: small_or_held_def cut_ghost_def)
    show "part_list_ok ?s' ?g' sc' \<or> partial_list (heaps ?s' sc') = partial_list (heaps s sc') \<and>
        part ?g' sc' = part g sc' \<and> nonfull ?s' ?g' sc' i = nonfull s g sc' i \<and>
        (nonfull s g sc' i \<longrightarrow> next_partial (desc_of ?s' i) = next_partial (desc_of s i))" for sc'
      using i(2) d(5) by (simp add: nonfull_def) (simp add: cut_ghost_def)
  qed (simp_all add: cut_ghost_def i)
qed

lemma malloc_from_newsb_ok:
  assumes inv: "heap_inv s g" and "1 \<le> nsb g" and sc: "sc_ok sc" and ca: "cached g t sc = []" and room: "\<not> no_room s g"
  shows "\<exists>i s1 g1 s'. malloc_from_newsb t sc s = Inr (nblocks sc, s') \<and> heap_inv s' (cut_ghost t sc i s1 g1) \<and>
    used g1 i \<and> kind g1 i = Held \<and> heap_inv s1 g1 \<and> same_ghost_blocks g g1 \<and> same_blocks s s1 \<and> nsb g \<le> nsb g1 \<and>
    (used g i \<longrightarrow> kind g i = Free) \<and>
    (\<forall>j. used g1 j \<longrightarrow> kind g1 j = Held \<longrightarrow> j = i \<or> used g j \<and> kind g j = Held) \<and>
    mem s' = link_blocks (sbk s i) (bsize sc) (nblocks sc - 1) (mem s) \<and>
    (\<forall>j. used g j \<longrightarrow> j \<noteq> i \<longrightarrow> desc_of s' j = desc_of s j) \<and> desc_block_size (desc_of s' i) = bsize sc \<and>
    sb_start s' = sb_start s \<and> desc_start s' = desc_start s \<and> roots s' = roots s"
proof -
  obtain i s1 g1 where a: "small_sb_alloc SBSIZE s = Inr (sbk s i, s1)" "heap_inv s1 g1" "used g1 i" "kind g1 i = Held"
    "same_blocks s s1" "same_ghost_blocks g g1" "nsb g \<le> nsb g1" "used g i \<longrightarrow> kind g i = Free"
    "\<And>j. used g j \<Longrightarrow> desc_of s1 j = desc_of s j"
    "\<And>j. used g1 j \<Longrightarrow> kind g1 j = Held \<Longrightarrow> j = i \<or> used g j \<and> kind g j = Held"
    using small_sb_alloc_ok [OF inv assms(2) room] by blast
  note iv = heap_invD [OF a(2)]
  have sk: "sbk s1 = sbk s" "mem s1 = mem s" "sb_start s1 = sb_start s" "t_cache s1 = t_cache s"
    using a(5) by (simp_all add: same_blocks_def sbk_def fun_eq_iff)
  have il: "1 \<le> i" "i < nsb g1" using a(3) by (simp_all add: used_def)
  have look: "desc_lookup s1 (sbk s i) = dsc s1 i"
    using desc_lookup_in [OF iv(1) il(2) sbk_range] by (simp add: sk)
  have cast: "CrossPtr_cast (sb_start s) (CrossPtr_assign (sb_start s) (sbk s i)) = sbk s i"
    using geom_bounds(3) [OF iv(1), of i] il by (intro CrossPtr_cast_assign) (simp_all add: sk, simp add: sbk_def pm_consts)
  have nz: "sbk s i \<noteq> 0" using geom_bounds(8) [OF iv(1), of i] by (simp add: sk)
  have ca1: "cached g1 t sc = []" using a(6) ca by (simp add: same_ghost_blocks_def)
  have n0: "tc_num (t_cache s t sc) = 0"
    using cacheD [OF inv sc, of t] ca by (simp add: cache_at_def cache_list_def)
  note sf = sizeclass_fields [of sc] and nb = nblocks_props [of sc]
  let ?a = "set_state SB_FULL (set_count 0 (set_avail (nblocks sc) (Anchor_of_word 0)))"
  let ?d = "(desc_of s1 i)\<lparr>heap := Some sc, desc_block_size := bsize sc, maxcount := nblocks sc,
      superblock := CrossPtr_assign (sb_start s) (sbk s i), anchor := ?a\<rparr>"
  let ?s' = "set_cache t sc \<lparr>tc_block = sbk s1 i, tc_num = nblocks sc\<rparr>
      (s1\<lparr>descs := (descs s1)(dsc s1 i := ?d), mem := link_blocks (sbk s1 i) (bsize sc) (nblocks sc - 1) (mem s1)\<rparr>)"
  have fa: "state ?a = SB_FULL" "count ?a = 0" by (simp_all add: set_state_def set_count_def)
  have "malloc_from_newsb t sc s = Inr (nblocks sc, ?s')"
    using a(1) look nz n0 sf nb sc fa
    by (simp add: malloc_from_newsb_def Let_def get_block_num_def sc_ok_def push_list_def upd_desc_def sk desc_of_def)
      (simp add: set_cache_def sk)
  moreover have "heap_inv ?s' (cut_ghost t sc i s1 g1)"
    by (rule cut_ok [OF a(2-4) sc ca1]) (use cast fa in \<open>simp_all add: sk\<close>)
  moreover have "desc_of ?s' j = desc_of s j" if "used g j" "j \<noteq> i" for j
    using a(9) [OF that(1)] that(2) by simp
  ultimately show ?thesis
    using a(2-8,10) by (intro exI [of _ i] exI [of _ s1] exI [of _ g1] exI [of _ ?s'])
      (auto simp: sk same_blocks_def)
qed

end
