(* ===== verification/HeapLive.thy ===== *)
theory HeapLive
  imports HeapBlocks
begin

text \<open>
  What the program sees of the heap: its blocks, their sizes and their bytes. Blocks never overlap,
  and an \<open>internal\<close> step of the allocator leaves all blocks of the program alone.
\<close>

section \<open>Extents\<close>

text \<open>The size the allocator reports for a block (\<^verbatim>\<open>RP_malloc_size\<close>): the block size of its descriptor.\<close>

definition msize :: "ralloc \<Rightarrow> addr \<Rightarrow> nat" where
  "msize s b = desc_block_size (descs s (desc_lookup s b))"

definition extent :: "ralloc \<Rightarrow> addr \<Rightarrow> addr set" where
  "extent s b = {b..<b + msize s b}"

lemma large_blk_facts:
  assumes inv: "heap_inv s g" and b: "large_blk s g b i m"
  shows "desc_lookup s b = dsc s i" and "msize s b = m * SBSIZE" and "0 < m" and "i + m \<le> nsb g" and "used g i"
    and "\<And>j. i < j \<Longrightarrow> j < i + m \<Longrightarrow> kind g j = Tail" and "b = sbk s i" and "kind g i = Large m"
    and "large_at (sb_start s) (sbk s i) m (desc_of s i)" and "m * SBSIZE < 2 ^ 32"
proof -
  note iv = heap_invD [OF inv]
  show i: "used g i" "kind g i = Large m" "b = sbk s i" using b by (simp_all add: large_blk_def)
  with iv(5) show l: "0 < m" "i + m \<le> nsb g" "large_at (sb_start s) (sbk s i) m (desc_of s i)" "m * SBSIZE < 2 ^ 32"
    "\<And>j. i < j \<Longrightarrow> j < i + m \<Longrightarrow> kind g j = Tail"
    unfolding large_ok_def by blast+
  show d: "desc_lookup s b = dsc s i"
    unfolding i(3) using i(1) by (intro desc_lookup_in [OF iv(1)]) (simp_all add: used_def)
  show "msize s b = m * SBSIZE"
    using d l(3) by (simp add: msize_def large_at_def desc_of_def)
qed

lemma small_blk_msize:
  assumes "heap_inv s g" and "small_blk s g b i sc"
  shows "msize s b = bsize sc"
  using small_blk_facts(6,9) [OF assms] by (simp add: msize_def small_sb_def small_at_def desc_of_def)

text \<open>The superblocks a block lies in.\<close>

definition covers :: "ralloc \<Rightarrow> ghost \<Rightarrow> addr \<Rightarrow> nat \<Rightarrow> bool" where
  "covers s g b j \<longleftrightarrow> (\<exists>sc. small_blk s g b j sc) \<or> (\<exists>i m. large_blk s g b i m \<and> i \<le> j \<and> j < i + m)"

lemma extent_covers:
  assumes inv: "heap_inv s g" and b: "own g b \<noteq> NoBlock" and x: "x \<in> extent s b"
  shows "\<exists>j. covers s g b j \<and> x \<in> sb_range s j"
proof -
  consider (small) i sc where "small_blk s g b i sc" | (large) i m where "large_blk s g b i m"
    using b own_blk [OF inv, of b] by (cases "own g b") blast+
  then show ?thesis
  proof cases
    case small
    then have "x \<in> sb_range s i"
      using x small_blk_facts(10,11) [OF inv small] small_blk_msize [OF inv small]
      by (auto simp: extent_def sb_range_def)
    then show ?thesis using small by (auto simp: covers_def)
  next
    case large
    note l = large_blk_facts [OF inv large]
    let ?j = "i + (x - b) div SBSIZE"
    have sz: "(0 :: nat) < SBSIZE" by (simp add: pm_consts)
    have x': "b \<le> x" "x - b < m * SBSIZE" using x l(2) by (auto simp: extent_def)
    then have lt: "(x - b) div SBSIZE < m" using sz by (simp add: less_mult_imp_div_less)
    have "x \<in> sb_range s ?j"
    proof -
      have "x - b = (x - b) div SBSIZE * SBSIZE + (x - b) mod SBSIZE" by simp
      moreover have "(x - b) mod SBSIZE < SBSIZE" using sz by simp
      ultimately have "b + (x - b) div SBSIZE * SBSIZE \<le> x \<and> x < b + (x - b) div SBSIZE * SBSIZE + SBSIZE"
        using x'(1) by linarith
      then show ?thesis unfolding sb_range_def sbk_add l(7) [symmetric] by simp
    qed
    moreover have "covers s g b ?j"
      unfolding covers_def using large lt by (metis le_add1 nat_add_left_cancel_less)
    ultimately show ?thesis by blast
  qed
qed

lemma covers_kind:
  assumes "heap_inv s g" and "covers s g b j"
  shows "used g j" and "kind g j \<noteq> Free" and "kind g j \<noteq> Held"
proof -
  have *: "used g j \<and> kind g j \<noteq> Free \<and> kind g j \<noteq> Held"
    using assms(2) unfolding covers_def
  proof (elim disjE exE conjE)
    fix i m assume l: "large_blk s g b i m" "i \<le> j" "j < i + m"
    note lf = large_blk_facts [OF assms(1) l(1)]
    show ?thesis
    proof (cases "j = i")
      case False
      then show ?thesis using lf(6) [of j] l(2,3) lf(4,5) by (simp add: used_def)
    qed (use lf in simp)
  qed (simp add: small_blk_def)
  then show "used g j" "kind g j \<noteq> Free" "kind g j \<noteq> Held" by simp_all
qed

lemma covers_large_unique:
  assumes inv: "heap_inv s g" and a: "large_blk s g a i m" "i \<le> j" "j < i + m"
    and b: "large_blk s g b i' m'" "i' \<le> j" "j < i' + m'"
  shows "i = i'"
proof (rule ccontr)
  assume "i \<noteq> i'"
  note la = large_blk_facts [OF inv a(1)] and lb = large_blk_facts [OF inv b(1)]
  show False
  proof (cases "i < i'")
    case True
    then show False using la(6) [of i'] lb(8) a b by simp
  next
    case False
    then show False using lb(6) [of i] la(8) a b \<open>i \<noteq> i'\<close> by simp
  qed
qed

text \<open>Two blocks, whoever owns them, never share a byte.\<close>

lemma small_stride:
  assumes "b \<in> blocks s sc i" and "a \<in> blocks s sc i" and "a < b"
  shows "a + bsize sc \<le> b"
proof -
  obtain k l where kl: "b = sbk s i + k * bsize sc" "a = sbk s i + l * bsize sc"
    using assms(1,2) by (auto simp: blocks_def)
  then have "l < k" using assms(3) by simp
  then have "(l + 1) * bsize sc \<le> k * bsize sc" by (intro mult_le_mono1) simp
  then show ?thesis by (simp add: kl)
qed

lemma extent_disjoint:
  assumes inv: "heap_inv s g" and a: "own g a \<noteq> NoBlock" and b: "own g b \<noteq> NoBlock" and "a \<noteq> b"
  shows "extent s a \<inter> extent s b = {}"
proof (rule ccontr)
  assume "extent s a \<inter> extent s b \<noteq> {}"
  then obtain x where x: "x \<in> extent s a" "x \<in> extent s b" by blast
  obtain j where j: "covers s g a j" "x \<in> sb_range s j" using extent_covers [OF inv a x(1)] by blast
  obtain j' where j': "covers s g b j'" "x \<in> sb_range s j'" using extent_covers [OF inv b x(2)] by blast
  have e: "j' = j" using j(2) j'(2) sb_range_unique by blast
  have k: "kind g j = Small sc" if "small_blk s g c j sc" for c sc using that by (simp add: small_blk_def)
  have kl: "kind g j \<noteq> Small sc" if "large_blk s g c i m" "i \<le> j" "j < i + m" for c i m sc
    using large_blk_facts(6,8) [OF inv that(1)] that(2,3) by (cases "j = i") auto
  show False
    using j(1) j'(1) unfolding covers_def e
  proof (elim disjE exE conjE)
    fix sc sc' assume s: "small_blk s g a j sc" "small_blk s g b j sc'"
    then have eq: "sc' = sc" using k [OF s(1)] k [OF s(2)] by simp
    have "extent s a = {a..<a + bsize sc}" "extent s b = {b..<b + bsize sc}"
      using small_blk_msize [OF inv] s eq by (auto simp: extent_def)
    then show False
      using x small_stride [of b s sc j a] small_stride [of a s sc j b] s eq \<open>a \<noteq> b\<close>
      by (cases a b rule: linorder_cases) (auto simp: small_blk_def)
  next
    fix i m i' m' assume l: "large_blk s g a i m" "i \<le> j" "j < i + m" "large_blk s g b i' m'" "i' \<le> j" "j < i' + m'"
    then have "i = i'" by (rule covers_large_unique [OF inv])
    then show False using l \<open>a \<noteq> b\<close> by (simp add: large_blk_def)
  qed (use k kl in blast)+
qed

section \<open>Internal steps\<close>

definition internal :: "nat \<Rightarrow> nat \<Rightarrow> ralloc \<Rightarrow> ghost \<Rightarrow> ralloc \<Rightarrow> ghost \<Rightarrow> bool" where
  "internal t sc s g s' g' \<longleftrightarrow> heap_inv s' g' \<and> users g' = users g \<and>
    (\<forall>b \<in> users g. msize s' b = msize s b \<and> (\<forall>x \<in> extent s b. mem s' x = mem s x)) \<and>
    sb_start s' = sb_start s \<and> desc_start s' = desc_start s \<and> roots s' = roots s \<and> nsb g \<le> nsb g' \<and>
    (\<forall>t' sc'. t' \<noteq> t \<or> sc' \<noteq> sc \<longrightarrow> cached g' t' sc' = cached g t' sc')"

lemma internal_refl: "heap_inv s g \<Longrightarrow> internal t sc s g s g"
  by (simp add: internal_def)

lemma internal_trans:
  assumes "internal t sc s g s' g'" and "internal t sc s' g' s'' g''"
  shows "internal t sc s g s'' g''"
  using assms by (auto simp: internal_def extent_def)

lemma msize_keep:
  assumes inv: "heap_inv s g" and inv': "heap_inv s' g'" and same: "sb_start s' = sb_start s" "nsb g \<le> nsb g'"
    and b: "b \<in> users g"
    and D: "\<And>i. used g i \<Longrightarrow> kind g i \<noteq> Free \<Longrightarrow> kind g i \<noteq> Held \<Longrightarrow> kind g i \<noteq> Tail \<Longrightarrow> b \<in> sb_range s i \<Longrightarrow>
      desc_block_size (desc_of s' i) = desc_block_size (desc_of s i)"
  shows "msize s' b = msize s b"
proof -
  have rg: "sb_range s' = sb_range s" using same(1) by (simp add: sb_range_def sbk_def fun_eq_iff)
  have "(\<exists>i sc. small_blk s g b i sc) \<or> (\<exists>i m. large_blk s g b i m)"
    using b own_blk(3) [OF inv] by (simp add: users_def)
  then obtain i where i: "used g i" "kind g i \<noteq> Free" "kind g i \<noteq> Held" "kind g i \<noteq> Tail" "b \<in> sb_range s i"
  proof (elim disjE exE)
    fix i sc assume i: "small_blk s g b i sc"
    show ?thesis by (rule that [of i]) (use i small_blk_facts(3) [OF inv i] in \<open>auto simp: small_blk_def\<close>)
  next
    fix i m assume i: "large_blk s g b i m"
    show ?thesis by (rule that [of i]) (use large_blk_facts(5,7,8) [OF inv i] in simp_all)
  qed
  have "i < nsb g" "i < nsb g'" using i(1) same(2) by (simp_all add: used_def)
  then have "desc_lookup s b = dsc s i" "desc_lookup s' b = dsc s' i"
    using i(5) desc_lookup_in [OF heap_invD(1) [OF inv]] desc_lookup_in [OF heap_invD(1) [OF inv']] rg by simp_all
  then show ?thesis using D [OF i] by (simp add: msize_def desc_of_def)
qed

lemma internal_intro:
  assumes inv: "heap_inv s g" and inv': "heap_inv s' g'" and u: "users g' = users g"
    and D: "\<And>i. used g i \<Longrightarrow> kind g i \<noteq> Free \<Longrightarrow> kind g i \<noteq> Held \<Longrightarrow> kind g i \<noteq> Tail \<Longrightarrow>
      \<exists>b \<in> users g. b \<in> sb_range s i \<Longrightarrow> desc_block_size (desc_of s' i) = desc_block_size (desc_of s i)"
    and m: "\<And>b x. b \<in> users g \<Longrightarrow> x \<in> extent s b \<Longrightarrow> mem s' x = mem s x"
    and same: "roots s' = roots s" "nsb g \<le> nsb g'" "sb_start s' = sb_start s" "desc_start s' = desc_start s"
    and c: "\<And>t' sc'. t' \<noteq> t \<or> sc' \<noteq> sc \<Longrightarrow> cached g' t' sc' = cached g t' sc'"
  shows "internal t sc s g s' g'"
proof -
  have "msize s' b = msize s b" if b: "b \<in> users g" for b
    by (rule msize_keep [OF inv inv' same(3,2) b]) (use D b in blast)
  then show ?thesis using inv' u m same c by (simp add: internal_def)
qed

lemma internalI:
  assumes "heap_inv s g" and "heap_inv s' g'" and f: "frame R s g s' g'" and "users g' = users g"
    and R: "\<And>i. i \<in> R \<Longrightarrow> used g i \<Longrightarrow> kind g i \<noteq> Free \<Longrightarrow> kind g i \<noteq> Held \<Longrightarrow> kind g i \<noteq> Tail \<Longrightarrow>
      \<exists>b \<in> users g. b \<in> sb_range s i \<Longrightarrow> desc_block_size (desc_of s' i) = desc_block_size (desc_of s i)"
    and "\<And>b x. b \<in> users g \<Longrightarrow> x \<in> extent s b \<Longrightarrow> mem s' x = mem s x"
    and "roots s' = roots s" "nsb g \<le> nsb g'"
    and "\<And>t' sc'. t' \<noteq> t \<or> sc' \<noteq> sc \<Longrightarrow> cached g' t' sc' = cached g t' sc'"
  shows "internal t sc s g s' g'"
proof (rule internal_intro [OF assms(1,2,4)])
  fix i assume i: "used g i" "kind g i \<noteq> Free" "kind g i \<noteq> Held" "kind g i \<noteq> Tail"
    "\<exists>b \<in> users g. b \<in> sb_range s i"
  show "desc_block_size (desc_of s' i) = desc_block_size (desc_of s i)"
    using R [OF _ i] frameD(9) [OF f, of i] by (cases "i \<in> R") auto
qed (use assms(6-9) frameD(1,2) [OF f] in simp_all)

end
