(* ===== verification/HeapCache.thy ===== *)
theory HeapCache
  imports HeapLive
begin

text \<open>
  Filling and flushing a thread cache: partial lists, \<^verbatim>\<open>malloc_from_partial\<close>, \<^verbatim>\<open>fill_cache\<close> and
  \<^verbatim>\<open>flush_cache\<close> keep the heap sound, fail no assertion, and are internal steps.
\<close>

section \<open>The partial list\<close>

lemma partD: "heap_inv s g \<Longrightarrow> sc_ok sc \<Longrightarrow> part_list_ok s g sc"
  using heap_invD(3) by (simp add: part_ok_def)

lemma heap_idx: "heap_inv s g \<Longrightarrow> sc < MAX_SZ_IDX \<Longrightarrow> sc_idx (heaps s sc) = sc"
  using heap_invD(3) by (simp add: part_ok_def)

lemma part_set: "part_list_ok s g sc \<Longrightarrow> set (part g sc) = {i. nonfull s g sc i}" "part_list_ok s g sc \<Longrightarrow> distinct (part g sc)"
  by (simp_all add: part_list_ok_def)

lemma part_hd:
  assumes "part_list_ok s g sc" and "part g sc = i # is"
  shows "nonfull s g sc i" and "pc_ptr (acp_load (desc_start s) (partial_list (heaps s sc))) = dsc s i"
    and "chain (partial_link (descs s)) (partial_link (descs s) (dsc s i)) (map (dsc s) is) 0"
    and "i \<notin> set is" and "set is = {j. nonfull s g sc j} - {i}"
proof -
  show "pc_ptr (acp_load (desc_start s) (partial_list (heaps s sc))) = dsc s i"
    "chain (partial_link (descs s)) (partial_link (descs s) (dsc s i)) (map (dsc s) is) 0"
    using assms by (simp_all add: part_list_ok_def)
  have "i \<in> set (part g sc)" using assms(2) by simp
  then show "nonfull s g sc i" unfolding part_set(1) [OF assms(1)] by simp
  show n: "i \<notin> set is" using part_set(2) [OF assms(1)] assms(2) by simp
  have "set is = set (part g sc) - {i}" using assms(2) n by auto
  then show "set is = {j. nonfull s g sc j} - {i}" unfolding part_set(1) [OF assms(1)] .
qed

lemma heap_pop_partial_eq:
  assumes inv: "heap_inv s g" and sc: "sc_ok sc"
  shows "part g sc = [] \<Longrightarrow> heap_pop_partial sc s = Inr (0, s)"
    and "part g sc = i # is \<Longrightarrow> \<exists>w. heap_pop_partial sc s = Inr (dsc s i, set_partial_list sc w s) \<and>
      pc_ptr (acp_load (desc_start s) w) = partial_link (descs s) (dsc s i)"
proof -
  note iv = heap_invD [OF inv] and p = partD [OF inv sc]
  have acp: "acp_start (desc_start s)" using iv(1) by (simp add: geom_def)
  let ?o = "acp_load (desc_start s) (partial_list (heaps s sc))"
  show "part g sc = [] \<Longrightarrow> heap_pop_partial sc s = Inr (0, s)"
    using p by (simp add: part_list_ok_def heap_pop_partial_def get_ptr_def)
  assume cons: "part g sc = i # is"
  note h = part_hd [OF p cons]
  let ?w = "acp_store (desc_start s) (ptr_cnt_set (partial_link (descs s) (dsc s i)) (pc_cnt ?o))"
  note nl = next_load_link(2) [OF chain_not_one [OF iv(1) h(3)]]
  have "heap_pop_partial sc s = Inr (dsc s i, set_partial_list sc ?w s)"
    using h(2) nl acp_cas_after_load(2) [OF acp] geom_bounds(7) [OF iv(1), of i]
    by (simp add: heap_pop_partial_def Let_def get_ptr_def get_counter_def)
  moreover have "acp_ptr (desc_start s) (partial_link (descs s) (dsc s i))"
  proof (cases "is")
    case Nil
    then show ?thesis using h(3) by (simp add: acp_ptr_def)
  next
    case (Cons j js)
    then have "j \<in> set is" by simp
    then have "1 \<le> j" "j < nsb g" unfolding h(5) by (simp_all add: nonfull_def used_def)
    then show ?thesis using h(3) Cons geom_bounds(6) [OF iv(1)] by simp
  qed
  ultimately show "\<exists>w. heap_pop_partial sc s = Inr (dsc s i, set_partial_list sc w s) \<and>
      pc_ptr (acp_load (desc_start s) w) = partial_link (descs s) (dsc s i)"
    using acp_load_store_set by blast
qed

lemma set_partial_list_simps [simp]:
  "mem (set_partial_list h w s) = mem s" "descs (set_partial_list h w s) = descs s"
  "t_cache (set_partial_list h w s) = t_cache s" "sb_region (set_partial_list h w s) = sb_region s"
  "sb_start (set_partial_list h w s) = sb_start s" "desc_start (set_partial_list h w s) = desc_start s"
  "avail_sb (set_partial_list h w s) = avail_sb s" "roots (set_partial_list h w s) = roots s"
  "partial_list (heaps (set_partial_list h w s) h') = (if h' = h then w else partial_list (heaps s h'))"
  "sc_idx (heaps (set_partial_list h w s) h') = sc_idx (heaps s h')"
  by (simp_all add: set_partial_list_def)

lemma upd_desc_simps [simp]:
  "mem (upd_desc d f s) = mem s" "heaps (upd_desc d f s) = heaps s" "t_cache (upd_desc d f s) = t_cache s"
  "sb_region (upd_desc d f s) = sb_region s" "sb_start (upd_desc d f s) = sb_start s"
  "desc_start (upd_desc d f s) = desc_start s" "avail_sb (upd_desc d f s) = avail_sb s" "roots (upd_desc d f s) = roots s"
  by (simp_all add: upd_desc_def)

lemma part_list_chain_frame:
  assumes f: "frame {i} s g s' g'" and "i \<notin> set js"
  shows "chain (partial_link (descs s')) p (map (dsc s) js) q \<longleftrightarrow> chain (partial_link (descs s)) p (map (dsc s) js) q"
proof (rule chain_map_cong)
  fix j assume "j \<in> set js"
  then have "desc_of s' j = desc_of s j" using assms(2) by (intro frameD(9) [OF f]) auto
  then show "partial_link (descs s') (dsc s j) = partial_link (descs s) (dsc s j)"
    using partial_link_dsc [of s' j] partial_link_dsc [of s j] frameD(3) [OF f] by simp
qed

lemma nonfull_frame: "frame {i} s g s' g' \<Longrightarrow> j \<noteq> i \<Longrightarrow> nonfull s' g' sc j = nonfull s g sc j"
  using frameD(7-9) [of "{i}" s g s' g' j] by (simp add: nonfull_def)

lemma part_pop:
  assumes p: "part_list_ok s g sc" and "part g sc = i # is" and f: "frame {i} s g s' g'"
    and "pc_ptr (acp_load (desc_start s) (partial_list (heaps s' sc))) = partial_link (descs s) (dsc s i)"
    and "part g' sc = is" and "\<not> nonfull s' g' sc i"
  shows "part_list_ok s' g' sc"
proof -
  note h = part_hd [OF p assms(2)]
  have "nonfull s' g' sc j \<longleftrightarrow> nonfull s g sc j \<and> j \<noteq> i" for j
    using nonfull_frame [OF f, of j] assms(6) by (cases "j = i") auto
  then have "set is = {j. nonfull s' g' sc j}" unfolding h(5) by auto
  moreover have "distinct is" using part_set(2) [OF p] assms(2) by simp
  moreover have "chain (partial_link (descs s')) (partial_link (descs s) (dsc s i)) (map (dsc s) is) 0"
    using h(3) part_list_chain_frame [OF f h(4)] by simp
  ultimately show ?thesis
    using assms(4,5) frameD(2,3) [OF f] by (simp add: part_list_ok_def)
qed

lemma part_push:
  assumes p: "part_list_ok s g sc" and f: "frame {i} s g s' g'" and n: "\<not> nonfull s g sc i" "nonfull s' g' sc i"
    and "pc_ptr (acp_load (desc_start s) (partial_list (heaps s' sc))) = dsc s i"
    and "partial_link (descs s') (dsc s i) = pc_ptr (acp_load (desc_start s) (partial_list (heaps s sc)))"
    and "part g' sc = i # part g sc"
  shows "part_list_ok s' g' sc"
proof -
  have i: "i \<notin> set (part g sc)" unfolding part_set(1) [OF p] using n by simp
  have "nonfull s' g' sc j \<longleftrightarrow> nonfull s g sc j \<or> j = i" for j
    using nonfull_frame [OF f, of j] n by (cases "j = i") auto
  then have "insert i (set (part g sc)) = {j. nonfull s' g' sc j}" unfolding part_set(1) [OF p] by auto
  moreover have "chain (partial_link (descs s')) (pc_ptr (acp_load (desc_start s) (partial_list (heaps s sc))))
      (map (dsc s) (part g sc)) 0"
    using p part_list_chain_frame [OF f i] by (simp add: part_list_ok_def)
  ultimately show ?thesis
    using assms(5-7) i part_set(2) [OF p] frameD(2,3) [OF f] by (simp add: part_list_ok_def)
qed

section \<open>Taking a superblock from the partial list\<close>

lemma users_own_cong: "(\<And>b. own g' b = User \<longleftrightarrow> own g b = User) \<Longrightarrow> users g' = users g"
  by (simp add: users_def)

lemma small_empty_blocks:
  assumes inv: "heap_inv s g" and i: "used g i" "kind g i = Small sc" and e: "state (anchor (desc_of s i)) = SB_EMPTY"
    and b: "b \<in> blocks s sc i"
  shows "own g b = InSb"
proof -
  have sb: "small_sb s g i sc" by (rule small_okD [OF heap_invD(4) [OF inv] i])
  then have sc: "sc_ok sc" and l: "length (fl g i) = nblocks sc" and d: "distinct (fl g i)"
    and st: "set (fl g i) = {b \<in> blocks s sc i. own g b = InSb}"
    using e by (auto simp: small_sb_def small_at_def)
  have "card (blocks s sc i) = nblocks sc"
    using block_list_props [OF sc, of s i] distinct_card by metis
  moreover have "card (set (fl g i)) = nblocks sc" using l d by (simp add: distinct_card)
  moreover have "finite (blocks s sc i)" by (simp add: blocks_def)
  moreover have "set (fl g i) \<subseteq> blocks s sc i" using st by blast
  ultimately have "set (fl g i) = blocks s sc i" by (metis card_subset_eq)
  then show ?thesis using b st by blast
qed

definition pop_empty_ghost :: "nat \<Rightarrow> nat \<Rightarrow> nat list \<Rightarrow> ralloc \<Rightarrow> ghost \<Rightarrow> ghost" where
  "pop_empty_ghost sc i js s g = set_own (blocks s sc i) NoBlock
    (g\<lparr>kind := (kind g)(i := Held), part := (part g)(sc := js)\<rparr>)"

lemma pop_empty_ok:
  assumes inv: "heap_inv s g" and sc: "sc_ok sc" and p: "part g sc = i # js"
    and e: "state (anchor (desc_of s i)) = SB_EMPTY"
    and w: "pc_ptr (acp_load (desc_start s) w) = partial_link (descs s) (dsc s i)"
  shows "heap_inv (set_partial_list sc w s) (pop_empty_ghost sc i js s g)"
    and "internal t sc s g (set_partial_list sc w s) (pop_empty_ghost sc i js s g)"
proof -
  let ?s' = "set_partial_list sc w s" and ?g' = "pop_empty_ghost sc i js s g"
  note h = part_hd [OF partD [OF inv sc] p]
  have k: "used g i" "kind g i = Small sc" using h(1) by (simp_all add: nonfull_def)
  have ow: "own ?g' b = (if b \<in> blocks s sc i then NoBlock else own g b)" for b
    by (simp add: pop_empty_ghost_def)
  have f: "frame {i} s g ?s' ?g'"
    using blocks_range [OF _ sc, of _ s i] unfolding frame_def ow by (auto simp: pop_empty_ghost_def)
  have insb: "own g b = InSb" if "b \<in> blocks s sc i" for b by (rule small_empty_blocks [OF inv k e that])
  show inv': "heap_inv ?s' ?g'"
  proof (rule heap_inv_block_step [OF inv f])
    show "own ?g' b = NoBlock" if "b \<in> sb_range s i" for b
      using that small_sb_ownD(2) [OF inv k, of b] unfolding ow by auto
    show "part_list_ok ?s' ?g' sc' \<or> partial_list (heaps ?s' sc') = partial_list (heaps s sc') \<and>
        part ?g' sc' = part g sc' \<and> nonfull ?s' ?g' sc' i = nonfull s g sc' i \<and>
        (nonfull s g sc' i \<longrightarrow> next_partial (desc_of ?s' i) = next_partial (desc_of s i))" for sc'
    proof (cases "sc' = sc")
      case True
      have "part_list_ok ?s' ?g' sc"
        by (rule part_pop [OF partD [OF inv sc] p f]) (simp_all add: w pop_empty_ghost_def nonfull_def)
      then show ?thesis using True by simp
    next
      case False
      then show ?thesis using k by (simp add: nonfull_def pop_empty_ghost_def)
    qed
    show "cache_at ?s' ?g' t' sc' \<or> t_cache ?s' t' sc' = t_cache s t' sc' \<and> cached ?g' t' sc' = cached g t' sc' \<and>
        (\<forall>b. own ?g' b = InCache t' sc' \<longleftrightarrow> own g b = InCache t' sc')" for t' sc'
      using insb unfolding ow by (auto simp: pop_empty_ghost_def)
    show "small_or_held (kind g i)" "small_or_held (kind ?g' i)" using k by (simp_all add: small_or_held_def pop_empty_ghost_def)
  qed (simp_all add: k pop_empty_ghost_def)
  show "internal t sc s g ?s' ?g'"
  proof (rule internalI [OF inv inv' f])
    show "users ?g' = users g" using insb by (intro users_own_cong) (auto simp: ow)
  qed (simp_all add: pop_empty_ghost_def)
qed

definition pop_partial_ghost :: "nat \<Rightarrow> nat \<Rightarrow> nat \<Rightarrow> nat list \<Rightarrow> ghost \<Rightarrow> ghost" where
  "pop_partial_ghost t sc i js g = set_own (set (fl g i)) (InCache t sc) (set_cached t sc (fl g i)
    (g\<lparr>fl := (fl g)(i := []), part := (part g)(sc := js)\<rparr>))"

lemma pop_partial_ok:
  assumes inv: "heap_inv s g" and sc: "sc_ok sc" and p: "part g sc = i # js" and ca: "cached g t sc = []"
    and e: "state (anchor (desc_of s i)) = SB_PARTIAL" and a: "state a = SB_FULL" "count a = 0"
    and w: "pc_ptr (acp_load (desc_start s) w) = partial_link (descs s) (dsc s i)"
    and c: "tc_block c = sbk s i + avail (anchor (desc_of s i)) * bsize sc" "tc_num c = count (anchor (desc_of s i))"
  defines "s' \<equiv> set_cache t sc c (upd_desc (dsc s i) (\<lambda>d. d\<lparr>anchor := a\<rparr>) (set_partial_list sc w s))"
    and "g' \<equiv> pop_partial_ghost t sc i js g"
  shows "heap_inv s' g'" and "internal t sc s g s' g'"
proof -
  note h = part_hd [OF partD [OF inv sc] p]
  have k: "used g i" "kind g i = Small sc" using h(1) by (simp_all add: nonfull_def)
  have sb: "small_sb s g i sc" by (rule small_okD [OF heap_invD(4) [OF inv] k])
  have st: "set (fl g i) = {b \<in> blocks s sc i. own g b = InSb}" "distinct (fl g i)" using sb by (simp_all add: small_sb_def)
  have fl: "b \<in> blocks s sc i" "own g b = InSb" if "b \<in> set (fl g i)" for b using that unfolding st(1) by simp_all
  have nl: "length (fl g i) = tc_num c" "run (read_pptr (mem s)) (tc_block c) (fl g i)" "length (fl g i) \<le> nblocks sc"
    using sb e c by (auto simp: small_sb_def small_at_def)
  have ow: "own g' b = (if b \<in> set (fl g i) then InCache t sc else own g b)" for b
    by (simp add: g'_def pop_partial_ghost_def set_cached_def)
  have ds: "desc_of s' j = (if j = i then (desc_of s i)\<lparr>anchor := a\<rparr> else desc_of s j)" for j
    unfolding s'_def using desc_of_descs(3) [of "set_partial_list sc w s" i "\<lambda>d. d\<lparr>anchor := a\<rparr>" j] by simp
  have basic: "sb_start s' = sb_start s" "desc_start s' = desc_start s" "mem s' = mem s" "blocks s' = blocks s" "sbk s' = sbk s"
    "sb_region s' = sb_region s" "avail_sb s' = avail_sb s" "roots s' = roots s" by (simp_all add: s'_def)
  have f: "frame {i} s g s' g'"
    unfolding frame_def ow ds using fl(1) blocks_range [OF _ sc, of _ s i]
    by (auto simp: basic g'_def pop_partial_ghost_def)
  have cache: "cache_at s' g' t sc"
  proof -
    have "set (fl g i) = {b. own g' b = InCache t sc}"
      using cacheD [OF inv sc, of t] ca unfolding ow by (auto simp: cache_at_def)
    moreover have "cached g' t sc = fl g i" by (simp add: g'_def pop_partial_ghost_def)
    moreover have "t_cache s' t sc = c" by (simp add: s'_def)
    ultimately show ?thesis using nl st(2) by (simp add: cache_at_def cache_list_def basic)
  qed
  have "{b \<in> blocks s sc i. own g' b = InSb} = {}" unfolding ow st(1) by auto
  then have sb': "small_sb s' g' i sc"
    using sb a by (simp add: small_sb_def small_at_def basic ds) (simp add: g'_def pop_partial_ghost_def)
  show inv': "heap_inv s' g'"
  proof (rule heap_inv_block_step [OF inv f])
    show "small_sb s' g' i sc'" if "kind g' i = Small sc'" for sc'
      using that k sb' by (simp add: g'_def pop_partial_ghost_def)
    show "own g' b = InSb \<or> (\<exists>t. own g' b = InCache t sc') \<or> own g' b = User"
      if "kind g' i = Small sc'" "b \<in> blocks s sc' i" for sc' b
    proof -
      have "sc' = sc" using that(1) k by (simp add: g'_def pop_partial_ghost_def)
      then show ?thesis using that(2) small_sb_ownD(1) [OF inv k, of b] unfolding ow by auto
    qed
    show "own g' b = NoBlock" if "b \<in> sb_range s i" "\<And>sc. kind g' i = Small sc \<Longrightarrow> b \<notin> blocks s sc i" for b
    proof -
      have "b \<notin> blocks s sc i" using that(2) [of sc] k by (simp add: g'_def pop_partial_ghost_def)
      then show ?thesis using that(1) small_sb_ownD(2) [OF inv k, of b] fl(1) [of b] unfolding ow by auto
    qed
    show "part_list_ok s' g' sc' \<or> partial_list (heaps s' sc') = partial_list (heaps s sc') \<and>
        part g' sc' = part g sc' \<and> nonfull s' g' sc' i = nonfull s g sc' i \<and>
        (nonfull s g sc' i \<longrightarrow> next_partial (desc_of s' i) = next_partial (desc_of s i))" for sc'
    proof (cases "sc' = sc")
      case True
      have "part_list_ok s' g' sc"
      proof (rule part_pop [OF partD [OF inv sc] p f])
        show "\<not> nonfull s' g' sc i" using a by (simp add: nonfull_def ds)
      qed (simp_all add: w s'_def g'_def pop_partial_ghost_def)
      then show ?thesis using True by simp
    next
      case False
      then show ?thesis using k by (simp add: nonfull_def) (simp add: g'_def s'_def pop_partial_ghost_def)
    qed
    show "cache_at s' g' t' sc' \<or> t_cache s' t' sc' = t_cache s t' sc' \<and> cached g' t' sc' = cached g t' sc' \<and>
        (\<forall>b. own g' b = InCache t' sc' \<longleftrightarrow> own g b = InCache t' sc')" for t' sc'
    proof (cases "t' = t \<and> sc' = sc")
      case False
      then show ?thesis using fl(2) unfolding ow by (auto simp: s'_def g'_def pop_partial_ghost_def)
    qed (use cache in simp)
    show "small_or_held (kind g i)" "small_or_held (kind g' i)"
      using k by (simp_all add: small_or_held_def g'_def pop_partial_ghost_def)
  qed (simp_all add: k basic, simp_all add: s'_def g'_def pop_partial_ghost_def)
  show "internal t sc s g s' g'"
  proof (rule internalI [OF inv inv' f])
    show "users g' = users g" using fl(2) by (intro users_own_cong) (auto simp: ow)
  qed (auto simp: basic ds, auto simp: g'_def pop_partial_ghost_def)
qed

section \<open>Filling the cache\<close>

definition held :: "ghost \<Rightarrow> nat set" where
  "held g = {i. used g i \<and> kind g i = Held}"

lemma organize_internal:
  assumes inv: "heap_inv s g" and "1 \<le> i" and "0 < m" and "i + m \<le> nsb g"
    and hd: "\<And>j. i \<le> j \<Longrightarrow> j < i + m \<Longrightarrow> kind g j = Held"
  shows "\<exists>s'. organize_sb_list (sbk s i) m s = Inr s' \<and> internal t sc s g s' (to_free i m g) \<and> same_blocks s s'"
proof -
  obtain s' where s': "organize_sb_list (sbk s i) m s = Inr s'" "heap_inv s' (to_free i m g)" "same_blocks s s'"
    "\<And>j. j < i \<or> i + m \<le> j \<Longrightarrow> desc_of s' j = desc_of s j"
    using organize_ok [OF assms] by blast
  have f: "frame {i..<i + m} s g s' (to_free i m g)"
    using s'(3,4) by (auto simp: frame_def same_blocks_def to_free_def used_def)
  have "internal t sc s g s' (to_free i m g)"
  proof (rule internalI [OF inv s'(2) f])
    show "users (to_free i m g) = users g" by (simp add: users_def to_free_def)
  qed (use s'(3) hd in \<open>auto simp: same_blocks_def to_free_def\<close>)
  with s' show ?thesis by blast
qed

lemma held_to_free:
  assumes "\<And>j. i \<le> j \<Longrightarrow> j < i + m \<Longrightarrow> kind g j = Held"
  shows "held (to_free i m g) = held g - {i..<i + m}"
  using assms by (auto simp: held_def to_free_def used_def)

lemma block_offset_mod:
  assumes "sc_ok sc" and "k < nblocks sc"
  shows "k * bsize sc mod 4294967296 = k * bsize sc"
  using block_bounds [OF assms] by (simp add: pm_consts)

lemma malloc_from_partial_fuel_ok:
  assumes "heap_inv s g" and sc: "sc_ok sc" and "cached g t sc = []" and "length (part g sc) < fuel"
  shows "\<exists>n s' g'. malloc_from_partial_fuel fuel t sc s = Inr (n, s') \<and> internal t sc s g s' g' \<and> held g' = held g \<and>
    length (cached g' t sc) = n \<and> (no_room s' g' \<longrightarrow> no_room s g)"
  using assms(1,3,4)
proof (induction fuel arbitrary: s g)
  case 0
  then show ?case by simp
next
  case (Suc fuel)
  note inv = Suc.prems(1) and ca = Suc.prems(2)
  note iv = heap_invD [OF inv] and pop = heap_pop_partial_eq [OF inv sc]
  show ?case
  proof (cases "part g sc")
    case Nil
    then have "malloc_from_partial_fuel (Suc fuel) t sc s = Inr (0, s)" using pop(1) by simp
    then show ?thesis using internal_refl [OF inv] ca Nil by fastforce
  next
    case (Cons i js)
    note h = part_hd [OF partD [OF inv sc] Cons]
    have k: "used g i" "kind g i = Small sc" "state (anchor (desc_of s i)) \<noteq> SB_FULL" using h(1) by (simp_all add: nonfull_def)
    have sb: "small_sb s g i sc" by (rule small_okD [OF iv(4) k(1,2)])
    obtain w where w: "heap_pop_partial sc s = Inr (dsc s i, set_partial_list sc w s)"
      "pc_ptr (acp_load (desc_start s) w) = partial_link (descs s) (dsc s i)" using pop(2) [OF Cons] by blast
    let ?s1 = "set_partial_list sc w s"
    have nz: "dsc s i \<noteq> 0" by (rule geom_bounds(7) [OF iv(1)])
    have d1: "descs s (dsc s i) = desc_of s i" by (simp add: desc_of_def)
    have sup: "CrossPtr_cast (sb_start s) (superblock (desc_of s i)) = sbk s i"
      "desc_block_size (desc_of s i) = bsize sc" "maxcount (desc_of s i) = nblocks sc"
      using sb by (simp_all add: small_sb_def small_at_def)
    have scz: "sb_size (get_sizeclass_heap (heaps ?s1 sc)) = SBSIZE"
      using heap_idx [OF inv, of sc] sizeclass_fields(2) [of sc] sc by (simp add: get_sizeclass_heap_def sc_ok_def)
    show ?thesis
    proof (cases "state (anchor (desc_of s i))")
      case SB_EMPTY
      let ?g1 = "pop_empty_ghost sc i js s g"
      note 1 = pop_empty_ok [OF inv sc Cons SB_EMPTY w(2)]
      have h1: "\<And>j. i \<le> j \<Longrightarrow> j < i + 1 \<Longrightarrow> kind ?g1 j = Held" by (simp add: pop_empty_ghost_def)
      have u1: "1 \<le> i" "i + 1 \<le> nsb ?g1" using k(1) by (simp_all add: used_def pop_empty_ghost_def)
      obtain s2 where s2: "organize_sb_list (sbk ?s1 i) 1 ?s1 = Inr s2" "internal t sc ?s1 ?g1 s2 (to_free i 1 ?g1)"
        "same_blocks ?s1 s2"
        using organize_internal [OF 1(1) u1(1) zero_less_one u1(2) h1] by blast
      let ?g2 = "to_free i 1 ?g1"
      have inv2: "heap_inv s2 ?g2" using s2(2) by (simp add: internal_def)
      have "cached ?g2 t sc = []" "length (part ?g2 sc) < fuel"
        using ca Suc.prems(3) Cons by (simp_all add: to_free_def pop_empty_ghost_def)
      from Suc.IH [OF inv2 this] obtain n s' g' where r: "malloc_from_partial_fuel fuel t sc s2 = Inr (n, s')"
        "internal t sc s2 ?g2 s' g'" "held g' = held ?g2" "length (cached g' t sc) = n" "no_room s' g' \<longrightarrow> no_room s2 ?g2" by blast
      have "malloc_from_partial_fuel (Suc fuel) t sc s = Inr (n, s')"
        using w(1) nz s2(1) r(1) SB_EMPTY scz
        by (simp add: Let_def d1 sup small_sb_retire_organize)
      moreover have "internal t sc s g s' g'"
        using internal_trans [OF internal_trans [OF 1(2) s2(2)] r(2)] .
      moreover have "held ?g2 = held g"
      proof -
        have "held ?g2 = held ?g1 - {i..<i + 1}" by (rule held_to_free [OF h1])
        also have "\<dots> = held g" using k by (auto simp: held_def pop_empty_ghost_def)
        finally show ?thesis .
      qed
      moreover have "\<not> no_room s2 ?g2" by (simp add: no_room_def to_free_def)
      ultimately show ?thesis using r(3-5) by metis
    next
      case SB_PARTIAL
      let ?a = "set_state SB_FULL (set_avail (nblocks sc) (set_count 0 (anchor (desc_of s i))))"
      let ?c = "\<lparr>tc_block = sbk s i + avail (anchor (desc_of s i)) * bsize sc, tc_num = count (anchor (desc_of s i))\<rparr>"
      let ?s' = "set_cache t sc ?c (upd_desc (dsc s i) (\<lambda>d. d\<lparr>anchor := ?a\<rparr>) ?s1)"
      have fa: "state ?a = SB_FULL" "count ?a = 0" by (simp_all add: set_state_def set_avail_def set_count_def)
      have cn: "0 < count (anchor (desc_of s i))" "avail (anchor (desc_of s i)) < nblocks sc"
        "length (fl g i) = count (anchor (desc_of s i))"
        using sb SB_PARTIAL by (simp_all add: small_sb_def small_at_def)
      have n0: "tc_num (t_cache s t sc) = 0"
        using cacheD [OF inv sc, of t] ca by (simp add: cache_at_def cache_list_def)
      note pp = pop_partial_ok [OF inv sc Cons ca SB_PARTIAL fa w(2), of ?c, simplified]
      have "malloc_from_partial_fuel (Suc fuel) t sc s = Inr (count (anchor (desc_of s i)), ?s')"
        using w(1) nz SB_PARTIAL cn n0 block_offset_mod [OF sc cn(2)]
        by (simp add: Let_def d1 sup push_list_def)
      moreover have "held (pop_partial_ghost t sc i js g) = held g"
        by (simp add: held_def pop_partial_ghost_def)
      moreover have "length (cached (pop_partial_ghost t sc i js g) t sc) = count (anchor (desc_of s i))"
        using cn(3) by (simp add: pop_partial_ghost_def)
      moreover have "no_room ?s' (pop_partial_ghost t sc i js g) = no_room s g"
        by (simp add: no_room_def pop_partial_ghost_def)
      ultimately show ?thesis using pp(2) by fastforce
    qed (use k sb in \<open>simp_all add: small_sb_def small_at_def\<close>)
  qed
qed

lemma part_length:
  assumes inv: "heap_inv s g" and sc: "sc_ok sc"
  shows "length (part g sc) \<le> MAX_SB_AMOUNT"
proof -
  have "set (part g sc) \<subseteq> {..<nsb g}"
    unfolding part_set(1) [OF partD [OF assms]] by (auto simp: nonfull_def used_def)
  then have "card (set (part g sc)) \<le> nsb g" by (metis card_lessThan card_mono finite_lessThan)
  then show ?thesis
    using distinct_card [OF part_set(2) [OF partD [OF assms]]] geom_bounds(1) [OF heap_invD(1) [OF inv]] by simp
qed

lemma malloc_from_partial_ok:
  assumes "heap_inv s g" and "sc_ok sc" and "cached g t sc = []"
  shows "\<exists>n s' g'. malloc_from_partial t sc s = Inr (n, s') \<and> internal t sc s g s' g' \<and> held g' = held g \<and>
    length (cached g' t sc) = n \<and> (no_room s' g' \<longrightarrow> no_room s g)"
  unfolding malloc_from_partial_def
  using part_length [OF assms(1,2)] by (intro malloc_from_partial_fuel_ok assms) simp

lemma user_not_in_held:
  assumes inv: "heap_inv s g" and b: "own g b \<noteq> NoBlock" and x: "x \<in> extent s b"
    and i: "used g i \<longrightarrow> kind g i = Free \<or> kind g i = Held"
  shows "x \<notin> sb_range s i"
proof
  assume xi: "x \<in> sb_range s i"
  obtain j where j: "covers s g b j" "x \<in> sb_range s j" using extent_covers [OF inv b x] by blast
  have "j = i" using xi j(2) sb_range_unique by blast
  then show False using covers_kind [OF inv j(1)] i by simp
qed

lemma malloc_from_newsb_internal:
  assumes inv: "heap_inv s g" and "1 \<le> nsb g" and sc: "sc_ok sc" and ca: "cached g t sc = []" and room: "\<not> no_room s g"
  shows "\<exists>s' g'. malloc_from_newsb t sc s = Inr (nblocks sc, s') \<and> internal t sc s g s' g' \<and> held g' = held g \<and>
    length (cached g' t sc) = nblocks sc"
proof -
  obtain i s1 g1 s' where a: "malloc_from_newsb t sc s = Inr (nblocks sc, s')" "heap_inv s' (cut_ghost t sc i s1 g1)"
    "used g1 i" "kind g1 i = Held" "heap_inv s1 g1" "same_ghost_blocks g g1" "same_blocks s s1" "nsb g \<le> nsb g1"
    "used g i \<longrightarrow> kind g i = Free" "\<And>j. used g1 j \<Longrightarrow> kind g1 j = Held \<Longrightarrow> j = i \<or> used g j \<and> kind g j = Held"
    "mem s' = link_blocks (sbk s i) (bsize sc) (nblocks sc - 1) (mem s)"
    "\<And>j. used g j \<Longrightarrow> j \<noteq> i \<Longrightarrow> desc_of s' j = desc_of s j"
    "sb_start s' = sb_start s" "desc_start s' = desc_start s" "roots s' = roots s"
    using malloc_from_newsb_ok [OF assms] by blast
  let ?g' = "cut_ghost t sc i s1 g1"
  have sk: "sbk s1 = sbk s" "sb_range s1 = sb_range s"
    using a(7) by (simp_all add: same_blocks_def sbk_def sb_range_def fun_eq_iff)
  have g1: "own g1 = own g" "cached g1 = cached g" "\<And>j. used g j \<Longrightarrow> kind g j \<noteq> Free \<Longrightarrow> used g1 j \<and> kind g1 j = kind g j"
    using a(6) by (simp_all add: same_ghost_blocks_def)
  have iv1: "own_ok s1 g1" "small_ok s1 g1" using heap_invD [OF a(5)] by simp_all
  have none: "own g b = NoBlock" if b: "b \<in> blocks s1 sc i" for b
    using own_none [OF iv1 blocks_range [OF b sc]] a(4) g1(1) by simp
  have nb: "nblocks sc * bsize sc \<le> SBSIZE" "8 \<le> bsize sc" "4 \<le> nblocks sc"
    using nblocks_props [of sc] bsize_props [of sc] sc by (simp_all add: sc_ok_def)
  have user: "user_addr (sbk s i + 65536)"
    using geom_bounds(4) [OF heap_invD(1) [OF a(5)], of i] a(3) by (simp add: used_def sk SBSIZE_def PAGESIZE_def)
  have memx: "mem s' x = mem s x" if x: "x \<notin> sb_range s i" for x
  proof -
    have "(nblocks sc - 1 + 1) * bsize sc \<le> 65536" using nb by (simp add: SBSIZE_def PAGESIZE_def)
    moreover have "(nblocks sc - 1) * bsize sc \<le> SBSIZE" using nb(1) by (simp add: diff_mult_distrib)
    ultimately show ?thesis
      unfolding a(11) using x nb(2) user by (intro link_blocks_run(2)) (auto simp: sb_range_def)
  qed
  have "internal t sc s g s' ?g'"
  proof (rule internal_intro [OF inv a(2)])
    show "users ?g' = users g"
      using none g1(1) by (intro users_own_cong) (auto simp: cut_ghost_def set_cached_def)
    show "desc_block_size (desc_of s' j) = desc_block_size (desc_of s j)"
      if "used g j" "kind g j \<noteq> Free" for j
      using a(9) a(12) [of j] that by (cases "j = i") auto
    show "mem s' x = mem s x" if "b \<in> users g" "x \<in> extent s b" for b x
      using user_not_in_held [OF inv _ that(2), of i] that(1) a(9) by (intro memx) (auto simp: users_def)
    show "nsb g \<le> nsb ?g'" using a(8) by (simp add: cut_ghost_def)
    show "cached ?g' t' sc' = cached g t' sc'" if "t' \<noteq> t \<or> sc' \<noteq> sc" for t' sc'
      using that g1(2) by (auto simp: cut_ghost_def)
  qed (use a in simp_all)
  moreover have "held ?g' = held g"
    using a(3,4,9,10) g1(3) by (auto simp: held_def cut_ghost_def)
  moreover have "length (cached ?g' t sc) = nblocks sc"
    using block_list_props(3) [OF sc] by (simp add: cut_ghost_def)
  ultimately show ?thesis using a(1) by blast
qed

text \<open>
  \<^verbatim>\<open>fill_cache\<close> on an empty cache: it only fails when the free list is empty, no partial superblock is
  left and the file has no room to expand.
\<close>

lemma fill_cache_ok:
  assumes inv: "heap_inv s g" and "1 \<le> nsb g" and sc: "sc_ok sc" and ca: "cached g t sc = []"
  shows "fill_cache t sc s = Inl OutOfSpace \<and> no_room s g \<or>
    (\<exists>s' g'. fill_cache t sc s = Inr s' \<and> internal t sc s g s' g' \<and> held g' = held g \<and> cached g' t sc \<noteq> [])"
proof -
  obtain n s1 g1 where 1: "malloc_from_partial t sc s = Inr (n, s1)" "internal t sc s g s1 g1" "held g1 = held g"
    "length (cached g1 t sc) = n" "no_room s1 g1 \<longrightarrow> no_room s g" using malloc_from_partial_ok [OF inv sc ca] by blast
  have inv1: "heap_inv s1 g1" "nsb g \<le> nsb g1" using 1(2) by (simp_all add: internal_def)
  have cbn: "cache_block_num (get_sizeclass_by_idx sc) = nblocks sc" "4 \<le> nblocks sc"
    using sizeclass_fields(4) [of sc] nblocks_props(1) [of sc] sc by (simp_all add: sc_ok_def)
  show ?thesis
  proof (cases "n = 0")
    case False
    have "n \<le> nblocks sc" using cacheD [OF inv1(1) sc, of t] 1(4) by (simp add: cache_at_def)
    then have "fill_cache t sc s = Inr s1" using 1(1) False cbn by (simp add: fill_cache_def)
    then show ?thesis using 1 False by auto
  next
    case True
    then have ca1: "cached g1 t sc = []" using 1(4) by simp
    show ?thesis
    proof (cases "no_room s1 g1")
      case full: True
      have "malloc_from_newsb t sc s1 = Inl OutOfSpace"
        using small_sb_alloc_no_room [OF inv1(1) full] sizeclass_fields(2) [of sc] sc
        by (simp add: malloc_from_newsb_def Let_def sc_ok_def)
      then show ?thesis using 1(1,5) True full by (simp add: fill_cache_def)
    next
      case False
      have n1: "1 \<le> nsb g1" using inv1(2) assms(2) by simp
      obtain s2 g2 where 2: "malloc_from_newsb t sc s1 = Inr (nblocks sc, s2)" "internal t sc s1 g1 s2 g2"
        "held g2 = held g1" "length (cached g2 t sc) = nblocks sc"
        using malloc_from_newsb_internal [OF inv1(1) n1 sc ca1 False] by blast
      have "fill_cache t sc s = Inr s2" using 1(1) 2(1) True cbn by (simp add: fill_cache_def)
      moreover have "internal t sc s g s2 g2" by (rule internal_trans [OF 1(2) 2(2)])
      moreover have "cached g2 t sc \<noteq> []" using 2(4) cbn(2) by auto
      ultimately show ?thesis using 1(3) 2(3) by auto
    qed
  qed
qed

end
