(* ===== verification/HeapFlush.thy ===== *)
theory HeapFlush
  imports HeapCache
begin

text \<open>
  \<^verbatim>\<open>flush_cache\<close> gives the blocks of a cache back to their superblocks, one stretch of blocks of the
  same superblock at a time. Every round keeps the heap sound and passes every assertion, and the
  loop ends with an empty cache.
\<close>

section \<open>The stretch\<close>

lemma same_sb_run_eq:
  assumes "run (read_pptr m) p (p # xs)"
  shows "same_sb_run m sb sz (bc + length xs) p bc =
    (last (p # takeWhile (\<lambda>y. sb \<le> y \<and> y < sb + sz) xs), bc + length (takeWhile (\<lambda>y. sb \<le> y \<and> y < sb + sz) xs))"
  using assms
proof (induction xs arbitrary: p bc)
  case Nil
  then show ?case by (simp add: same_sb_run.simps)
next
  case (Cons y ys)
  have r: "read_pptr m p = y" "run (read_pptr m) y (y # ys)" using Cons.prems by (simp_all add: run_Cons)
  show ?case
  proof (cases "sb \<le> y \<and> y < sb + sz")
    case True
    then show ?thesis
      using Cons.IH [OF r(2), of "bc + 1"] r(1) by (subst same_sb_run.simps) (simp add: Let_def not_le)
  next
    case False
    then show ?thesis using r(1) by (subst same_sb_run.simps) (auto simp: Let_def not_le)
  qed
qed

lemma write_keeps_other:
  assumes inv: "heap_inv s g" and a: "small_blk s g a i sc" "a \<noteq> b" and b: "b \<in> users g" and x: "x \<in> extent s b"
  shows "write_pptr a v m x = m x"
proof -
  have "own g a \<noteq> NoBlock"
    using small_sb_ownD(1) [OF inv, of i sc a] a(1) by (auto simp: small_blk_def)
  moreover have "own g b \<noteq> NoBlock" using b by (simp add: users_def)
  ultimately have "extent s a \<inter> extent s b = {}" using a(2) by (rule extent_disjoint [OF inv])
  moreover have "{a..<a + 8} \<subseteq> extent s a"
    using small_blk_msize [OF inv a(1)] bsize_props(1) [of sc] small_blk_facts(1) [OF inv a(1)]
    by (auto simp: extent_def sc_ok_def)
  ultimately have "x \<notin> {a..<a + 8}" using x by blast
  then show ?thesis by (intro write_pptr_outside) auto
qed

lemma write_keeps_live:
  assumes "heap_inv s g" and "small_blk s g a i sc" "own g a \<noteq> User" and "b \<in> users g" and "x \<in> extent s b"
  shows "write_pptr a v m x = m x"
  using assms write_keeps_other [OF assms(1,2) _ assms(4,5)] by (auto simp: users_def)

section \<open>Blocks back into a superblock\<close>

definition flush_ghost :: "nat \<Rightarrow> nat \<Rightarrow> nat \<Rightarrow> addr list \<Rightarrow> addr list \<Rightarrow> nat list \<Rightarrow> ghost \<Rightarrow> ghost" where
  "flush_ghost t sc i pre rest ps g = set_own (set pre) InSb (set_cached t sc rest
    (g\<lparr>fl := (fl g)(i := pre @ fl g i), part := (part g)(sc := ps)\<rparr>))"

lemma cached_split:
  assumes inv: "heap_inv s g" and sc: "sc_ok sc" and c: "cached g t sc = pre @ rest" and ne: "pre \<noteq> []"
    and pre: "set pre \<subseteq> blocks s sc i" and k: "used g i" "kind g i = Small sc"
  shows "b \<in> set pre \<Longrightarrow> own g b = InCache t sc" and "b \<in> set pre \<Longrightarrow> small_blk s g b i sc"
    and "b \<in> set rest \<Longrightarrow> own g b = InCache t sc" and "distinct pre" and "distinct rest" and "set pre \<inter> set rest = {}"
    and "set pre \<inter> set (fl g i) = {}" and "run (read_pptr (mem s)) (hd pre) pre"
    and "run (read_pptr (mem s)) (read_pptr (mem s) (last pre)) rest" and "length (pre @ rest) \<le> nblocks sc"
    and "tc_block (t_cache s t sc) = hd pre" and "tc_num (t_cache s t sc) = length pre + length rest"
    and "{b. own g b = InCache t sc} = set pre \<union> set rest" and "b \<in> set rest \<Longrightarrow> \<exists>j. small_blk s g b j sc"
    and "length pre + length (fl g i) \<le> nblocks sc"
proof -
  note ca = cacheD [OF inv sc, of t, unfolded cache_at_def c cache_list_def]
  show o: "own g b = InCache t sc" if "b \<in> set pre" for b
    using cached_own(1) [OF inv sc, of b t] that by (simp add: c)
  show "small_blk s g b i sc" if "b \<in> set pre" using that pre k by (auto simp: small_blk_def)
  show "own g b = InCache t sc" if "b \<in> set rest"
    using cached_own(1) [OF inv sc, of b t] that by (simp add: c)
  show "\<exists>j. small_blk s g b j sc" if "b \<in> set rest"
    using cached_own(2) [OF inv sc, of b t] that by (simp add: c)
  show dp: "distinct pre" and "distinct rest" and "set pre \<inter> set rest = {}" using ca by auto
  have sb: "small_sb s g i sc" by (rule small_okD [OF heap_invD(4) [OF inv] k])
  then have fls: "set (fl g i) = {b \<in> blocks s sc i. own g b = InSb}" "distinct (fl g i)" by (simp_all add: small_sb_def)
  show dj: "set pre \<inter> set (fl g i) = {}" unfolding fls(1) using o by auto
  show hd: "tc_block (t_cache s t sc) = hd pre" using ca ne by (cases pre) (auto simp: run_Cons)
  show "run (read_pptr (mem s)) (hd pre) pre" "run (read_pptr (mem s)) (read_pptr (mem s) (last pre)) rest"
    using ca run_appendD [of "read_pptr (mem s)" "hd pre" pre rest] ne hd by auto
  show "length (pre @ rest) \<le> nblocks sc" "tc_num (t_cache s t sc) = length pre + length rest" using ca by simp_all
  show "{b. own g b = InCache t sc} = set pre \<union> set rest" using ca by simp
  have "card (set pre \<union> set (fl g i)) \<le> card (blocks s sc i)"
    using pre fls(1) by (intro card_mono) (auto simp: blocks_def)
  moreover have "card (set pre \<union> set (fl g i)) = length pre + length (fl g i)"
    using dp fls(2) dj by (simp add: card_Un_disjoint distinct_card)
  moreover have "card (blocks s sc i) = nblocks sc" using block_list_props [OF sc, of s i] distinct_card by metis
  ultimately show "length pre + length (fl g i) \<le> nblocks sc" by simp
qed

lemma flush_run:
  assumes inv: "heap_inv s g" and sc: "sc_ok sc" and c: "cached g t sc = pre @ rest" and ne: "pre \<noteq> []"
    and pre: "set pre \<subseteq> blocks s sc i" and k: "used g i" "kind g i = Small sc"
    and fr: "fl g i \<noteq> [] \<Longrightarrow> run (read_pptr (mem s)) nxt (fl g i)"
  defines "m \<equiv> write_pptr (last pre) nxt (mem s)"
  shows "run (read_pptr m) (hd pre) (pre @ fl g i)" and "run (read_pptr m) (read_pptr (mem s) (last pre)) rest"
    and "\<And>b. linked (own g b) \<Longrightarrow> b \<noteq> last pre \<Longrightarrow> read_pptr m b = read_pptr (mem s) b"
proof -
  note sp = cached_split [OF inv sc c ne pre k]
  have lp: "last pre \<in> set pre" using ne by simp
  have lb: "small_blk s g (last pre) i sc" by (rule sp(2) [OF lp])
  show oth: "read_pptr m b = read_pptr (mem s) b" if "linked (own g b)" "b \<noteq> last pre" for b
    unfolding m_def by (rule write_other_link [OF inv lb that])
  have sb: "small_sb s g i sc" by (rule small_okD [OF heap_invD(4) [OF inv] k])
  have flb: "small_blk s g b i sc" if "b \<in> set (fl g i)" for b
    using that sb k by (auto simp: small_sb_def small_blk_def)
  show "run (read_pptr m) (read_pptr (mem s) (last pre)) rest"
  proof (rule run_cong_set [OF sp(9)])
    fix b assume b: "b \<in> set rest"
    then have "b \<noteq> last pre" using lp sp(6) by blast
    then show "read_pptr (mem s) b = read_pptr m b" using oth [of b] sp(3) [OF b] by (simp add: linked_def)
  qed
  have bl: "b \<noteq> last pre" if "b \<in> set (butlast pre)" for b
  proof -
    have "distinct (butlast pre @ [last pre])" using sp(4) ne by simp
    then show ?thesis using that by auto
  qed
  show "run (read_pptr m) (hd pre) (pre @ fl g i)"
  proof (cases "fl g i = []")
    case True
    have "run (read_pptr m) (hd pre) pre"
    proof (rule run_cong [OF sp(8)])
      fix b assume b: "b \<in> set (butlast pre)"
      then show "read_pptr (mem s) b = read_pptr m b"
        using oth [of b] bl [OF b] sp(1) [OF in_set_butlastD [OF b]] by (simp add: linked_def)
    qed
    then show ?thesis using True by simp
  next
    case False
    have h: "hd (fl g i) = nxt" by (rule run_hd [OF fr [OF False] False])
    then have "small_blk s g nxt i sc" using flb [OF hd_in_set [OF False]] by simp
    then have un: "user_addr nxt" by (rule small_blk_facts(5) [OF inv])
    show ?thesis unfolding m_def
    proof (rule blk.run_link [OF sp(8) ne fr [OF False] small_blk_facts(5) [OF inv lb] un])
      show "apart8 (last pre) b" if "b \<in> set (butlast pre)" for b
        using blk_apart [OF inv lb sp(2) [OF in_set_butlastD [OF that]]] bl [OF that] by simp
      show "apart8 (last pre) b" if "b \<in> set (butlast (fl g i))" for b
      proof -
        have "b \<in> set (fl g i)" using that by (rule in_set_butlastD)
        moreover from this have "last pre \<noteq> b" using lp sp(7) by blast
        ultimately show ?thesis using blk_apart [OF inv lb flb] by blast
      qed
    qed
  qed
qed

lemma flush_blocks_ok:
  assumes inv: "heap_inv s g" and sc: "sc_ok sc" and c: "cached g t sc = pre @ rest" and ne: "pre \<noteq> []"
    and pre: "set pre \<subseteq> blocks s sc i" and k: "used g i" "kind g i = Small sc"
    and fr: "fl g i \<noteq> [] \<Longrightarrow> run (read_pptr (mem s)) nxt (fl g i)"
    and m: "mem s' = write_pptr (last pre) nxt (mem s)"
    and same: "sb_start s' = sb_start s" "desc_start s' = desc_start s" "sb_region s' = sb_region s"
      "avail_sb s' = avail_sb s" "roots s' = roots s" "\<And>h. sc_idx (heaps s' h) = sc_idx (heaps s h)"
    and tc: "\<And>t' sc'. t_cache s' t' sc' = (if t' = t \<and> sc' = sc
      then \<lparr>tc_block = read_pptr (mem s) (last pre), tc_num = length rest\<rparr> else t_cache s t' sc')"
    and dj: "\<And>j. j \<noteq> i \<Longrightarrow> desc_of s' j = desc_of s j"
    and di: "heap (desc_of s' i) = Some sc" "desc_block_size (desc_of s' i) = bsize sc"
      "maxcount (desc_of s' i) = nblocks sc" "superblock (desc_of s' i) = superblock (desc_of s i)"
    and a: "anchor (desc_of s' i) = a" "avail a < nblocks sc" "sbk s i + avail a * bsize sc = hd pre"
      "state a = SB_PARTIAL \<and> count a = length pre + length (fl g i) \<and> count a < nblocks sc \<or>
       state a = SB_EMPTY \<and> count a = nblocks sc - 1 \<and> length pre + length (fl g i) = nblocks sc"
    and pl: "\<And>sc'. sc' \<noteq> sc \<Longrightarrow> partial_list (heaps s' sc') = partial_list (heaps s sc')"
    and part: "nonfull s g sc i \<and> partial_list (heaps s' sc) = partial_list (heaps s sc) \<and>
        next_partial (desc_of s' i) = next_partial (desc_of s i) \<and> ps = part g sc \<or>
      \<not> nonfull s g sc i \<and> pc_ptr (acp_load (desc_start s) (partial_list (heaps s' sc))) = dsc s i \<and>
        partial_link (descs s') (dsc s i) = pc_ptr (acp_load (desc_start s) (partial_list (heaps s sc))) \<and>
        ps = i # part g sc"
  shows "internal t sc s g s' (flush_ghost t sc i pre rest ps g)"
proof -
  let ?g' = "flush_ghost t sc i pre rest ps g"
  note sp = cached_split [OF inv sc c ne pre k] and fr' = flush_run [OF inv sc c ne pre k fr, folded m]
  have sb: "small_sb s g i sc" by (rule small_okD [OF heap_invD(4) [OF inv] k])
  have ow: "own ?g' b = (if b \<in> set pre then InSb else own g b)" for b
    by (simp add: flush_ghost_def set_cached_def)
  have gs: "kind ?g' = kind g" "nsb ?g' = nsb g" "free ?g' = free g" "fl ?g' j = (if j = i then pre @ fl g i else fl g j)"
    "part ?g' sc' = (if sc' = sc then ps else part g sc')" "used ?g' = used g"
    "cached ?g' t' sc' = (if t' = t \<and> sc' = sc then rest else cached g t' sc')" for j sc' t'
    by (simp_all add: flush_ghost_def fun_eq_iff)
  have addr: "sbk s' = sbk s" "blocks s' = blocks s" "dsc s' = dsc s"
    using same(1,2) by (simp_all add: sbk_def blocks_def dsc_def fun_eq_iff)
  have lp: "last pre \<in> set pre" using ne by simp
  have f: "frame {i} s g s' ?g'"
    unfolding frame_def ow gs
  proof (intro conjI allI impI)
    show "(if b \<in> set pre then InSb else own g b) = own g b" if "b \<notin> \<Union> (sb_range s ` {i})" for b
      using that pre blocks_range [OF _ sc, of b s i] by auto
    show "read_pptr (mem s') b = read_pptr (mem s) b"
      if "(if b \<in> set pre then InSb else own g b) = own g b" "linked (own g b)" for b
      using that sp(1) [of b] lp by (intro fr'(3)) auto
  qed (use same dj in auto)
  have cache: "cache_at s' ?g' t sc"
  proof -
    have "set rest = {b. own ?g' b = InCache t sc}" unfolding ow using sp(6,13) by auto
    then show ?thesis
      using fr'(2) sp(5,10) by (simp add: cache_at_def cache_list_def gs tc)
  qed
  have sb': "small_sb s' ?g' i sc"
  proof -
    have fls: "set (fl g i) = {b \<in> blocks s sc i. own g b = InSb}" "distinct (fl g i)" "CrossPtr_cast (sb_start s) (superblock (desc_of s i)) = sbk s i"
      using sb by (simp_all add: small_sb_def small_at_def)
    have "set (pre @ fl g i) = {b \<in> blocks s sc i. own ?g' b = InSb}"
      unfolding set_append fls(1) ow using pre by auto
    moreover have "distinct (pre @ fl g i)" using sp(4,7) fls(2) by auto
    moreover have "small_at (mem s') (sb_start s) (sbk s i) sc (desc_of s' i) (pre @ fl g i)"
    proof -
      have "0 < length pre" using ne by simp
      then show ?thesis using fr'(1) di a fls(3) by (auto simp: small_at_def)
    qed
    ultimately show ?thesis using sc by (simp add: small_sb_def addr same gs)
  qed
  have nf': "nonfull s' ?g' sc i" using k a(1,4) by (auto simp: nonfull_def gs)
  have inv': "heap_inv s' ?g'"
  proof (rule heap_inv_block_step [OF inv f])
    show "small_sb s' ?g' i sc'" if "kind ?g' i = Small sc'" for sc'
      using that k sb' by (simp add: gs)
    show "own ?g' b = InSb \<or> (\<exists>t. own ?g' b = InCache t sc') \<or> own ?g' b = User"
      if "kind ?g' i = Small sc'" "b \<in> blocks s sc' i" for sc' b
      using that k small_sb_ownD(1) [OF inv k, of b] unfolding ow gs by auto
    show "own ?g' b = NoBlock" if "b \<in> sb_range s i" "\<And>sc. kind ?g' i = Small sc \<Longrightarrow> b \<notin> blocks s sc i" for b
    proof -
      have "b \<notin> blocks s sc i" using that(2) [of sc] k by (simp add: gs)
      then show ?thesis using that(1) small_sb_ownD(2) [OF inv k, of b] pre unfolding ow by auto
    qed
    show "part_list_ok s' ?g' sc' \<or> partial_list (heaps s' sc') = partial_list (heaps s sc') \<and>
        part ?g' sc' = part g sc' \<and> nonfull s' ?g' sc' i = nonfull s g sc' i \<and>
        (nonfull s g sc' i \<longrightarrow> next_partial (desc_of s' i) = next_partial (desc_of s i))" for sc'
    proof (cases "sc' = sc")
      case False
      then show ?thesis using k pl [of sc'] by (simp add: nonfull_def gs)
    next
      case True
      show ?thesis using part
      proof (elim disjE conjE)
        assume "nonfull s g sc i" "partial_list (heaps s' sc) = partial_list (heaps s sc)"
          "next_partial (desc_of s' i) = next_partial (desc_of s i)" "ps = part g sc"
        then show ?thesis using nf' unfolding True gs by simp
      next
        assume n: "\<not> nonfull s g sc i" "pc_ptr (acp_load (desc_start s) (partial_list (heaps s' sc))) = dsc s i"
          "partial_link (descs s') (dsc s i) = pc_ptr (acp_load (desc_start s) (partial_list (heaps s sc)))"
          "ps = i # part g sc"
        have "part_list_ok s' ?g' sc"
          by (rule part_push [OF partD [OF inv sc] f n(1) nf' n(2,3)]) (unfold gs, simp add: n(4))
        then show ?thesis using True by simp
      qed
    qed
    show "cache_at s' ?g' t' sc' \<or> t_cache s' t' sc' = t_cache s t' sc' \<and> cached ?g' t' sc' = cached g t' sc' \<and>
        (\<forall>b. own ?g' b = InCache t' sc' \<longleftrightarrow> own g b = InCache t' sc')" for t' sc'
    proof (cases "t' = t \<and> sc' = sc")
      case False
      then show ?thesis using sp(1) unfolding ow by (auto simp: gs tc)
    qed (use cache in simp)
    show "small_or_held (kind g i)" "small_or_held (kind ?g' i)" using k by (simp_all add: small_or_held_def gs)
  qed (simp_all add: k same gs)
  show ?thesis
  proof (rule internalI [OF inv inv' f])
    show "users ?g' = users g" using sp(1) by (intro users_own_cong) (auto simp: ow)
    show "desc_block_size (desc_of s' j) = desc_block_size (desc_of s j)" if "j \<in> {i}" for j
      using that di(2) sb by (simp add: small_sb_def small_at_def)
    show "mem s' x = mem s x" if "b \<in> users g" "x \<in> extent s b" for b x
      unfolding m using write_keeps_live [OF inv sp(2) [OF lp] _ that] sp(1) [OF lp] by simp
  qed (auto simp: same gs)
qed

section \<open>A whole superblock comes back at once\<close>

definition flush_held_ghost :: "nat \<Rightarrow> nat \<Rightarrow> nat \<Rightarrow> addr list \<Rightarrow> ralloc \<Rightarrow> ghost \<Rightarrow> ghost" where
  "flush_held_ghost t sc i rest s g = set_own (blocks s sc i) NoBlock (set_cached t sc rest
    (g\<lparr>kind := (kind g)(i := Held)\<rparr>))"

lemma flush_held_ok:
  assumes inv: "heap_inv s g" and sc: "sc_ok sc" and c: "cached g t sc = pre @ rest" and ne: "pre \<noteq> []"
    and pre: "set pre \<subseteq> blocks s sc i" and k: "used g i" "kind g i = Small sc"
    and all: "length pre = nblocks sc" and nf: "\<not> nonfull s g sc i"
    and m: "mem s' = write_pptr (last pre) nxt (mem s)"
    and same: "sb_start s' = sb_start s" "desc_start s' = desc_start s" "sb_region s' = sb_region s"
      "avail_sb s' = avail_sb s" "roots s' = roots s" "heaps s' = heaps s"
    and tc: "\<And>t' sc'. t_cache s' t' sc' = (if t' = t \<and> sc' = sc
      then \<lparr>tc_block = read_pptr (mem s) (last pre), tc_num = length rest\<rparr> else t_cache s t' sc')"
    and dj: "\<And>j. j \<noteq> i \<Longrightarrow> desc_of s' j = desc_of s j"
  shows "internal t sc s g s' (flush_held_ghost t sc i rest s g)"
proof -
  let ?g' = "flush_held_ghost t sc i rest s g"
  note sp = cached_split [OF inv sc c ne pre k]
  have lp: "last pre \<in> set pre" using ne by simp
  have "card (set pre) = card (blocks s sc i)"
    using all sp(4) block_list_props [OF sc, of s i] distinct_card by metis
  then have eq: "blocks s sc i = set pre"
    using pre by (metis card_subset_eq blocks_def finite_imageI finite_lessThan)
  have oth: "read_pptr (mem s') b = read_pptr (mem s) b" if "linked (own g b)" "b \<notin> set pre" for b
    unfolding m using write_other_link [OF inv sp(2) [OF lp] that(1)] lp that(2) by blast
  have ow: "own ?g' b = (if b \<in> set pre then NoBlock else own g b)" for b
    by (simp add: flush_held_ghost_def eq)
  have gs: "kind ?g' j = (if j = i then Held else kind g j)" "nsb ?g' = nsb g" "free ?g' = free g" "fl ?g' = fl g"
    "part ?g' = part g" "used ?g' = used g"
    "cached ?g' t' sc' = (if t' = t \<and> sc' = sc then rest else cached g t' sc')" for j sc' t'
    by (simp_all add: flush_held_ghost_def fun_eq_iff)
  have f: "frame {i} s g s' ?g'"
    unfolding frame_def ow gs
  proof (intro conjI allI impI)
    show "(if b \<in> set pre then NoBlock else own g b) = own g b" if "b \<notin> \<Union> (sb_range s ` {i})" for b
      using that pre blocks_range [OF _ sc, of b s i] by auto
    show "read_pptr (mem s') b = read_pptr (mem s) b"
      if "(if b \<in> set pre then NoBlock else own g b) = own g b" "linked (own g b)" for b
      using that sp(1) [of b] by (intro oth) (auto simp: linked_def)
  qed (use same dj in auto)
  have "cache_at s' ?g' t sc"
  proof -
    have "set rest = {b. own ?g' b = InCache t sc}" unfolding ow using sp(6,13) by auto
    moreover have "run (read_pptr (mem s')) (read_pptr (mem s) (last pre)) rest"
    proof (rule run_cong_set [OF sp(9)])
      fix b assume b: "b \<in> set rest"
      then have "b \<notin> set pre" using sp(6) by blast
      then show "read_pptr (mem s) b = read_pptr (mem s') b" using oth [of b] sp(3) [OF b] by (simp add: linked_def)
    qed
    ultimately show ?thesis using sp(5,10) by (simp add: cache_at_def cache_list_def gs tc)
  qed
  then have cache: "cache_at s' ?g' t' sc' \<or> t_cache s' t' sc' = t_cache s t' sc' \<and> cached ?g' t' sc' = cached g t' sc' \<and>
        (\<forall>b. own ?g' b = InCache t' sc' \<longleftrightarrow> own g b = InCache t' sc')" for t' sc'
    using sp(1) unfolding ow by (cases "t' = t \<and> sc' = sc") (auto simp: gs tc)
  have inv': "heap_inv s' ?g'"
  proof (rule heap_inv_block_step [OF inv f])
    show "own ?g' b = NoBlock" if "b \<in> sb_range s i" for b
      using that small_sb_ownD(2) [OF inv k, of b] unfolding ow eq by auto
    show "small_or_held (kind g i)" "small_or_held (kind ?g' i)" using k by (simp_all add: small_or_held_def gs)
    show "part_list_ok s' ?g' sc' \<or> partial_list (heaps s' sc') = partial_list (heaps s sc') \<and>
        part ?g' sc' = part g sc' \<and> nonfull s' ?g' sc' i = nonfull s g sc' i \<and>
        (nonfull s g sc' i \<longrightarrow> next_partial (desc_of s' i) = next_partial (desc_of s i))" for sc'
    proof -
      have "\<not> nonfull s g sc' i" using nf k by (auto simp: nonfull_def)
      moreover have "\<not> nonfull s' ?g' sc' i" by (simp add: nonfull_def gs)
      ultimately show ?thesis by (simp add: same gs)
    qed
    show "cache_at s' ?g' t' sc' \<or> t_cache s' t' sc' = t_cache s t' sc' \<and> cached ?g' t' sc' = cached g t' sc' \<and>
        (\<forall>b. own ?g' b = InCache t' sc' \<longleftrightarrow> own g b = InCache t' sc')" for t' sc'
      by (rule cache)
  qed (simp_all add: k same gs)
  show ?thesis
  proof (rule internalI [OF inv inv' f])
    show "users ?g' = users g" using sp(1) by (intro users_own_cong) (auto simp: ow)
    show "mem s' x = mem s x" if "b \<in> users g" "x \<in> extent s b" for b x
      unfolding m using write_keeps_live [OF inv sp(2) [OF lp] _ that] sp(1) [OF lp] by simp
    show "desc_block_size (desc_of s' j) = desc_block_size (desc_of s j)"
      if j: "j \<in> {i}" "\<exists>b \<in> users g. b \<in> sb_range s j" for j
    proof -
      obtain b where b: "own g b = User" "b \<in> sb_range s i" using j by (auto simp: users_def)
      then have "b \<in> set pre" using small_sb_ownD(2) [OF inv k, of b] eq by auto
      then show ?thesis using sp(1) b by simp
    qed
  qed (auto simp: same gs)
qed

section \<open>One round\<close>

lemma flush_anchor_eq:
  assumes "state a = SB_FULL \<and> count a = 0 \<or> state a = SB_PARTIAL" and "count a + bc \<le> n" and "n \<le> 8192"
    and "0 < bc" and "idx < n"
  shows "avail (flush_anchor idx bc n a) = idx"
    and "state (flush_anchor idx bc n a) = (if count a + bc = n then SB_EMPTY else SB_PARTIAL)"
    and "count (flush_anchor idx bc n a) = (if count a + bc = n then n - 1 else count a + bc)"
  using assms by (auto simp: flush_anchor_def Let_def set_avail_def set_count_def set_state_def)

lemma heap_push_partial_eq:
  assumes "acp_start (desc_start s)" and "heap (desc_of s i) = Some h"
    and "pc_ptr (acp_load (desc_start s) (partial_list (heaps s h))) \<noteq> dsc s i"
  shows "heap_push_partial (dsc s i) s = Inr (set_partial_list h
      (acp_store (desc_start s) (ptr_cnt_set (dsc s i) (pc_cnt (acp_load (desc_start s) (partial_list (heaps s h))) + 1)))
      (s\<lparr>descs := next_partial_store (dsc s i) (pc_ptr (acp_load (desc_start s) (partial_list (heaps s h)))) (descs s)\<rparr>))"
  using assms acp_cas_after_load(2) [OF assms(1)]
  by (simp add: heap_push_partial_def desc_of_def Let_def get_ptr_def get_counter_def ptr_cnt_set_def)

lemma flush_one_step:
  assumes inv: "heap_inv s g" and sc: "sc_ok sc" and c: "cached g t sc = x # xs"
  shows "\<exists>i pre rest idx. cached g t sc = pre @ rest \<and> pre \<noteq> [] \<and> set pre \<subseteq> blocks s sc i \<and> used g i \<and> kind g i = Small sc \<and>
    hd pre = sbk s i + idx * bsize sc \<and> idx < nblocks sc \<and>
    flush_one t sc s = (let a = anchor (desc_of s i);
       a' = flush_anchor idx (length pre) (nblocks sc) a;
       s3 = upd_desc (dsc s i) (\<lambda>d. d\<lparr>anchor := a'\<rparr>)
         (set_cache t sc \<lparr>tc_block = read_pptr (mem s) (last pre), tc_num = length rest\<rparr> s
           \<lparr>mem := write_pptr (last pre) (sbk s i + (avail a * bsize sc) mod 2 ^ 32) (mem s)\<rparr>)
     in check (count a < nblocks sc) (check (avail a < nblocks sc \<or> state a = SB_FULL)
       (check (avail a' < nblocks sc) (check (count a' < nblocks sc)
         (if state a = SB_FULL then (if state a' = SB_EMPTY then small_sb_retire (sbk s i) SBSIZE s3
            else heap_push_partial (dsc s i) s3) else Inr s3)))))"
proof -
  obtain i where i: "small_blk s g x i sc" using cached_own(2) [OF inv sc, of x t] c by auto
  note bf = small_blk_facts [OF inv i]
  have k: "used g i" "kind g i = Small sc" using i by (simp_all add: small_blk_def)
  let ?P = "\<lambda>y. sbk s i \<le> y \<and> y < sbk s i + SBSIZE"
  let ?pre = "x # takeWhile ?P xs" and ?rest = "dropWhile ?P xs"
  have split: "cached g t sc = ?pre @ ?rest" using c by simp
  have pre: "set ?pre \<subseteq> blocks s sc i"
  proof
    fix y assume y: "y \<in> set ?pre"
    then have r: "y \<in> sb_range s i" using bf(3) by (auto simp: sb_range_def dest: set_takeWhileD)
    have "y \<in> set (cached g t sc)" using y c by (auto dest: set_takeWhileD)
    then obtain j where j: "small_blk s g y j sc" using cached_own(2) [OF inv sc, of y t] by blast
    then have "j = i" using small_blk_unique [OF inv j r] by simp
    then show "y \<in> blocks s sc i" using j by (simp add: small_blk_def)
  qed
  obtain idx where idx: "x = sbk s i + idx * bsize sc" "idx < nblocks sc" using bf(8) by (auto simp: blocks_def)
  note sf = sizeclass_fields [of sc]
  have sfs: "block_size (get_sizeclass_by_idx sc) = bsize sc" "sb_size (get_sizeclass_by_idx sc) = SBSIZE"
    "get_block_num (get_sizeclass_by_idx sc) = nblocks sc" using sf sc by (simp_all add: sc_ok_def get_block_num_def)
  note ca = cacheD [OF inv sc, of t, unfolded cache_at_def c cache_list_def]
  have run: "run (read_pptr (mem s)) x (x # xs)" and num: "tc_num (t_cache s t sc) = 1 + length xs"
    and blk: "tc_block (t_cache s t sc) = x" using ca by (simp_all add: run_Cons)
  have srun: "same_sb_run (mem s) (sbk s i) SBSIZE (1 + length xs) x 1 = (last ?pre, length ?pre)"
    using same_sb_run_eq [OF run, of "sbk s i" SBSIZE 1] by simp
  have len: "length ?pre \<le> 1 + length xs" using length_takeWhile_le [of ?P xs] by simp
  have lr: "1 + length xs - length ?pre = length ?rest"
    by (metis append_Cons length_Cons length_append plus_1_eq_Suc takeWhile_dropWhile_id add_diff_cancel_left')
  have sb: "CrossPtr_cast (sb_start s) (superblock (desc_of s i)) = sbk s i" "maxcount (desc_of s i) = nblocks sc"
    using bf(9) by (simp_all add: small_sb_def small_at_def)
  have ci: "compute_idx (sbk s i) x sc = Inr idx" unfolding idx(1) by (rule compute_idx_block [OF sc idx(2)])
  have d: "descs s (dsc s i) = desc_of s i" by (simp add: desc_of_def)
  have "flush_one t sc s = (let a = anchor (desc_of s i);
       a' = flush_anchor idx (length ?pre) (nblocks sc) a;
       s3 = upd_desc (dsc s i) (\<lambda>d. d\<lparr>anchor := a'\<rparr>)
         (set_cache t sc \<lparr>tc_block = read_pptr (mem s) (last ?pre), tc_num = length ?rest\<rparr> s
           \<lparr>mem := write_pptr (last ?pre) (sbk s i + (avail a * bsize sc) mod 2 ^ 32) (mem s)\<rparr>)
     in check (count a < nblocks sc) (check (avail a < nblocks sc \<or> state a = SB_FULL)
       (check (avail a' < nblocks sc) (check (count a' < nblocks sc)
         (if state a = SB_FULL then (if state a' = SB_EMPTY then small_sb_retire (sbk s i) SBSIZE s3
            else heap_push_partial (dsc s i) s3) else Inr s3)))))"
    unfolding flush_one_def sfs Let_def peek_block_def blk bf(6) d sb num srun pop_list_def prod.case
    using len lr ci by (simp only: check_simps and_then_simps set_cache_simps d sb)
  with split pre k idx show ?thesis
    by (intro exI [of _ i] exI [of _ ?pre] exI [of _ ?rest] exI [of _ idx]) simp
qed

lemma heap_push_partial_ok:
  assumes inv: "heap_inv s g" and sc: "sc_ok sc" and k: "used g i" and nf: "\<not> nonfull s g sc i"
    and same: "desc_start s' = desc_start s" "heaps s' = heaps s" and h: "heap (desc_of s' i) = Some sc"
  shows "\<exists>w np. heap_push_partial (dsc s i) s' =
      Inr (set_partial_list sc w (upd_desc (dsc s i) (\<lambda>d. d\<lparr>next_partial := np\<rparr>) s')) \<and>
    pc_ptr (acp_load (desc_start s) w) = dsc s i \<and>
    checked_load (dsc s i + 8) np = pc_ptr (acp_load (desc_start s) (partial_list (heaps s sc)))"
proof -
  let ?old = "acp_load (desc_start s) (partial_list (heaps s sc))"
  note gm = heap_invD(1) [OF inv]
  have st: "acp_start (desc_start s)" using gm by (simp add: geom_def)
  have d: "dsc s' = dsc s" using same by (simp add: dsc_def fun_eq_iff)
  have ne: "pc_ptr ?old \<noteq> dsc s i"
  proof (cases "part g sc")
    case Nil
    then have "pc_ptr ?old = 0" using partD [OF inv sc] by (simp add: part_list_ok_def)
    then show ?thesis using geom_bounds(7) [OF gm] by metis
  next
    case (Cons j js)
    note ph = part_hd [OF partD [OF inv sc] Cons]
    have "j \<noteq> i" using ph(1) nf by auto
    then show ?thesis unfolding ph(2) by simp
  qed
  have i: "1 \<le> i" "i < nsb g" using k by (simp_all add: used_def)
  have ld: "pc_ptr (acp_load (desc_start s) (acp_store (desc_start s) (ptr_cnt_set (dsc s i) c))) = dsc s i" for c
    by (rule acp_load_store_set [OF geom_bounds(6) [OF gm i]])
  have "user_addr (pc_ptr ?old)" using acp_load_ptr(1) [OF st, of "partial_list (heaps s sc)"]
    by (auto simp: acp_ptr_def user_addr_def)
  moreover have "user_addr (dsc s i + 8)" using geom_bounds(5) [OF gm i(2)] by (simp add: desc_addr_ok_def)
  ultimately have np: "checked_load (dsc s i + 8) (atomic_pptr_store (dsc s i + 8) (pc_ptr ?old)) = pc_ptr ?old"
    by (rule checked_load_store)
  have "heap_push_partial (dsc s i) s' = Inr (set_partial_list sc
      (acp_store (desc_start s) (ptr_cnt_set (dsc s i) (pc_cnt ?old + 1)))
      (upd_desc (dsc s i) (\<lambda>d. d\<lparr>next_partial := atomic_pptr_store (dsc s i + 8) (pc_ptr ?old)\<rparr>) s'))"
    using heap_push_partial_eq [of s' i sc] st ne h unfolding d same
    by (simp add: upd_desc_def next_partial_store_def)
  with ld np show ?thesis by blast
qed

lemma flush_one_ok:
  assumes inv: "heap_inv s g" and sc: "sc_ok sc" and c: "cached g t sc \<noteq> []"
  shows "\<exists>s' g'. flush_one t sc s = Inr s' \<and> internal t sc s g s' g' \<and> held g' = held g \<and>
    length (cached g' t sc) < length (cached g t sc)"
proof -
  obtain x xs where "cached g t sc = x # xs" using c by (cases "cached g t sc") auto
  from flush_one_step [OF inv sc this] obtain i pre rest idx where
    split: "cached g t sc = pre @ rest" and ne: "pre \<noteq> []" and pre: "set pre \<subseteq> blocks s sc i"
    and k: "used g i" "kind g i = Small sc" and hd: "hd pre = sbk s i + idx * bsize sc" and idx: "idx < nblocks sc"
    and ev: "flush_one t sc s = (let a = anchor (desc_of s i);
       a' = flush_anchor idx (length pre) (nblocks sc) a;
       s3 = upd_desc (dsc s i) (\<lambda>d. d\<lparr>anchor := a'\<rparr>)
         (set_cache t sc \<lparr>tc_block = read_pptr (mem s) (last pre), tc_num = length rest\<rparr> s
           \<lparr>mem := write_pptr (last pre) (sbk s i + (avail a * bsize sc) mod 2 ^ 32) (mem s)\<rparr>)
     in check (count a < nblocks sc) (check (avail a < nblocks sc \<or> state a = SB_FULL)
       (check (avail a' < nblocks sc) (check (count a' < nblocks sc)
         (if state a = SB_FULL then (if state a' = SB_EMPTY then small_sb_retire (sbk s i) SBSIZE s3
            else heap_push_partial (dsc s i) s3) else Inr s3)))))" by blast
  define a where "a = anchor (desc_of s i)"
  define a' where "a' = flush_anchor idx (length pre) (nblocks sc) a"
  define nxt where "nxt = sbk s i + (avail a * bsize sc) mod 2 ^ 32"
  define s3 where "s3 = upd_desc (dsc s i) (\<lambda>d. d\<lparr>anchor := a'\<rparr>)
    (set_cache t sc \<lparr>tc_block = read_pptr (mem s) (last pre), tc_num = length rest\<rparr> s
      \<lparr>mem := write_pptr (last pre) nxt (mem s)\<rparr>)"
  note sp = cached_split [OF inv sc split ne pre k]
  have sb: "small_at (mem s) (sb_start s) (sbk s i) sc (desc_of s i) (fl g i)"
    using small_okD [OF heap_invD(4) [OF inv] k] by (simp add: small_sb_def)
  have lp: "0 < length pre" using ne by simp
  have st: "state a = SB_FULL \<and> count a = 0 \<and> fl g i = [] \<or>
    state a = SB_PARTIAL \<and> count a = length (fl g i) \<and> avail a < nblocks sc \<and> run (read_pptr (mem s)) (sbk s i + avail a * bsize sc) (fl g i)"
    using sb sp(15) lp by (cases "state a") (simp_all add: small_at_def a_def)
  have cnt: "count a = length (fl g i)" using st by auto
  have n8: "nblocks sc \<le> 8192" using nblocks_props(3) sc by (simp add: sc_ok_def)
  have st0: "state a = SB_FULL \<and> count a = 0 \<or> state a = SB_PARTIAL" "count a + length pre \<le> nblocks sc"
    using st sp(15) cnt by auto
  note fa = flush_anchor_eq [OF st0 n8 lp idx, folded a'_def]
  have fr: "run (read_pptr (mem s)) nxt (fl g i)" if "fl g i \<noteq> []"
    using st that block_offset_mod [OF sc, of "avail a"] by (auto simp: nxt_def)
  have ck: "avail a < nblocks sc \<or> state a = SB_FULL" "avail a' < nblocks sc" using st idx fa(1) by auto
  have ck4: "count a < nblocks sc" using st0(2) lp by linarith
  have ck5: "count a' < nblocks sc" using fa(3) st0(2) idx by simp
  have ev': "flush_one t sc s = (if state a = SB_FULL then (if state a' = SB_EMPTY then small_sb_retire (sbk s i) SBSIZE s3
            else heap_push_partial (dsc s i) s3) else Inr s3)"
    unfolding ev Let_def a_def [symmetric] nxt_def [symmetric] a'_def [symmetric] s3_def [symmetric]
    using ck ck4 ck5 by (simp only: check_simps if_True)
  have b3: "mem s3 = write_pptr (last pre) nxt (mem s)" "sb_start s3 = sb_start s" "desc_start s3 = desc_start s"
    "sb_region s3 = sb_region s" "avail_sb s3 = avail_sb s" "roots s3 = roots s" "heaps s3 = heaps s"
    "dsc s3 = dsc s" "sbk s3 = sbk s"
    by (simp_all add: s3_def)
  have tc3: "t_cache s3 t' sc' = (if t' = t \<and> sc' = sc
      then \<lparr>tc_block = read_pptr (mem s) (last pre), tc_num = length rest\<rparr> else t_cache s t' sc')" for t' sc'
    by (simp add: s3_def)
  have d3: "desc_of s3 j = (if j = i then (desc_of s i)\<lparr>anchor := a'\<rparr> else desc_of s j)" for j
    by (simp add: s3_def desc_of_def upd_desc_def dsc_def pm_consts)
  have sm: "heap (desc_of s i) = Some sc" "desc_block_size (desc_of s i) = bsize sc" "maxcount (desc_of s i) = nblocks sc"
    using sb by (simp_all add: small_at_def)
  have a4: "state a' = SB_PARTIAL \<and> count a' = length pre + length (fl g i) \<and> count a' < nblocks sc \<or>
       state a' = SB_EMPTY \<and> count a' = nblocks sc - 1 \<and> length pre + length (fl g i) = nblocks sc"
    using fa(2,3) st0(2) cnt by simp
  have shorter: "length rest < length (cached g t sc)" using split lp by simp
  have fg: "held (flush_ghost t sc i pre rest ps g) = held g" "cached (flush_ghost t sc i pre rest ps g) t sc = rest" for ps
    by (simp_all add: held_def flush_ghost_def used_def)
  show ?thesis
  proof (cases "state a = SB_FULL")
    case False
    have "internal t sc s g s3 (flush_ghost t sc i pre rest (part g sc) g)"
    proof (rule flush_blocks_ok [OF inv sc split ne pre k fr b3(1)])
      show "nonfull s g sc i \<and> partial_list (heaps s3 sc) = partial_list (heaps s sc) \<and>
          next_partial (desc_of s3 i) = next_partial (desc_of s i) \<and> part g sc = part g sc \<or>
        \<not> nonfull s g sc i \<and> pc_ptr (acp_load (desc_start s) (partial_list (heaps s3 sc))) = dsc s i \<and>
          partial_link (descs s3) (dsc s i) = pc_ptr (acp_load (desc_start s) (partial_list (heaps s sc))) \<and>
          part g sc = i # part g sc"
        using False k by (simp add: nonfull_def b3 d3 a_def)
    qed (use a4 ck hd fa(1) sm in \<open>simp_all add: b3 tc3 d3\<close>)
    then show ?thesis using ev' False fg shorter by auto
  next
    case True
    then have nf: "\<not> nonfull s g sc i" by (simp add: nonfull_def a_def)
    show ?thesis
    proof (cases "state a' = SB_EMPTY")
      case False
      obtain w np where w: "heap_push_partial (dsc s i) s3 =
          Inr (set_partial_list sc w (upd_desc (dsc s i) (\<lambda>d. d\<lparr>next_partial := np\<rparr>) s3))"
        "pc_ptr (acp_load (desc_start s) w) = dsc s i"
        "checked_load (dsc s i + 8) np = pc_ptr (acp_load (desc_start s) (partial_list (heaps s sc)))"
        using heap_push_partial_ok [OF inv sc k(1) nf b3(3,7)] sm(1) by (auto simp: d3)
      define s4 where "s4 = set_partial_list sc w (upd_desc (dsc s i) (\<lambda>d. d\<lparr>next_partial := np\<rparr>) s3)"
      have d4: "desc_of s4 j = (if j = i then (desc_of s i)\<lparr>anchor := a', next_partial := np\<rparr> else desc_of s j)" for j
        using d3 [of j] by (auto simp: s4_def desc_of_def upd_desc_def dsc_def b3(3) pm_consts)
      have b4: "mem s4 = mem s3" "sb_start s4 = sb_start s3" "desc_start s4 = desc_start s3" "sb_region s4 = sb_region s3"
        "avail_sb s4 = avail_sb s3" "roots s4 = roots s3" "t_cache s4 = t_cache s3"
        "sc_idx (heaps s4 h) = sc_idx (heaps s3 h)"
        "partial_list (heaps s4 h) = (if h = sc then w else partial_list (heaps s3 h))" for h
        by (simp_all add: s4_def)
      have "internal t sc s g s4 (flush_ghost t sc i pre rest (i # part g sc) g)"
      proof (rule flush_blocks_ok [OF inv sc split ne pre k fr])
        have "partial_link (descs s4) (dsc s i) = pc_ptr (acp_load (desc_start s) (partial_list (heaps s sc)))"
          using w(3) by (simp add: s4_def partial_link_def upd_desc_def)
        then show "nonfull s g sc i \<and> partial_list (heaps s4 sc) = partial_list (heaps s sc) \<and>
            next_partial (desc_of s4 i) = next_partial (desc_of s i) \<and> i # part g sc = part g sc \<or>
          \<not> nonfull s g sc i \<and> pc_ptr (acp_load (desc_start s) (partial_list (heaps s4 sc))) = dsc s i \<and>
            partial_link (descs s4) (dsc s i) = pc_ptr (acp_load (desc_start s) (partial_list (heaps s sc))) \<and>
            i # part g sc = i # part g sc"
          using nf w(2) by (simp add: b4)
        show "mem s4 = write_pptr (last pre) nxt (mem s)" by (simp add: b3 b4)
      qed (use a4 ck hd fa(1) sm in \<open>simp_all add: b3 b4 tc3 d4\<close>)
      then show ?thesis using ev' True False fg w(1) [folded s4_def] shorter by auto
    next
      case e: True
      have all: "length pre = nblocks sc" using e fa(2) st True by (auto split: if_splits)
      let ?g3 = "flush_held_ghost t sc i rest s g"
      have i3: "internal t sc s g s3 ?g3"
        by (rule flush_held_ok [OF inv sc split ne pre k all nf b3(1)]) (simp_all add: b3 tc3 d3)
      have hk: "kind ?g3 j = (if j = i then Held else kind g j)" "nsb ?g3 = nsb g" "cached ?g3 t sc = rest" for j
        by (simp_all add: flush_held_ghost_def set_own_def)
      have inv3: "heap_inv s3 ?g3" using i3 by (simp add: internal_def)
      have i1: "1 \<le> i" "i + 1 \<le> nsb ?g3" using k(1) by (simp_all add: used_def hk)
      have h1: "kind ?g3 j = Held" if "i \<le> j" "j < i + 1" for j using that by (simp add: hk)
      obtain s4 where s4: "organize_sb_list (sbk s3 i) 1 s3 = Inr s4" "internal t sc s3 ?g3 s4 (to_free i 1 ?g3)"
        using organize_internal [OF inv3 i1(1) zero_less_one i1(2) h1, of t sc] by blast
      have hd3: "held ?g3 - {i..<i + 1} = held g" unfolding held_def used_def hk using k(2) by auto
      have "held (to_free i 1 ?g3) = held g" by (rule trans [OF held_to_free hd3]) (rule h1)
      moreover have "cached (to_free i 1 ?g3) t sc = rest" by (simp add: to_free_def hk)
      moreover have "flush_one t sc s = Inr s4"
        using s4(1) unfolding ev' b3(9) small_sb_retire_organize by (simp only: True e simp_thms if_True)
      ultimately show ?thesis using internal_trans [OF i3 s4(2)] shorter
        by (intro exI [of _ s4] exI [of _ "to_free i 1 ?g3"]) (simp only: simp_thms)
    qed
  qed
qed

section \<open>The whole cache\<close>

lemma cached_num: "heap_inv s g \<Longrightarrow> sc_ok sc \<Longrightarrow> tc_num (t_cache s t sc) = length (cached g t sc)"
  using cacheD [of s g sc t] by (simp add: cache_at_def cache_list_def)

lemma flush_cache_ok:
  assumes "heap_inv s g" and sc: "sc_ok sc"
  shows "\<exists>s' g'. flush_cache t sc s = Inr s' \<and> internal t sc s g s' g' \<and> held g' = held g \<and> cached g' t sc = []"
  using assms(1)
proof (induction "length (cached g t sc)" arbitrary: s g rule: less_induct)
  case less
  show ?case
  proof (cases "cached g t sc = []")
    case True
    then have "flush_cache t sc s = Inr s"
      using cached_num [OF less.prems sc] by (subst flush_cache.simps) simp
    then show ?thesis using True internal_refl [OF less.prems] by blast
  next
    case False
    obtain s1 g1 where 1: "flush_one t sc s = Inr s1" "internal t sc s g s1 g1" "held g1 = held g"
      "length (cached g1 t sc) < length (cached g t sc)"
      using flush_one_ok [OF less.prems sc False] by blast
    have "heap_inv s1 g1" using 1(2) by (simp add: internal_def)
    then obtain s' g' where 2: "flush_cache t sc s1 = Inr s'" "internal t sc s1 g1 s' g'" "held g' = held g1" "cached g' t sc = []"
      using less.hyps [OF 1(4)] by blast
    have "flush_cache t sc s = Inr s'"
      using cached_num [OF less.prems sc] False 1(1) 2(1) by (subst flush_cache.simps) simp
    then show ?thesis using internal_trans [OF 1(2) 2(2)] 1(3) 2(3,4) by metis
  qed
qed

end
