(* ===== verification/HeapLarge.thy ===== *)
theory HeapLarge
  imports HeapFlush
begin

text \<open>
  Large blocks: a stretch of superblocks taken at the frontier for one block, and given back to the
  list of free superblocks when the block is freed.
\<close>

section \<open>A stretch of superblocks changes hands\<close>

definition big :: "sbkind \<Rightarrow> bool" where
  "big k \<longleftrightarrow> k = Held \<or> k = Tail \<or> (\<exists>m. k = Large m)"

lemma heap_inv_span_step:
  assumes inv: "heap_inv s g" and f: "frame {i..<i + m} s g s' g'"
    and same: "nsb g' = nsb g" "sb_region s' = sb_region s" "avail_sb s' = avail_sb s" "free g' = free g"
      "heaps s' = heaps s" "part g' = part g" "t_cache s' = t_cache s" "cached g' = cached g"
    and k: "\<And>j. i \<le> j \<Longrightarrow> j < i + m \<Longrightarrow> big (kind g j) \<and> big (kind g' j)"
    and ow: "\<And>b. own g' b = own g b \<or> own g b \<in> {NoBlock, User} \<and> own g' b \<in> {NoBlock, User}"
    and large: "large_ok s' g'"
    and clean: "\<And>j. i \<le> j \<Longrightarrow> j < i + m \<Longrightarrow> used g j" "\<And>j. i \<le> j \<Longrightarrow> j < i + m \<Longrightarrow> kind g' j = Tail \<Longrightarrow> heap (desc_of s' j) = None"
      "\<And>j m'. i \<le> j \<Longrightarrow> j < i + m \<Longrightarrow> kind g' j = Large m' \<Longrightarrow> maxcount (desc_of s' j) = 1"
    and own: "\<And>j b. i \<le> j \<Longrightarrow> j < i + m \<Longrightarrow> b \<in> sb_range s j \<Longrightarrow>
      own g' b = (if b = sbk s j \<and> used g j \<and> (\<exists>m. kind g' j = Large m) then User else NoBlock)"
  shows "heap_inv s' g'"
proof -
  note iv = heap_invD [OF inv]
  have us: "used g' = used g" using same(1) by (simp add: used_def fun_eq_iff)
  have small: "small_ok s' g'"
    by (rule small_ok_frame [OF iv(4) f]) (use k in \<open>fastforce simp: big_def\<close>)
  moreover have "own_ok s' g'"
  proof (rule own_ok_frame [OF iv(6,4) small f])
    fix j b assume j: "j \<in> {i..<i + m}" and b: "b \<in> sb_range s j"
    have uq: "l = j" if "small_blk s' g' b l sc \<or> large_blk s' g' b l m'" for l sc m'
    proof -
      have "b \<in> sb_range s' l" using that blk_range(1) [OF small] blk_range(2) by blast
      then show ?thesis using b frameD(6) [OF f] by (metis sb_range_unique)
    qed
    have ns: "\<not> small_blk s' g' b l sc" for l sc
    proof
      assume l: "small_blk s' g' b l sc"
      then have "l = j" using uq by blast
      with l k [of j] j show False by (auto simp: small_blk_def big_def)
    qed
    have o: "own g' b = (if b = sbk s j \<and> used g j \<and> (\<exists>m. kind g' j = Large m) then User else NoBlock)"
      using own [OF _ _ b] j by simp
    have nl: "large_blk s' g' b l m' \<longleftrightarrow> l = j \<and> b = sbk s j \<and> used g j \<and> kind g' j = Large m'" for l m'
    proof -
      have "l = j" if "large_blk s' g' b l m'" using uq that by blast
      then show ?thesis using us unfolding large_blk_def frameD(4) [OF f] by auto
    qed
    show "own_at s' g' b" using ns o unfolding own_at_def nl by auto
  qed
  moreover have "part_ok s' g'"
  proof -
    have "part_list_ok s' g' sc" if "part_list_ok s g sc" for sc
      using that f by (rule part_list_ok_frame) (use same(5,6) k in \<open>fastforce simp: nonfull_def big_def\<close>)+
    then show ?thesis using iv(3) same(5) by (simp add: part_ok_def)
  qed
  moreover have "cache_ok s' g'"
  proof -
    have "own g' b = InCache t sc \<longleftrightarrow> own g b = InCache t sc" for b t sc using ow [of b] by auto
    then have "cache_at s' g' t sc" if "cache_at s g t sc" for t sc
      using that by (intro cache_at_frame [OF that f]) (simp_all add: same)
    then show ?thesis using iv(7) by (simp add: cache_ok_def)
  qed
  moreover have "free_ok s' g'"
    by (rule free_ok_frame [OF iv(2) f same(3,4)]) (use k in \<open>fastforce simp: big_def\<close>)
  moreover have "geom s' (nsb g')"
    using iv(1) same(1,2) frameD(1,2) [OF f] by (simp add: geom_def)
  moreover have "clean_ok s' g'"
    by (rule clean_ok_frame [OF iv(8) f]) (use clean k us in \<open>fastforce simp: big_def\<close>)+
  ultimately show ?thesis using large by (intro heap_invI) simp_all
qed

section \<open>Forming and dissolving a large block\<close>

lemma large_okD:
  assumes "large_ok s g" and "used g i" and "kind g i = Large m"
  shows "0 < m" and "m * SBSIZE < 2 ^ 32" and "i + m \<le> nsb g" and "large_at (sb_start s) (sbk s i) m (desc_of s i)"
    and "\<And>j. i < j \<Longrightarrow> j < i + m \<Longrightarrow> kind g j = Tail"
  using assms unfolding large_ok_def by blast+

lemma large_ok_tail:
  assumes "large_ok s g" and "used g j" and "kind g j = Tail"
  shows "\<exists>i m. used g i \<and> kind g i = Large m \<and> i < j \<and> j < i + m"
  using assms unfolding large_ok_def by blast

lemma large_ok_form:
  assumes ok: "large_ok s g" and f: "frame {i..<i + m} s g s' g'" and n: "nsb g' = nsb g"
    and i: "1 \<le> i" "0 < m" "i + m \<le> nsb g" "m * SBSIZE < 2 ^ 32"
    and hd: "\<And>j. i \<le> j \<Longrightarrow> j < i + m \<Longrightarrow> kind g j = Held"
    and k: "kind g' i = Large m" "\<And>j. i < j \<Longrightarrow> j < i + m \<Longrightarrow> kind g' j = Tail"
    and d: "large_at (sb_start s) (sbk s i) m (desc_of s' i)"
  shows "large_ok s' g'"
  unfolding large_ok_def
proof (rule conjI; intro allI impI)
  have us: "used g' = used g" using n by (simp add: used_def fun_eq_iff)
  fix l m' assume l: "used g' l" "kind g' l = Large m'"
  show "0 < m' \<and> m' * SBSIZE < 2 ^ 32 \<and> l + m' \<le> nsb g' \<and>
      large_at (sb_start s') (sbk s' l) m' (desc_of s' l) \<and> (\<forall>j. l < j \<and> j < l + m' \<longrightarrow> kind g' j = Tail)"
  proof (cases "l = i")
    case True
    then show ?thesis using l k i d n unfolding frameD(1,4) [OF f] by simp
  next
    case False
    then have nR: "l \<notin> {i..<i + m}" using k(2) [of l] l(2) by auto
    note lo = large_okD [OF ok, of l m']
    have l': "used g l" "kind g l = Large m'" using l us frameD(8) [OF f nR] by simp_all
    have "kind g' j = Tail" if "l < j" "j < l + m'" for j
    proof -
      have t: "kind g j = Tail" by (rule lo(5) [OF l' that])
      then have "j \<notin> {i..<i + m}" using hd [of j] by auto
      then show ?thesis using frameD(8) [OF f] t by simp
    qed
    then show ?thesis using lo(1-4) [OF l'] n unfolding frameD(1,4) [OF f] frameD(9) [OF f nR] by simp
  qed
next
  have us: "used g' = used g" using n by (simp add: used_def fun_eq_iff)
  fix j assume j: "used g' j" "kind g' j = Tail"
  show "\<exists>l m'. used g' l \<and> kind g' l = Large m' \<and> l < j \<and> j < l + m'"
  proof (cases "j \<in> {i..<i + m}")
    case True
    moreover have "j \<noteq> i" using j(2) k(1) by auto
    ultimately have "i < j" "j < i + m" by auto
    then show ?thesis using k(1) i us by (intro exI [of _ i] exI [of _ m]) (simp add: used_def)
  next
    case False
    then have "used g j" "kind g j = Tail" using j us frameD(8) [OF f] by simp_all
    then obtain l m' where l: "used g l" "kind g l = Large m'" "l < j" "j < l + m'" using large_ok_tail [OF ok] by blast
    then have "l \<notin> {i..<i + m}" using hd [of l] by auto
    then show ?thesis using l us frameD(8) [OF f] by metis
  qed
qed

lemma large_ok_dissolve:
  assumes ok: "large_ok s g" and f: "frame {i..<i + m} s g s' g'" and n: "nsb g' = nsb g"
    and i: "used g i" "kind g i = Large m"
    and hd: "\<And>j. i \<le> j \<Longrightarrow> j < i + m \<Longrightarrow> kind g' j = Held"
  shows "large_ok s' g'"
  unfolding large_ok_def
proof (rule conjI; intro allI impI)
  have us: "used g' = used g" using n by (simp add: used_def fun_eq_iff)
  note li = large_okD [OF ok i]
  fix l m' assume l: "used g' l" "kind g' l = Large m'"
  then have nR: "l \<notin> {i..<i + m}" using hd [of l] by auto
  note lo = large_okD [OF ok, of l m']
  have l': "used g l" "kind g l = Large m'" using l us frameD(8) [OF f nR] by simp_all
  have "kind g' j = Tail" if j: "l < j" "j < l + m'" for j
  proof -
    have t: "kind g j = Tail" by (rule lo(5) [OF l' j])
    have "j \<notin> {i..<i + m}"
    proof
      assume "j \<in> {i..<i + m}"
      moreover have "j \<noteq> i" using t i(2) by auto
      ultimately have ij: "i < j" "j < i + m" by auto
      show False
      proof (cases "l < i")
        case True then show False using lo(5) [OF l', of i] ij j i(2) by simp
      next
        case False then show False using li(5) [of l] nR ij j l'(2) by auto
      qed
    qed
    then show ?thesis using frameD(8) [OF f] t by simp
  qed
  then show "0 < m' \<and> m' * SBSIZE < 2 ^ 32 \<and> l + m' \<le> nsb g' \<and>
      large_at (sb_start s') (sbk s' l) m' (desc_of s' l) \<and> (\<forall>j. l < j \<and> j < l + m' \<longrightarrow> kind g' j = Tail)"
    using lo(1-4) [OF l'] n unfolding frameD(1,4) [OF f] frameD(9) [OF f nR] by simp
next
  have us: "used g' = used g" using n by (simp add: used_def fun_eq_iff)
  note li = large_okD [OF ok i]
  fix j assume j: "used g' j" "kind g' j = Tail"
  then have nR: "j \<notin> {i..<i + m}" using hd [of j] by auto
  then have "used g j" "kind g j = Tail" using j us frameD(8) [OF f] by simp_all
  then obtain l m' where l: "used g l" "kind g l = Large m'" "l < j" "j < l + m'" using large_ok_tail [OF ok] by blast
  have "l \<notin> {i..<i + m}"
  proof
    assume "l \<in> {i..<i + m}"
    then have "l = i" using li(5) [of l] l(2) by (cases "l = i") auto
    then show False using l i(2) nR by simp
  qed
  then show "\<exists>l m'. used g' l \<and> kind g' l = Large m' \<and> l < j \<and> j < l + m'" using l us frameD(8) [OF f] by metis
qed

definition form_ghost :: "ralloc \<Rightarrow> nat \<Rightarrow> nat \<Rightarrow> ghost \<Rightarrow> ghost" where
  "form_ghost s i m g = set_own {sbk s i} User
    (g\<lparr>kind := (\<lambda>j. if j = i then Large m else if i < j \<and> j < i + m then Tail else kind g j)\<rparr>)"

lemma large_form:
  assumes inv: "heap_inv s g" and i: "1 \<le> i" "0 < m" "i + m \<le> nsb g" "m * SBSIZE < 2 ^ 32"
    and hd: "\<And>j. i \<le> j \<Longrightarrow> j < i + m \<Longrightarrow> kind g j = Held"
    and tl: "\<And>j. i < j \<Longrightarrow> j < i + m \<Longrightarrow> heap (desc_of s j) = None"
    and d: "large_at (sb_start s) (sbk s i) m d" "maxcount d = 1"
  shows "heap_inv (s\<lparr>descs := (descs s)(dsc s i := d)\<rparr>) (form_ghost s i m g)"
proof -
  define s' where "s' = s\<lparr>descs := (descs s)(dsc s i := d)\<rparr>"
  define g' where "g' = form_ghost s i m g"
  note iv = heap_invD [OF inv]
  have gs: "kind g' j = (if j = i then Large m else if i < j \<and> j < i + m then Tail else kind g j)"
    "nsb g' = nsb g" "own g' b = (if b = sbk s i then User else own g b)" "used g' = used g"
    "fl g' = fl g" "free g' = free g" "part g' = part g" "cached g' = cached g" for j b
    by (simp_all add: g'_def form_ghost_def set_own_def used_def fun_eq_iff)
  have ss: "sb_start s' = sb_start s" "desc_start s' = desc_start s" "mem s' = mem s" "sb_region s' = sb_region s"
    "avail_sb s' = avail_sb s" "heaps s' = heaps s" "t_cache s' = t_cache s" by (simp_all add: s'_def)
  have ds: "desc_of s' j = (if j = i then d else desc_of s j)" for j by (simp add: s'_def)
  have none: "own g b = NoBlock" if "i \<le> j" "j < i + m" "b \<in> sb_range s j" for j b
    by (rule own_none [OF iv(6,4) that(3)]) (use hd [OF that(1,2)] in simp)
  have f: "frame {i..<i + m} s g s' g'"
    unfolding frame_def gs ds ss using i(2) by force
  have lg: "large_ok s' g'"
    by (rule large_ok_form [OF iv(5) f gs(2) i hd]) (use d in \<open>simp_all add: gs ds\<close>)
  have "heap_inv s' g'"
  proof (rule heap_inv_span_step [OF inv f _ _ _ _ _ _ _ _ _ _ lg])
    show "used g j" if "i \<le> j" "j < i + m" for j using that i(1,3) by (simp add: used_def)
    show "heap (desc_of s' j) = None" if "i \<le> j" "j < i + m" "kind g' j = Tail" for j
      using that tl [of j] hd [of j] by (auto simp: gs ds split: if_splits)
    show "maxcount (desc_of s' j) = 1" if "i \<le> j" "j < i + m" "kind g' j = Large m'" for j m'
      using that d(2) hd [of j] by (auto simp: gs ds split: if_splits)
    show "own g' b = own g b \<or> own g b \<in> {NoBlock, User} \<and> own g' b \<in> {NoBlock, User}" for b
      using none [of i "sbk s i"] i(2) by (simp add: gs)
    show "own g' b = (if b = sbk s j \<and> used g j \<and> (\<exists>m. kind g' j = Large m) then User else NoBlock)"
      if "i \<le> j" "j < i + m" "b \<in> sb_range s j" for j b
      using none [OF that] that i sb_range_unique [of b s j i] by (auto simp: gs used_def)
  qed (use hd in \<open>auto simp: gs ss big_def\<close>)
  then show ?thesis by (simp add: s'_def g'_def)
qed

definition dissolve_ghost :: "addr \<Rightarrow> nat \<Rightarrow> nat \<Rightarrow> ghost \<Rightarrow> ghost" where
  "dissolve_ghost b i m g = set_own {b} NoBlock (g\<lparr>kind := (\<lambda>j. if i \<le> j \<and> j < i + m then Held else kind g j)\<rparr>)"

lemma large_dissolve:
  assumes inv: "heap_inv s g" and b: "large_blk s g b i m"
  shows "heap_inv s (dissolve_ghost b i m g)"
proof -
  define g' where "g' = dissolve_ghost b i m g"
  note iv = heap_invD [OF inv] and lf = large_blk_facts [OF inv b]
  have gs: "kind g' j = (if i \<le> j \<and> j < i + m then Held else kind g j)"
    "nsb g' = nsb g" "own g' x = (if x = b then NoBlock else own g x)" "used g' = used g"
    "fl g' = fl g" "free g' = free g" "part g' = part g" "cached g' = cached g" for j x
    by (simp_all add: g'_def dissolve_ghost_def set_own_def used_def fun_eq_iff)
  have f: "frame {i..<i + m} s g s g'"
    unfolding frame_def gs lf(7) using lf(3) by force
  have lg: "large_ok s g'"
    by (rule large_ok_dissolve [OF iv(5) f gs(2) lf(5,8)]) (simp add: gs)
  have ob: "own g b = User" using iv(6) b by (auto simp: own_ok_def own_at_def)
  have bk: "big (kind g j)" if "i \<le> j" "j < i + m" for j
    using lf(6) [of j] lf(8) that by (cases "j = i") (auto simp: big_def)
  have none: "own g x = NoBlock" if j: "i \<le> j" "j < i + m" "x \<in> sb_range s j" "x \<noteq> b" for j x
  proof (rule ccontr)
    assume n: "own g x \<noteq> NoBlock"
    consider (small) l sc where "small_blk s g x l sc" | (large) l m' where "large_blk s g x l m'"
      using n own_blk [OF inv, of x] by (cases "own g x") blast+
    then show False
    proof cases
      case small
      then have "l = j" using small_blk_unique [OF inv small j(3)] by simp
      then show False using small bk [OF j(1,2)] by (auto simp: small_blk_def big_def)
    next
      case large
      note lx = large_blk_facts [OF inv large]
      have "l = j" using j(3) lx(7) sb_range_unique [of x s l j] by simp
      then have "l = i" using lf(6) [of l] lx(8) j by (cases "l = i") auto
      then show False using lx(7) lf(7) j(4) by simp
    qed
  qed
  have "heap_inv s g'"
  proof (rule heap_inv_span_step [OF inv f _ _ _ _ _ _ _ _ _ _ lg])
    show "used g j" if "i \<le> j" "j < i + m" for j using that lf(4,5) by (simp add: used_def)
    show "own g' x = own g x \<or> own g x \<in> {NoBlock, User} \<and> own g' x \<in> {NoBlock, User}" for x
      using ob by (simp add: gs)
    show "own g' x = (if x = sbk s j \<and> used g j \<and> (\<exists>m. kind g' j = Large m) then User else NoBlock)"
      if "i \<le> j" "j < i + m" "x \<in> sb_range s j" for j x
      using none [OF that] that by (auto simp: gs)
  qed (use bk in \<open>auto simp: gs big_def\<close>)
  then show ?thesis by (simp add: g'_def)
qed

section \<open>What an allocation does\<close>

definition allocated :: "nat \<Rightarrow> ralloc \<Rightarrow> ghost \<Rightarrow> addr \<Rightarrow> ralloc \<Rightarrow> ghost \<Rightarrow> bool" where
  "allocated n s g p s' g' \<longleftrightarrow> heap_inv s' g' \<and> held g' = held g \<and> p \<notin> users g \<and> users g' = insert p (users g) \<and>
    n \<le> msize s' p \<and> p \<noteq> 0 \<and> 8 dvd p \<and>
    (\<forall>b \<in> users g. msize s' b = msize s b \<and> (\<forall>x \<in> extent s b. mem s' x = mem s x)) \<and>
    sb_start s' = sb_start s \<and> desc_start s' = desc_start s \<and> roots s' = roots s \<and> nsb g \<le> nsb g'"

lemma internal_allocated:
  assumes "internal t sc s g s1 g1" and "held g1 = held g" and "allocated n s1 g1 p s' g'"
  shows "allocated n s g p s' g'"
  using assms by (auto simp: internal_def allocated_def extent_def)

text \<open>\<^verbatim>\<open>round_up\<close> to whole superblocks, away from the end of the 64-bit range.\<close>

definition sb_count :: "nat \<Rightarrow> nat" where
  "sb_count sz = (sz + SBSIZE - 1) div SBSIZE"

lemma sb_count_bounds: "sz \<le> sb_count sz * SBSIZE" "0 < sz \<Longrightarrow> sb_count sz * SBSIZE < sz + SBSIZE" "0 < sz \<Longrightarrow> 0 < sb_count sz"
  by (simp_all add: sb_count_def pm_consts)

lemma round_up_sb:
  assumes "sz + SBSIZE \<le> 2 ^ 64"
  shows "\<exists>w. round_up (of_nat sz) (of_nat SBSIZE) = Inr w \<and> unat w = sb_count sz * SBSIZE"
proof -
  have sb: "(of_nat SBSIZE :: u64) = 65536" by (simp add: pm_consts)
  have mk: "(65536 - 1 :: u64) = mask 16" by (simp add: mask_eq_exp_minus_1)
  have w: "(of_nat sz + 65536 - 1 :: u64) = of_nat (sz + 65535)" by simp
  have "unat (of_nat (sz + 65535) :: u64) = sz + 65535"
    using assms by (simp only: unat_of_nat) (simp add: pm_consts)
  then have "unat ((of_nat sz + 65536 - 1 :: u64) AND NOT (65536 - 1)) = (sz + 65535) div 65536 * 65536"
    unfolding w mk and_not_mask_unat by simp
  then show ?thesis by (simp add: round_up_def sb sb_count_def pm_consts)
qed

section \<open>Allocating a large block\<close>

lemma expand_get_large_sb_eq:
  assumes inv: "heap_inv s g" and "0 < m" and m: "m * SBSIZE < 2 ^ 63"
  shows "expand_get_large_sb (m * SBSIZE) s =
    (if base_addr (sb_region s) + FILESIZE (sb_region s) < sbk s (nsb g) + m * SBSIZE then Inl OutOfSpace
     else (let s1 = s\<lparr>sb_region := set_curr (atomic_pptr_store (base_addr (sb_region s)) (sbk s (nsb g) + m * SBSIZE)) (sb_region s)\<rparr>
       in Inr (sbk s (nsb g), construct_desc (desc_lookup s1 (sbk s (nsb g))) s1)))"
proof -
  note gm = heap_invD(1) [OF inv]
  have ra: "region_at (sb_region s) (sbk s (nsb g))" using gm by (simp add: geom_def sbk_def)
  have al: "ceil_to (2 ^ 12) (sbk s (nsb g)) = sbk s (nsb g)"
  proof (rule ceil_to_unique)
    have "(2 ^ 12 :: nat) dvd SBSIZE" by (simp add: pm_consts)
    then show "2 ^ 12 dvd sbk s (nsb g)" using geom_bounds(10) [OF gm, of "nsb g"] by (rule dvd_trans)
  qed simp_all
  have pg: "PAGESIZE = 2 ^ 12" by (simp add: pm_consts)
  have pos: "0 < m * SBSIZE" using assms(2) by (simp add: pm_consts)
  show ?thesis
  proof (cases "base_addr (sb_region s) + FILESIZE (sb_region s) < sbk s (nsb g) + m * SBSIZE")
    case True
    then have "nvm_region_allocator PAGESIZE (m * SBSIZE) (sb_region s) = (-1, None, sb_region s)"
      unfolding pg using m al by (intro nvm_region_allocator_full [OF ra]) simp_all
    then show ?thesis using True by (simp add: expand_get_large_sb_def)
  next
    case False
    then have "nvm_region_allocator PAGESIZE (m * SBSIZE) (sb_region s) = (1, Some (sbk s (nsb g)),
        set_curr (atomic_pptr_store (base_addr (sb_region s)) (sbk s (nsb g) + m * SBSIZE)) (sb_region s))"
      unfolding pg using nvm_region_allocator_ok(1) [OF ra, of 12 "m * SBSIZE"] pos al by simp
    then show ?thesis using False by (simp add: expand_get_large_sb_def Let_def)
  qed
qed

definition large_desc :: "addr \<Rightarrow> nat \<Rightarrow> addr \<Rightarrow> Descriptor" where
  "large_desc start sz p = Descriptor_new\<lparr>heap := Some 0, desc_block_size := sz mod 2 ^ 32, maxcount := 1,
    superblock := CrossPtr_assign start p, anchor := set_state SB_FULL (set_count 0 (set_avail 0 (Anchor_of_word 0)))\<rparr>"

lemma desc_lookup_upd [simp]:
  "desc_lookup (s\<lparr>sb_region := r\<rparr>) = desc_lookup s" "desc_lookup (construct_desc d s) = desc_lookup s"
  "desc_lookup (s\<lparr>descs := D\<rparr>) = desc_lookup s" "desc_lookup (s\<lparr>mem := M\<rparr>) = desc_lookup s"
  "desc_lookup (upd_desc d f s) = desc_lookup s" "desc_lookup (set_cache t sc c s) = desc_lookup s"
  by (simp_all add: desc_lookup_def construct_desc_def upd_desc_def fun_eq_iff)

lemma construct_desc_fields:
  "sb_start (construct_desc d s) = sb_start s" "mem (construct_desc d s) = mem s"
  by (simp_all add: construct_desc_def)

lemma large_lookup:
  assumes inv: "heap_inv s g" and n: "1 \<le> nsb g" and sz: "0 < sz"
    and fit: "sbk s (nsb g) + sb_count sz * SBSIZE \<le> base_addr (sb_region s) + FILESIZE (sb_region s)"
  shows "desc_lookup s (sbk s (nsb g)) = dsc s (nsb g)"
proof -
  let ?s1 = "s\<lparr>sb_region := set_curr (atomic_pptr_store (base_addr (sb_region s)) (sbk s (nsb g) + sb_count sz * SBSIZE)) (sb_region s)\<rparr>"
  have gm1: "heap_inv ?s1 (g\<lparr>nsb := nsb g + sb_count sz, kind := (\<lambda>j. if nsb g \<le> j \<and> j < nsb g + sb_count sz then Held else kind g j)\<rparr>)"
    by (rule grow_ok [OF inv n]) (use fit in \<open>simp_all add: sbk_def algebra_simps\<close>)
  show ?thesis
    using desc_lookup_in [OF heap_invD(1) [OF gm1] _ sbk_range, of "nsb g"] sb_count_bounds(3) [OF sz] by simp
qed

lemma malloc_large_eq:
  assumes inv: "heap_inv s g" and n: "1 \<le> nsb g" and sz: "0 < sz" "sz + SBSIZE \<le> 2 ^ 63"
  shows "malloc_large sz s =
    (if base_addr (sb_region s) + FILESIZE (sb_region s) < sbk s (nsb g) + sb_count sz * SBSIZE then Inl OutOfSpace
     else Inr (sbk s (nsb g), s
       \<lparr>sb_region := set_curr (atomic_pptr_store (base_addr (sb_region s)) (sbk s (nsb g) + sb_count sz * SBSIZE)) (sb_region s),
        descs := (descs s)(dsc s (nsb g) := large_desc (sb_start s) (sb_count sz * SBSIZE) (sbk s (nsb g)))\<rparr>))"
proof -
  let ?fit = "sbk s (nsb g) + sb_count sz * SBSIZE \<le> base_addr (sb_region s) + FILESIZE (sb_region s)"
  let ?s1 = "s\<lparr>sb_region := set_curr (atomic_pptr_store (base_addr (sb_region s)) (sbk s (nsb g) + sb_count sz * SBSIZE)) (sb_region s)\<rparr>"
  note gm = heap_invD(1) [OF inv] and sc = sb_count_bounds [of sz]
  obtain w where w: "round_up (of_nat sz) (of_nat SBSIZE) = Inr w" "unat w = sb_count sz * SBSIZE"
    using round_up_sb [of sz] sz by auto
  have m: "sb_count sz * SBSIZE < 2 ^ 63" using sc(2) [OF sz(1)] sz(2) by linarith
  note ex = expand_get_large_sb_eq [OF inv sc(3) [OF sz(1)] m]
  have look: "desc_lookup s (sbk s (nsb g)) = dsc s (nsb g)" if "?fit" by (rule large_lookup [OF inv n sz(1) that])
  have nz: "sbk s (nsb g) \<noteq> 0" by (rule geom_bounds(8) [OF gm])
  show ?thesis
  proof (cases ?fit)
    case False
    then show ?thesis using ex w by (simp add: malloc_large_def alloc_large_block_def large_sb_alloc_def)
  next
    case True
    have "malloc_large sz s = Inr (sbk s (nsb g), upd_desc (dsc s (nsb g)) (\<lambda>d. d\<lparr>heap := Some 0, desc_block_size := sb_count sz * SBSIZE mod 2 ^ 32,
                maxcount := 1, superblock := CrossPtr_assign (sb_start s) (sbk s (nsb g)),
                anchor := set_state SB_FULL (set_count 0 (set_avail 0 (Anchor_of_word 0)))\<rparr>) (construct_desc (dsc s (nsb g)) ?s1))"
      unfolding malloc_large_def w and_then_simps alloc_large_block_def large_sb_alloc_def ex
      using True nz look [OF True] by (simp add: Let_def construct_desc_fields)
    then show ?thesis using True by (simp add: upd_desc_def construct_desc_def large_desc_def)
  qed
qed

lemma malloc_large_ok:
  assumes inv: "heap_inv s g" and n: "1 \<le> nsb g" and sz: "0 < sz" "sz + SBSIZE \<le> 2 ^ 32"
  shows "malloc_large sz s = Inl OutOfSpace \<or>
    (\<exists>p s' g'. malloc_large sz s = Inr (p, s') \<and> allocated sz s g p s' g' \<and> free g' = free g \<and> msize s' p = sb_count sz * SBSIZE)"
proof -
  let ?n = "nsb g" and ?m = "sb_count sz"
  let ?r = "set_curr (atomic_pptr_store (base_addr (sb_region s)) (sbk s ?n + ?m * SBSIZE)) (sb_region s)"
  let ?d = "large_desc (sb_start s) (?m * SBSIZE) (sbk s ?n)"
  let ?s1 = "s\<lparr>sb_region := ?r\<rparr>"
  let ?s' = "s\<lparr>sb_region := ?r, descs := (descs s)(dsc s ?n := ?d)\<rparr>"
  let ?g1 = "g\<lparr>nsb := ?n + ?m, kind := (\<lambda>j. if ?n \<le> j \<and> j < ?n + ?m then Held else kind g j)\<rparr>"
  let ?g' = "form_ghost ?s1 ?n ?m ?g1"
  note sc = sb_count_bounds [of sz] and gm = heap_invD(1) [OF inv]
  have sz63: "sz + SBSIZE \<le> 2 ^ 63" using sz(2) by simp
  note ev = malloc_large_eq [OF inv n sz(1) sz63]
  have m32: "?m * SBSIZE < 2 ^ 32" using sc(2) [OF sz(1)] sz(2) by linarith
  show ?thesis
  proof (cases "base_addr (sb_region s) + FILESIZE (sb_region s) < sbk s ?n + ?m * SBSIZE")
    case True
    then show ?thesis using ev by simp
  next
    case False
    have inv1: "heap_inv ?s1 ?g1"
      by (rule grow_ok [OF inv n]) (use False in \<open>simp_all add: sbk_def algebra_simps\<close>)
    have "CrossPtr_cast (sb_start s) (CrossPtr_assign (sb_start s) (sbk s ?n)) = sbk s ?n"
      using geom_bounds(3) [OF gm, of ?n] n by (intro CrossPtr_cast_assign) (simp_all add: sbk_def pm_consts)
    then have la: "large_at (sb_start ?s1) (sbk ?s1 ?n) ?m ?d" "maxcount ?d = 1"
      using m32 by (simp_all add: large_at_def large_desc_def)
    have tl: "heap (desc_of ?s1 j) = None" if "?n < j" "j < ?n + ?m" for j
      using heap_invD(8) [OF inv] that by (simp add: clean_ok_def used_def desc_of_def dsc_def)
    have s'_eq: "?s' = ?s1\<lparr>descs := (descs ?s1)(dsc ?s1 ?n := ?d)\<rparr>" by simp
    have inv': "heap_inv ?s' ?g'"
      unfolding s'_eq by (rule large_form [OF inv1 n sc(3) [OF sz(1)] _ m32 _ tl la]) simp_all
    have own: "own ?g' b = (if b = sbk s ?n then User else own g b)" for b
      by (simp add: form_ghost_def set_own_def)
    have "own g (sbk s ?n) = NoBlock"
      using own_none [OF heap_invD(6,4) [OF inv1], of "sbk s ?n" ?n] sbk_range [of ?s1 ?n] sc(3) [OF sz(1)] by simp
    then have fresh: "sbk s ?n \<notin> users g" by (simp add: users_def)
    have lb: "large_blk ?s' ?g' (sbk s ?n) ?n ?m"
      using n sc(3) [OF sz(1)] by (simp add: large_blk_def form_ghost_def used_def set_own_def)
    have ms: "msize ?s' b = msize s b" if "b \<in> users g" for b
      by (rule msize_keep [OF inv inv' _ _ that])
        (auto simp: form_ghost_def set_own_def used_def desc_of_def dsc_def pm_consts)
    have "allocated sz s g (sbk s ?n) ?s' ?g'"
      unfolding allocated_def
    proof (intro conjI ballI)
      show "heap_inv ?s' ?g'" by (rule inv')
      show "held ?g' = held g"
        by (auto simp: held_def form_ghost_def set_own_def used_def split: if_splits)
      show "users ?g' = insert (sbk s ?n) (users g)" by (auto simp: users_def own)
      show "sz \<le> msize ?s' (sbk s ?n)" using large_blk_facts(2) [OF inv' lb] sc(1) by simp
      show "sbk s ?n \<noteq> 0" by (rule geom_bounds(8) [OF gm])
      have "8 dvd SBSIZE" by (simp add: pm_consts)
      then show "8 dvd sbk s ?n" using geom_bounds(10) [OF gm, of ?n] by (rule dvd_trans)
    qed (use fresh ms in \<open>simp_all add: form_ghost_def set_own_def\<close>)
    moreover have "free ?g' = free g" by (simp add: form_ghost_def set_own_def)
    moreover have "msize ?s' (sbk s ?n) = ?m * SBSIZE" by (rule large_blk_facts(2) [OF inv' lb])
    ultimately show ?thesis using ev False by auto
  qed
qed

section \<open>Freeing a large block\<close>

definition released :: "ralloc \<Rightarrow> ghost \<Rightarrow> addr \<Rightarrow> ralloc \<Rightarrow> ghost \<Rightarrow> bool" where
  "released s g p s' g' \<longleftrightarrow> heap_inv s' g' \<and> held g' = held g \<and> users g' = users g - {p} \<and>
    (\<forall>b \<in> users g - {p}. msize s' b = msize s b \<and> (\<forall>x \<in> extent s b. mem s' x = mem s x)) \<and>
    sb_start s' = sb_start s \<and> desc_start s' = desc_start s \<and> roots s' = roots s \<and> nsb g \<le> nsb g'"

lemma internal_released:
  assumes "internal t sc s g s1 g1" and "held g1 = held g" and "released s1 g1 p s' g'"
  shows "released s g p s' g'"
  using assms by (auto simp: internal_def released_def extent_def)

lemma large_free_ok:
  assumes inv: "heap_inv s g" and b: "large_blk s g b i m"
  shows "\<exists>s' g'. large_sb_retire (sbk s i) (m * SBSIZE) s = Inr s' \<and> released s g b s' g'"
proof -
  let ?g1 = "dissolve_ghost b i m g"
  note lf = large_blk_facts [OF inv b]
  have inv1: "heap_inv s ?g1" by (rule large_dissolve [OF inv b])
  have hd: "kind ?g1 j = Held" if "i \<le> j" "j < i + m" for j using that by (simp add: dissolve_ghost_def set_own_def)
  have i: "1 \<le> i" "0 < m" "i + m \<le> nsb ?g1" using lf(3-5) by (simp_all add: used_def dissolve_ghost_def set_own_def)
  obtain s' where s': "organize_sb_list (sbk s i) m s = Inr s'" "internal 0 0 s ?g1 s' (to_free i m ?g1)"
    using organize_internal [OF inv1 i hd, of 0 0] by blast
  have hd1: "held ?g1 - {i..<i + m} = held g"
  proof -
    have "kind g j \<noteq> Held" if "i \<le> j" "j < i + m" for j using lf(6) [of j] lf(8) that by (cases "j = i") auto
    then show ?thesis by (auto simp: held_def used_def dissolve_ghost_def set_own_def)
  qed
  have us: "users ?g1 = users g - {b}" by (auto simp: users_def dissolve_ghost_def set_own_def)
  have "held (to_free i m ?g1) = held g" by (rule trans [OF held_to_free hd1]) (rule hd)
  then have "released s g b s' (to_free i m ?g1)"
    using s'(2) us by (simp add: released_def internal_def) (simp add: dissolve_ghost_def set_own_def)
  moreover have "large_sb_retire (sbk s i) (m * SBSIZE) s = Inr s'"
    using s'(1) by (simp add: large_sb_retire_def pm_consts)
  ultimately show ?thesis by blast
qed

end
