(* ===== verification/HeapMalloc.thy ===== *)
theory HeapMalloc
  imports HeapLarge
begin

text \<open>
  \<^verbatim>\<open>do_malloc\<close>, \<^verbatim>\<open>do_free\<close> and \<^verbatim>\<open>public_flush_cache\<close> on a heap that satisfies the invariant.
\<close>

section \<open>Allocation\<close>

lemma pop_allocated:
  assumes inv: "heap_inv s g" and sc: "sc_ok sc" and c: "cached g t sc = b # bs"
  shows "\<exists>c s' g'. pop_block (mem s) (t_cache s t sc) = Inr (b, c) \<and> s' = set_cache t sc c s \<and>
    allocated (bsize sc) s g b s' g' \<and> msize s' b = bsize sc"
proof -
  obtain c' where p: "pop_block (mem s) (t_cache s t sc) = Inr (b, c')"
    "heap_inv (set_cache t sc c' s) (set_own {b} User (set_cached t sc bs g))"
    using pop_block_ok [OF inv sc c] by blast
  let ?s' = "set_cache t sc c' s" and ?g' = "set_own {b} User (set_cached t sc bs g)"
  have own: "own g b = InCache t sc" using cached_own(1) [OF inv sc, of b t] c by simp
  obtain i where i: "small_blk s g b i sc" using cached_own(2) [OF inv sc, of b t] c by auto
  have ms: "msize ?s' x = msize s x" for x by (simp add: msize_def)
  have "allocated (bsize sc) s g b ?s' ?g'"
    unfolding allocated_def ms
  proof (intro conjI ballI)
    show "held ?g' = held g" by (simp add: held_def used_def set_own_def set_cached_def)
    show "b \<notin> users g" using own by (simp add: users_def)
    show "users ?g' = insert b (users g)" by (auto simp: users_def set_own_def set_cached_def)
    show "bsize sc \<le> msize s b" using small_blk_msize [OF inv i] by simp
    show "b \<noteq> 0" "8 dvd b" using small_blk_facts(2,4) [OF inv i] by simp_all
  qed (use p(2) in \<open>simp_all add: set_own_def set_cached_def\<close>)
  moreover have "msize ?s' b = bsize sc" unfolding ms by (rule small_blk_msize [OF inv i])
  ultimately show ?thesis using p(1) by blast
qed

lemma allocated_mono: "allocated n s g p s' g' \<Longrightarrow> k \<le> n \<Longrightarrow> allocated k s g p s' g'"
  by (auto simp: allocated_def)

lemma do_malloc_ok:
  assumes inv: "heap_inv s g" and n: "1 \<le> nsb g" and sz: "sz + SBSIZE \<le> 2 ^ 32"
  shows "do_malloc t sz s = Inl OutOfSpace \<and> (sz \<le> MAX_SZ \<longrightarrow> no_room s g) \<or>
    (\<exists>p s' g'. do_malloc t sz s = Inr (p, s') \<and> allocated sz s g p s' g' \<and>
      (sz \<le> MAX_SZ \<longrightarrow> msize s' p = bsize (get_sizeclass sz)))"
proof (cases "sz > MAX_SZ")
  case True
  then show ?thesis using malloc_large_ok [OF inv n _ sz] by (auto simp: do_malloc_def)
next
  case False
  let ?sc = "get_sizeclass sz"
  note sp = get_sizeclass_spec [of sz]
  have sc: "sc_ok ?sc" "sz \<le> bsize ?sc" using sp False by (simp_all add: sc_ok_def)
  have pop: "\<exists>p s' g'. and_then (pop_block (mem s1) (t_cache s1 t ?sc)) (\<lambda>(b, c). Inr (b, set_cache t ?sc c s1)) = Inr (p, s') \<and>
      allocated sz s g p s' g' \<and> msize s' p = bsize ?sc"
    if s1: "internal t ?sc s g s1 g1" "held g1 = held g" "cached g1 t ?sc \<noteq> []" for s1 g1
  proof -
    obtain b bs where "cached g1 t ?sc = b # bs" using s1(3) by (cases "cached g1 t ?sc") auto
    moreover have "heap_inv s1 g1" using s1(1) by (simp add: internal_def)
    ultimately obtain c s' g' where c: "pop_block (mem s1) (t_cache s1 t ?sc) = Inr (b, c)" "s' = set_cache t ?sc c s1"
      "allocated (bsize ?sc) s1 g1 b s' g'" "msize s' b = bsize ?sc"
      using pop_allocated [OF _ sc(1)] by blast
    have "allocated sz s g b s' g'"
      by (rule allocated_mono [OF internal_allocated [OF s1(1,2) c(3)] sc(2)])
    then show ?thesis using c(1,2,4) by auto
  qed
  show ?thesis
  proof (cases "cached g t ?sc = []")
    case True
    then have e: "do_malloc t sz s = and_then (fill_cache t ?sc s) (\<lambda>s1.
        and_then (pop_block (mem s1) (t_cache s1 t ?sc)) (\<lambda>(b, c). Inr (b, set_cache t ?sc c s1)))"
      using cached_num [OF inv sc(1), of t] False by (simp add: do_malloc_def Let_def)
    show ?thesis
      using fill_cache_ok [OF inv n sc(1) True]
    proof (elim disjE exE conjE)
      assume "fill_cache t ?sc s = Inl OutOfSpace" "no_room s g"
      then show ?thesis using e by simp
    next
      fix s1 g1 assume 1: "fill_cache t ?sc s = Inr s1" "internal t ?sc s g s1 g1" "held g1 = held g" "cached g1 t ?sc \<noteq> []"
      show ?thesis unfolding e 1(1) and_then_simps using pop [OF 1(2-4)] by blast
    qed
  next
    case ne: False
    then have e: "do_malloc t sz s = and_then (pop_block (mem s) (t_cache s t ?sc)) (\<lambda>(b, c). Inr (b, set_cache t ?sc c s))"
      using cached_num [OF inv sc(1), of t] False by (simp add: do_malloc_def Let_def)
    show ?thesis unfolding e using pop [OF internal_refl [OF inv] refl ne] by blast
  qed
qed

section \<open>Deallocation\<close>

lemma bsize_inj: "sc_ok a \<Longrightarrow> sc_ok b \<Longrightarrow> bsize a = bsize b \<Longrightarrow> a = b"
  using bsize_strict_mono [of a b] bsize_strict_mono [of b a] by (cases a b rule: linorder_cases) (auto simp: sc_ok_def)

lemma user_small_keep:
  assumes inv: "heap_inv s g" and i: "internal t sc s g s' g'" and b: "b \<in> users g" and k: "small_blk s g b j c"
  shows "\<exists>j'. small_blk s' g' b j' c"
proof -
  have inv': "heap_inv s' g'" and u: "b \<in> users g'" and m: "msize s' b = bsize c"
    using i b small_blk_msize [OF inv k] by (simp_all add: internal_def)
  have c: "sc_ok c" by (rule small_blk_facts(1) [OF inv k])
  have "(\<exists>i sc. small_blk s' g' b i sc) \<or> (\<exists>i m. large_blk s' g' b i m)"
    using u own_blk(3) [OF inv'] by (simp add: users_def)
  then show ?thesis
  proof (elim disjE exE)
    fix l d assume l: "small_blk s' g' b l d"
    then have "d = c" using small_blk_msize [OF inv' l] m small_blk_facts(1) [OF inv' l] c bsize_inj by simp
    then show ?thesis using l by blast
  next
    fix l q assume l: "large_blk s' g' b l q"
    have "q * SBSIZE = bsize c" "0 < q" using large_blk_facts(2,3) [OF inv' l] m by simp_all
    moreover have "bsize c \<le> MAX_SZ" using c bsize_props(3) [of c] by (simp add: sc_ok_def)
    ultimately have False by (cases q) (simp_all add: pm_consts)
    then show ?thesis by simp
  qed
qed

lemma push_released:
  assumes inv: "heap_inv s g" and b: "b \<in> users g" and i: "small_blk s g b i sc" and len: "length (cached g t sc) < nblocks sc"
  shows "\<exists>g'. released s g b (let (c, m) = push_block b (t_cache s t sc, mem s) in set_cache t sc c (s\<lparr>mem := m\<rparr>)) g'"
proof -
  let ?p = "push_block b (t_cache s t sc, mem s)"
  let ?s' = "set_cache t sc (fst ?p) (s\<lparr>mem := snd ?p\<rparr>)" and ?g' = "set_own {b} (InCache t sc) (set_cached t sc (b # cached g t sc) g)"
  have inv': "heap_inv ?s' ?g'" using push_block_ok [OF inv _ i len] b by (simp add: users_def)
  have ms: "msize ?s' x = msize s x" for x by (simp add: msize_def)
  have "released s g b ?s' ?g'"
    unfolding released_def ms
  proof (intro conjI ballI)
    show "held ?g' = held g" by (simp add: held_def used_def set_own_def set_cached_def)
    show "users ?g' = users g - {b}" by (auto simp: users_def set_own_def set_cached_def)
    show "mem ?s' x = mem s x" if "a \<in> users g - {b}" "x \<in> extent s a" for a x
      using write_keeps_other [OF inv i, of a x] that by (auto simp: push_block_def)
  qed (use inv' in \<open>simp_all add: set_own_def set_cached_def\<close>)
  then show ?thesis by (auto simp: split_beta)
qed

lemma sb_in_range:
  assumes "geom s n" and "i < n" and "p \<in> sb_range s i"
  shows "in_range (sb_start s) (sb_region s) p"
proof -
  have "(i + 1) * SBSIZE \<le> n * SBSIZE" using assms(2) by (intro mult_le_mono1) simp
  then show ?thesis
    using assms(3) frontier_aligned(1) [OF assms(1)] by (simp add: in_range_def sb_range_def sbk_def)
qed

lemma do_free_ok:
  assumes inv: "heap_inv s g" and b: "b \<in> users g"
  shows "\<exists>s' g'. do_free t b s = Inr s' \<and> released s g b s' g'"
proof -
  note iv = heap_invD [OF inv]
  have "(\<exists>i sc. small_blk s g b i sc) \<or> (\<exists>i m. large_blk s g b i m)"
    using b own_blk(3) [OF inv] by (simp add: users_def)
  then show ?thesis
  proof (elim disjE exE)
    fix i sc assume i: "small_blk s g b i sc"
    note f = small_blk_facts [OF inv i]
    have sc: "sc \<noteq> 0" "sc < MAX_SZ_IDX" using f(1) by (simp_all add: sc_ok_def)
    have h: "heap (descs s (dsc s i)) = Some sc" using f(9) by (simp add: small_sb_def small_at_def desc_of_def)
    have idx: "sc_idx (heaps s sc) = sc" by (rule heap_idx [OF inv sc(2)])
    have cb: "cache_block_num (get_sizeclass_by_idx sc) = nblocks sc" using sizeclass_fields(4) [of sc] sc by simp
    have e: "do_free t b s = and_then (if tc_num (t_cache s t sc) \<ge> nblocks sc then flush_cache t sc s else Inr s)
        (\<lambda>s1. let (c, m) = push_block b (t_cache s1 t sc, mem s1) in Inr (set_cache t sc c (s1\<lparr>mem := m\<rparr>)))"
      using f(4,6) sb_in_range [OF iv(1) f(7,3)] h idx sc(1) cb by (simp add: do_free_def Let_def)
    have "\<exists>s1 g1. (if tc_num (t_cache s t sc) \<ge> nblocks sc then flush_cache t sc s else Inr s) = Inr s1 \<and>
        internal t sc s g s1 g1 \<and> held g1 = held g \<and> length (cached g1 t sc) < nblocks sc"
    proof (cases "tc_num (t_cache s t sc) \<ge> nblocks sc")
      case True
      have "0 < nblocks sc" using nblocks_props(1) [of sc] sc by simp
      moreover obtain s1 g1 where "flush_cache t sc s = Inr s1" "internal t sc s g s1 g1" "held g1 = held g" "cached g1 t sc = []"
        using flush_cache_ok [OF inv f(1), of t] by blast
      ultimately show ?thesis using True by (intro exI [of _ s1] exI [of _ g1]) simp
    next
      case False
      then show ?thesis using internal_refl [OF inv] cached_num [OF inv f(1), of t]
        by (intro exI [of _ s] exI [of _ g]) simp
    qed
    then obtain s1 g1 where 1: "(if tc_num (t_cache s t sc) \<ge> nblocks sc then flush_cache t sc s else Inr s) = Inr s1"
      "internal t sc s g s1 g1" "held g1 = held g" "length (cached g1 t sc) < nblocks sc" by blast
    obtain j where j: "small_blk s1 g1 b j sc" using user_small_keep [OF inv 1(2) b i] by blast
    have "heap_inv s1 g1" "b \<in> users g1" using 1(2) b by (simp_all add: internal_def)
    then obtain g' where "released s1 g1 b (let (c, m) = push_block b (t_cache s1 t sc, mem s1) in set_cache t sc c (s1\<lparr>mem := m\<rparr>)) g'"
      using push_released [OF _ _ j 1(4)] by blast
    then show ?thesis using internal_released [OF 1(2,3)] e 1(1) by (auto simp: split_beta)
  next
    fix i m assume i: "large_blk s g b i m"
    note f = large_blk_facts [OF inv i]
    have n: "i < nsb g" using f(5) by (simp add: used_def)
    have la: "heap (descs s (dsc s i)) = Some 0" "desc_block_size (descs s (dsc s i)) = m * SBSIZE"
      "CrossPtr_cast (sb_start s) (superblock (descs s (dsc s i))) = sbk s i"
      using f(9) by (simp_all add: large_at_def desc_of_def)
    have idx: "sc_idx (heaps s 0) = 0" by (rule heap_idx [OF inv]) (simp add: MAX_SZ_IDX_def)
    have "b \<noteq> 0" using geom_bounds(8) [OF iv(1), of i] f(7) by simp
    then have "do_free t b s = large_sb_retire (sbk s i) (m * SBSIZE) s"
      using sb_in_range [OF iv(1) n, of b] la idx f(1,7) by (simp add: do_free_def Let_def)
    then show ?thesis using large_free_ok [OF inv i] by simp
  qed
qed

lemma do_free_null: "do_free t 0 s = Inr s"
  by (simp add: do_free_def)

section \<open>Flushing every cache of a thread\<close>

definition flushed :: "ralloc \<Rightarrow> ghost \<Rightarrow> ralloc \<Rightarrow> ghost \<Rightarrow> bool" where
  "flushed s g s' g' \<longleftrightarrow> heap_inv s' g' \<and> held g' = held g \<and> users g' = users g \<and>
    (\<forall>b \<in> users g. msize s' b = msize s b \<and> (\<forall>x \<in> extent s b. mem s' x = mem s x)) \<and>
    sb_start s' = sb_start s \<and> desc_start s' = desc_start s \<and> roots s' = roots s \<and> nsb g \<le> nsb g'"

lemma flush_list_ok:
  assumes "heap_inv s g" and "\<And>i. i \<in> set is \<Longrightarrow> sc_ok i"
  shows "\<exists>s' g'. fold (\<lambda>i r. and_then r (flush_cache t i)) is (Inr s) = Inr s' \<and> flushed s g s' g' \<and>
    (\<forall>i \<in> set is. cached g' t i = []) \<and> (\<forall>i. i \<notin> set is \<longrightarrow> cached g' t i = cached g t i)"
  using assms
proof (induction "is" arbitrary: s g)
  case Nil
  then show ?case by (auto simp: flushed_def)
next
  case (Cons i js)
  obtain s1 g1 where 1: "flush_cache t i s = Inr s1" "internal t i s g s1 g1" "held g1 = held g" "cached g1 t i = []"
    using flush_cache_ok [OF Cons.prems(1), of i t] Cons.prems(2) by auto
  have "heap_inv s1 g1" using 1(2) by (simp add: internal_def)
  then obtain s' g' where 2: "fold (\<lambda>i r. and_then r (flush_cache t i)) js (Inr s1) = Inr s'" "flushed s1 g1 s' g'"
    "\<forall>i \<in> set js. cached g' t i = []" "\<forall>i. i \<notin> set js \<longrightarrow> cached g' t i = cached g1 t i"
    using Cons.IH [of s1 g1] Cons.prems(2) by auto
  have "flushed s g s' g'" using 1(2,3) 2(2) by (auto simp: flushed_def internal_def extent_def)
  moreover have "cached g' t i = []" using 2(3,4) 1(4) by (cases "i \<in> set js") auto
  moreover have "cached g' t k = cached g t k" if "k \<notin> set (i # js)" for k
    using that 2(4) 1(2) by (auto simp: internal_def)
  ultimately show ?case using 1(1) 2(1,3) by auto
qed

lemma public_flush_cache_ok:
  assumes "heap_inv s g"
  shows "\<exists>s' g'. public_flush_cache True t s = Inr s' \<and> flushed s g s' g' \<and>
    (\<forall>sc. sc_ok sc \<longrightarrow> tc_num (t_cache s' t sc) = 0)"
proof -
  obtain s' g' where 1: "fold (\<lambda>i r. and_then r (flush_cache t i)) [1..<MAX_SZ_IDX] (Inr s) = Inr s'" "flushed s g s' g'"
    "\<forall>i \<in> set [1..<MAX_SZ_IDX]. cached g' t i = []"
    using flush_list_ok [OF assms, of "[1..<MAX_SZ_IDX]" t] by (auto simp: sc_ok_def)
  have "tc_num (t_cache s' t sc) = 0" if "sc_ok sc" for sc
  proof -
    have "heap_inv s' g'" using 1(2) by (simp add: flushed_def)
    then show ?thesis using cached_num [OF _ that] 1(3) that by (simp add: sc_ok_def)
  qed
  then show ?thesis using 1(1,2) by (auto simp: public_flush_cache_def)
qed

end
