(* ===== verification/HeapClient.thy ===== *)
theory HeapClient
  imports HeapMalloc
begin

text \<open>
  The allocator as its client sees it: a finite collection of blocks with their bytes. The
  abstract heap maps the address of each block to its bytes; the operations of the allocator
  refine the abstract ones in every state that a program can reach.
\<close>

section \<open>The abstract heap\<close>

type_synonym heap_view = "addr \<rightharpoonup> byte list"

definition view_range :: "heap_view \<Rightarrow> addr \<Rightarrow> addr set" where
  "view_range H p = {p..<p + length (the (H p))}"

text \<open>Blocks are disjoint, aligned, and none is the null pointer.\<close>

definition view_ok :: "heap_view \<Rightarrow> bool" where
  "view_ok H \<longleftrightarrow> (\<forall>a \<in> dom H. \<forall>b \<in> dom H. a \<noteq> b \<longrightarrow> view_range H a \<inter> view_range H b = {}) \<and>
    (\<forall>a \<in> dom H. a \<noteq> 0)"

definition spec_malloc :: "nat \<Rightarrow> heap_view \<Rightarrow> addr \<Rightarrow> heap_view \<Rightarrow> bool" where
  "spec_malloc n H p H' \<longleftrightarrow> p \<notin> dom H \<and> (\<exists>bs. H' = H(p \<mapsto> bs) \<and> n \<le> length bs) \<and> 8 dvd p \<and> view_ok H'"

definition spec_free :: "addr \<Rightarrow> heap_view \<Rightarrow> heap_view" where
  "spec_free p H = H(p := None)"

definition spec_write :: "addr \<Rightarrow> nat \<Rightarrow> byte \<Rightarrow> heap_view \<Rightarrow> heap_view" where
  "spec_write p i v H = H(p := map_option (\<lambda>bs. bs[i := v]) (H p))"

section \<open>The abstraction\<close>

definition live :: "ralloc \<Rightarrow> ghost \<Rightarrow> heap_view" where
  "live s g p = (if p \<in> users g then Some (map (mem s) [p..<p + msize s p]) else None)"

text \<open>\<open>represents s H\<close>: some ghost state explains \<open>s\<close>, with no superblock in transit, and the program's blocks are \<open>H\<close>.\<close>

definition represents :: "ralloc \<Rightarrow> heap_view \<Rightarrow> bool" where
  "represents s H \<longleftrightarrow> (\<exists>g. heap_inv s g \<and> 1 \<le> nsb g \<and> held g = {} \<and> H = live s g)"

lemma dom_live: "dom (live s g) = users g"
  by (auto simp: live_def split: if_splits)

lemma range_live: "p \<in> users g \<Longrightarrow> view_range (live s g) p = extent s p"
  by (simp add: view_range_def live_def extent_def)

lemma user_nonzero:
  assumes inv: "heap_inv s g" and p: "p \<in> users g"
  shows "p \<noteq> 0"
proof -
  have "(\<exists>i sc. small_blk s g p i sc) \<or> (\<exists>i m. large_blk s g p i m)" using p own_blk(3) [OF inv] by (simp add: users_def)
  then show ?thesis
  proof (elim disjE exE)
    fix i sc assume "small_blk s g p i sc" then show ?thesis by (rule small_blk_facts(4) [OF inv])
  next
    fix i m assume "large_blk s g p i m"
    then show ?thesis using large_blk_facts(7) [OF inv] geom_bounds(8) [OF heap_invD(1) [OF inv]] by metis
  qed
qed

text \<open>A block of the program starts inside the superblock region, behind the superblock that is skipped.\<close>

lemma user_in_heap:
  assumes inv: "heap_inv s g" and p: "p \<in> users g"
  shows "sb_start s < p" and "in_range (sb_start s) (sb_region s) p" and "user_addr p"
proof -
  have "(\<exists>i sc. small_blk s g p i sc) \<or> (\<exists>i m. large_blk s g p i m)" using p own_blk(3) [OF inv] by (simp add: users_def)
  then obtain i where i: "used g i" "p \<in> sb_range s i"
  proof (elim disjE exE)
    fix i sc assume i: "small_blk s g p i sc"
    show ?thesis by (rule that [of i]) (use i small_blk_facts(3) [OF inv i] in \<open>auto simp: small_blk_def\<close>)
  next
    fix i m assume i: "large_blk s g p i m"
    show ?thesis by (rule that [of i]) (use large_blk_facts(5,7) [OF inv i] in simp_all)
  qed
  note geo = heap_invD(1) [OF inv]
  have c: "curr_addr (sb_region s) = sbk s (nsb g)" using geo region_at_curr by (auto simp: geom_def sbk_def)
  have "sbk s 0 + SBSIZE \<le> sbk s i" "sbk s i + SBSIZE \<le> sbk s (nsb g)"
    using i(1) sbk_mono [of 0 i s] sbk_mono [of i "nsb g" s] by (simp_all add: used_def)
  moreover have "sbk s i \<le> p" "p < sbk s i + SBSIZE" using i(2) by (simp_all add: sb_range_def)
  moreover have "sbk s 0 = sb_start s" "0 < SBSIZE" by (simp_all add: sbk_def pm_consts)
  ultimately have b: "sb_start s < p" "p < sbk s (nsb g)" by linarith+
  then show "sb_start s < p" "in_range (sb_start s) (sb_region s) p" by (simp_all add: in_range_def c)
  show "user_addr p" using b(2) geom_bounds(3) [OF geo, of "nsb g"] by (simp add: user_addr_def)
qed

lemma represents_in_heap:
  assumes "represents s H" and "p \<in> dom H"
  shows "sb_start s < p" and "in_range (sb_start s) (sb_region s) p" and "user_addr p"
proof -
  obtain g where g: "heap_inv s g" "p \<in> users g" using assms dom_live by (metis represents_def)
  show "sb_start s < p" "in_range (sb_start s) (sb_region s) p" "user_addr p" by (rule user_in_heap [OF g])+
qed

lemma live_ok: "heap_inv s g \<Longrightarrow> view_ok (live s g)"
  unfolding view_ok_def dom_live
  using extent_disjoint [of s g] user_nonzero [of s g] by (auto simp: range_live users_def)

lemma live_cong:
  assumes "b \<in> users g" "b \<in> users g'" and "msize s' b = msize s b" and "\<forall>x \<in> extent s b. mem s' x = mem s x"
  shows "live s' g' b = live s g b"
  using assms by (auto simp: live_def extent_def)

lemma allocated_live:
  assumes "allocated n s g p s' g'"
  shows "live s' g' = (live s g)(p \<mapsto> map (mem s') [p..<p + msize s' p])"
proof
  fix b
  show "live s' g' b = ((live s g)(p \<mapsto> map (mem s') [p..<p + msize s' p])) b"
  proof (cases "b \<in> users g")
    case True
    then have "b \<noteq> p" using assms by (auto simp: allocated_def)
    then show ?thesis using True assms live_cong [of b g g' s' s] by (simp add: allocated_def)
  qed (use assms in \<open>auto simp: live_def allocated_def\<close>)
qed

lemma released_live: "released s g p s' g' \<Longrightarrow> live s' g' = (live s g)(p := None)"
proof
  fix b assume r: "released s g p s' g'"
  show "live s' g' b = ((live s g)(p := None)) b"
  proof (cases "b \<in> users g - {p}")
    case True
    then show ?thesis using r live_cong [of b g g' s' s] by (simp add: released_def)
  qed (use r in \<open>auto simp: live_def released_def\<close>)
qed

lemma flushed_live: "flushed s g s' g' \<Longrightarrow> live s' g' = live s g"
proof
  fix b assume r: "flushed s g s' g'"
  show "live s' g' b = live s g b"
  proof (cases "b \<in> users g")
    case True
    then show ?thesis using r live_cong [of b g g' s' s] by (simp add: flushed_def)
  qed (use r in \<open>auto simp: live_def flushed_def\<close>)
qed

section \<open>A program writes to its blocks\<close>

lemma user_write_inv:
  assumes inv: "heap_inv s g" and p: "p \<in> users g" and x: "x \<in> extent s p"
  shows "heap_inv (s\<lparr>mem := (mem s)(x := v)\<rparr>) g"
proof -
  let ?s' = "s\<lparr>mem := (mem s)(x := v)\<rparr>"
  have rd: "read_pptr (mem ?s') b = read_pptr (mem s) b" if b: "linked (own g b)" for b
  proof -
    obtain i sc where i: "small_blk s g b i sc" using own_blk(4) [OF inv b] by blast
    have "extent s b \<inter> extent s p = {}"
      using b p by (intro extent_disjoint [OF inv]) (auto simp: linked_def users_def split: owner.splits)
    moreover have "{b..<b + 8} \<subseteq> extent s b"
      using small_blk_msize [OF inv i] bsize_props(1) [of sc] small_blk_facts(1) [OF inv i]
      by (auto simp: extent_def sc_ok_def)
    ultimately have "x \<notin> {b..<b + 8}" using x by blast
    then show ?thesis unfolding read_pptr_def by (intro arg_cong [of _ _ "pptr_cast b"] load64_cong) auto
  qed
  have f: "frame {} s g ?s' g"
    using rd by (auto simp: frame_def desc_of_def dsc_def)
  show ?thesis
    by (rule heap_inv_raw_step [OF inv f]) (use heap_invD(1,2) [OF inv] in \<open>simp_all add: geom_def free_ok_def dsc_def\<close>)
qed

lemma user_write_live:
  assumes inv: "heap_inv s g" and p: "p \<in> users g" and i: "i < msize s p"
  shows "live (s\<lparr>mem := (mem s)(p + i := v)\<rparr>) g = spec_write p i v (live s g)"
proof
  fix b
  let ?s' = "s\<lparr>mem := (mem s)(p + i := v)\<rparr>"
  have ms: "msize ?s' = msize s" by (simp add: msize_def fun_eq_iff)
  have x: "p + i \<in> extent s p" using i by (simp add: extent_def)
  show "live ?s' g b = spec_write p i v (live s g) b"
  proof (cases "b = p")
    case True
    have "map (mem ?s') [p..<p + msize s p] = (map (mem s) [p..<p + msize s p])[i := v]"
      by (rule nth_equalityI) (auto simp: nth_list_update)
    then show ?thesis using True p by (simp add: live_def spec_write_def ms)
  next
    case False
    show ?thesis
    proof (cases "b \<in> users g")
      case True
      then have "extent s b \<inter> extent s p = {}"
        using False p by (intro extent_disjoint [OF inv]) (auto simp: users_def)
      then have "live ?s' g b = live s g b"
        using True x by (intro live_cong) (auto simp: ms)
      then show ?thesis using False by (simp add: spec_write_def)
    qed (use False in \<open>simp add: live_def spec_write_def\<close>)
  qed
qed

section \<open>The heap after the constructor\<close>

text \<open>
  What the constructor finds: an empty superblock file, mapped in user space, with room for the
  first expansion and not larger than the descriptors can describe; a descriptor file aligned
  to descriptors and still zero; and no thread with a cache.
\<close>

definition boot_ok :: "ralloc \<Rightarrow> bool" where
  "boot_ok s \<longleftrightarrow> (let c = curr_addr (sb_region s); st = ceil_to SBSIZE c; e = base_addr (sb_region s) + FILESIZE (sb_region s) in
    region_at (sb_region s) c \<and> st + SB_REGION_EXPAND_SIZE \<le> e \<and> e < st + (MAX_SB_AMOUNT + 1) * SBSIZE \<and>
    DESCSIZE dvd desc_start s \<and> acp_start (desc_start s) \<and> 0 < desc_start s) \<and>
    (\<forall>t sc. tc_num (t_cache s t sc) = 0) \<and> (\<forall>d. heap (descs s d) = None)"

text \<open>A heap whose superblocks are all held.\<close>

definition held_ghost :: "nat \<Rightarrow> ghost" where
  "held_ghost n = \<lparr>nsb = n, kind = (\<lambda>_. Held), own = (\<lambda>_. NoBlock), free = [], part = (\<lambda>_. []), fl = (\<lambda>_. []),
    cached = (\<lambda>_ _. [])\<rparr>"

lemma all_held_inv:
  assumes "geom s n" and "pc_ptr (acp_load (desc_start s) (avail_sb s)) = 0"
    and "\<And>sc. sc < MAX_SZ_IDX \<Longrightarrow> pc_ptr (acp_load (desc_start s) (partial_list (heaps s sc))) = 0 \<and> sc_idx (heaps s sc) = sc"
    and "\<And>t sc. tc_num (t_cache s t sc) = 0" and "\<And>i. n \<le> i \<Longrightarrow> heap (desc_of s i) = None"
  shows "heap_inv s (held_ghost n)"
proof (rule heap_invI)
  show "geom s (nsb (held_ghost n))" using assms(1) by (simp add: held_ghost_def)
  show "free_ok s (held_ghost n)" using assms(2) by (simp add: free_ok_def held_ghost_def)
  show "part_ok s (held_ghost n)"
    using assms(3) by (simp add: part_ok_def part_list_ok_def nonfull_def held_ghost_def sc_ok_def)
  show "cache_ok s (held_ghost n)"
    using nblocks_props(1) assms(4) by (auto simp: cache_ok_def cache_at_def cache_list_def held_ghost_def)
  show "clean_ok s (held_ghost n)" using assms(5) by (auto simp: clean_ok_def held_ghost_def used_def not_less)
qed (simp_all add: small_ok_def large_ok_def own_ok_def own_at_def held_ghost_def small_blk_def large_blk_def)

lemma acp_null:
  "pc_ptr (acp_load start (AtomicCrossPtrCnt_new start 0 0)) = 0"
  "pc_ptr (acp_load start (acp_store start (ptr_cnt_set 0 0))) = 0"
  "pc_ptr (acp_load start 0) = 0"
  by (simp_all add: acp_load_alt acp_store_alt AtomicCrossPtrCnt_new_def ptr_cnt_set_def)

lemma organize_loop_region: "sb_region (snd (organize_loop n d s)) = sb_region s"
  by (induction n arbitrary: d s) (simp_all add: construct_desc_def)

lemma organize_region:
  assumes "organize_sb_list a n s = Inr s'"
  shows "sb_region s' = sb_region s"
  using assms organize_loop_region [of "n - 1" "desc_lookup s a" "construct_desc (desc_lookup s a) s"]
  by (auto simp: organize_sb_list_def avail_push_def construct_desc_def Let_def split: prod.splits if_splits)

lemma BaseMeta_new_ok:
  assumes b: "boot_ok s"
  shows "\<exists>s' g. BaseMeta_new s = Inr s' \<and> heap_inv s' g \<and> users g = {} \<and> held g = {} \<and> nsb g = 16384 \<and>
    free g = [1..<16384] \<and> (\<forall>i. roots s' i = CrossPtr_assign_nullptr) \<and>
    sb_start s' = ceil_to SBSIZE (curr_addr (sb_region s)) \<and> desc_start s' = desc_start s \<and>
    base_addr (sb_region s') = base_addr (sb_region s) \<and> FILESIZE (sb_region s') = FILESIZE (sb_region s) \<and>
    fetch_heap_start (sb_region s') = sb_start s' \<and> hdr_size (hdr (sb_region s')) = hdr_size (hdr (sb_region s)) \<and> persist (sb_region s') = persist (sb_region s)"
proof -
  define c where "c = curr_addr (sb_region s)"
  define st where "st = ceil_to SBSIZE c"
  define r where "r = set_curr (atomic_pptr_store (base_addr (sb_region s)) (st + SB_REGION_EXPAND_SIZE)) (sb_region s)"
  define s2 where "s2 = s\<lparr>avail_sb := AtomicCrossPtrCnt_new (desc_start s) 0 0,
    heaps := (\<lambda>idx. \<lparr>partial_list = acp_store (desc_start s) (ptr_cnt_set 0 0), sc_idx = idx\<rparr>),
    roots := (\<lambda>_. CrossPtr_assign_nullptr), sb_region := store_heap_start st r, sb_start := st\<rparr>"
  have ra: "region_at (sb_region s) c" and fit: "st + SB_REGION_EXPAND_SIZE \<le> base_addr (sb_region s) + FILESIZE (sb_region s)"
    and top: "base_addr (sb_region s) + FILESIZE (sb_region s) < st + (MAX_SB_AMOUNT + 1) * SBSIZE"
    and ds: "DESCSIZE dvd desc_start s" "acp_start (desc_start s)" "0 < desc_start s"
    and tc: "\<And>t sc. tc_num (t_cache s t sc) = 0" and hn: "\<And>d. heap (descs s d) = None"
    using b by (simp_all add: boot_ok_def Let_def c_def st_def)
  have sb: "SBSIZE = 2 ^ 16" by (simp add: pm_consts)
  have pos: "0 < SB_REGION_EXPAND_SIZE" "0 < (2 :: nat) ^ 16" by (simp_all add: pm_consts)
  note al = nvm_region_allocator_ok [OF ra, of 16 SB_REGION_EXPAND_SIZE, folded sb, folded st_def, folded r_def]
  have code: "nvm_region_allocator SBSIZE SB_REGION_EXPAND_SIZE (sb_region s) = (1, Some st, r)"
    and ra': "region_at r (st + SB_REGION_EXPAND_SIZE)"
    using al pos fit by simp_all
  have "c \<le> st" unfolding st_def sb by (rule ceil_to_least) simp
  moreover have "base_addr (sb_region s) < c" using ra by (simp add: region_at_def)
  ultimately have st0: "base_addr (sb_region s) < st" by simp
  have sd: "SBSIZE dvd st" unfolding st_def sb by (rule ceil_to_least) simp
  have "region_at (store_heap_start st r) (st + 16384 * SBSIZE)"
    using ra' by (simp add: region_at_def store_heap_start_def expand_amount(1))
  moreover have rf: "base_addr (store_heap_start st r) = base_addr (sb_region s)"
    "FILESIZE (store_heap_start st r) = FILESIZE (sb_region s)" by (simp_all add: store_heap_start_def r_def)
  ultimately have gm: "geom s2 16384"
    using top sd st0 ds by (simp add: geom_def s2_def)
  have inv2: "heap_inv s2 (held_ghost 16384)"
    by (rule all_held_inv [OF gm]) (simp_all add: s2_def acp_null tc desc_of_def hn)
  obtain s' where s': "organize_sb_list (sbk s2 1) 16383 s2 = Inr s'" "heap_inv s' (to_free 1 16383 (held_ghost 16384))" "same_blocks s2 s'"
    using organize_ok [OF inv2, of 1 16383] by (auto simp: held_ghost_def)
  have m: "(st + SBSIZE) mod 18446744073709551616 = sbk s2 1"
    using geom_bounds(3) [OF gm, of 1] by (simp add: s2_def sbk_def user_addr_def)
  have "BaseMeta_new s = Inr s'"
    using s'(1) m expand_amount(2) code unfolding BaseMeta_new_def s2_def by (simp add: Let_def)
  moreover have "users (to_free 1 16383 (held_ghost 16384)) = {}" "nsb (to_free 1 16383 (held_ghost 16384)) = 16384"
    "held (to_free 1 16383 (held_ghost 16384)) = {}" "free (to_free 1 16383 (held_ghost 16384)) = [1..<16384]"
    by (auto simp: users_def to_free_def held_ghost_def held_def used_def)
  moreover have "roots s' i = CrossPtr_assign_nullptr" for i
    using s'(3) by (simp add: same_blocks_def s2_def)
  moreover have "sb_start s' = ceil_to SBSIZE (curr_addr (sb_region s))" "desc_start s' = desc_start s"
    "base_addr (sb_region s') = base_addr (sb_region s)" "FILESIZE (sb_region s') = FILESIZE (sb_region s)"
    "hdr_size (hdr (sb_region s')) = hdr_size (hdr (sb_region s))" "persist (sb_region s') = persist (sb_region s)"
    using s'(3) rf organize_region [OF s'(1)] by (simp_all add: same_blocks_def s2_def st_def c_def r_def set_curr_def store_heap_start_def)
  moreover have "fetch_heap_start (sb_region s') = sb_start s'"
  proof -
    have "user_addr st" using geom_bounds(3) [OF gm, of 0] by (simp add: s2_def sbk_def)
    then show ?thesis using s'(3) organize_region [OF s'(1)] by (simp add: same_blocks_def s2_def fetch_heap_start_def store_heap_start_def unat_of_nat_user)
  qed
  ultimately show ?thesis using s'(2) by blast
qed

section \<open>Refinement of each operation\<close>

lemma represents_malloc:
  assumes "represents s H" and "sz + SBSIZE \<le> 2 ^ 32" and m: "do_malloc t sz s = Inr (p, s')"
  shows "spec_malloc sz H p (H(p \<mapsto> map (mem s') [p..<p + msize s' p])) \<and>
    represents s' (H(p \<mapsto> map (mem s') [p..<p + msize s' p]))"
proof -
  obtain g where g: "heap_inv s g" "1 \<le> nsb g" "held g = {}" "H = live s g" using assms(1) by (auto simp: represents_def)
  obtain g' where a: "allocated sz s g p s' g'" using do_malloc_ok [OF g(1,2) assms(2), of t] m by auto
  have l: "live s' g' = H(p \<mapsto> map (mem s') [p..<p + msize s' p])" using allocated_live [OF a] g(4) by simp
  have "heap_inv s' g'" "1 \<le> nsb g'" "held g' = {}" "p \<notin> dom H" "sz \<le> msize s' p" "8 dvd p"
    using a g by (auto simp: allocated_def dom_live)
  then show ?thesis using live_ok [of s' g'] l by (auto simp: spec_malloc_def represents_def)
qed

lemma represents_malloc_size:
  assumes "represents s H" and "sz \<le> MAX_SZ" and "do_malloc t sz s = Inr (p, s')"
  shows "msize s' p = bsize (get_sizeclass sz)"
proof -
  obtain g where g: "heap_inv s g" "1 \<le> nsb g" using assms(1) by (auto simp: represents_def)
  have "sz + SBSIZE \<le> 2 ^ 32" using assms(2) by (simp add: pm_consts)
  from do_malloc_ok [OF g this, of t] assms(2,3) show ?thesis by auto
qed

lemma represents_malloc_error:
  assumes "represents s H" and "sz + SBSIZE \<le> 2 ^ 32" and "do_malloc t sz s = Inl e"
  shows "e = OutOfSpace"
  using assms do_malloc_ok [of s _ sz t] by (fastforce simp: represents_def)

lemma represents_free:
  assumes "represents s H" and "p \<in> dom H"
  shows "\<exists>s'. do_free t p s = Inr s' \<and> represents s' (spec_free p H)"
proof -
  obtain g where g: "heap_inv s g" "1 \<le> nsb g" "held g = {}" "H = live s g" using assms(1) by (auto simp: represents_def)
  have "p \<in> users g" using assms(2) g(4) by (simp add: dom_live)
  then obtain s' g' where r: "do_free t p s = Inr s'" "released s g p s' g'" using do_free_ok [OF g(1)] by blast
  have "heap_inv s' g'" "1 \<le> nsb g'" "held g' = {}" using r(2) g by (simp_all add: released_def)
  then show ?thesis using r released_live [OF r(2)] g(4) by (auto simp: represents_def spec_free_def)
qed

lemma represents_flush:
  assumes "represents s H"
  shows "\<exists>s'. public_flush_cache True t s = Inr s' \<and> represents s' H \<and> (\<forall>sc. sc_ok sc \<longrightarrow> tc_num (t_cache s' t sc) = 0)"
proof -
  obtain g where g: "heap_inv s g" "1 \<le> nsb g" "held g = {}" "H = live s g" using assms(1) by (auto simp: represents_def)
  obtain s' g' where r: "public_flush_cache True t s = Inr s'" "flushed s g s' g'" "\<forall>sc. sc_ok sc \<longrightarrow> tc_num (t_cache s' t sc) = 0"
    using public_flush_cache_ok [OF g(1)] by blast
  have "heap_inv s' g'" "1 \<le> nsb g'" "held g' = {}" using r(2) g by (simp_all add: flushed_def)
  then show ?thesis using r flushed_live [OF r(2)] g(4) by (auto simp: represents_def)
qed

lemma represents_write:
  assumes "represents s H" and "H p = Some bs" and "i < length bs"
  shows "represents (s\<lparr>mem := (mem s)(p + i := v)\<rparr>) (spec_write p i v H)"
proof -
  obtain g where g: "heap_inv s g" "1 \<le> nsb g" "held g = {}" "H = live s g" using assms(1) by (auto simp: represents_def)
  have p: "p \<in> users g" "i < msize s p" using assms(2,3) g(4) by (auto simp: live_def split: if_splits)
  then have "heap_inv (s\<lparr>mem := (mem s)(p + i := v)\<rparr>) g" by (intro user_write_inv [OF g(1)]) (auto simp: extent_def)
  then show ?thesis using user_write_live [OF g(1) p] g by (auto simp: represents_def)
qed

lemma represents_set_root:
  assumes "represents s H" and "set_root p i s = Inr (q, s')"
  shows "represents s' H"
proof -
  obtain g where g: "heap_inv s g" "1 \<le> nsb g" "held g = {}" "H = live s g" using assms(1) by (auto simp: represents_def)
  obtain R where s': "s' = s\<lparr>roots := R\<rparr>" using assms(2) by (auto simp: set_root_def check_Inr)
  have f: "frame {} s g s' g" by (auto simp: s' frame_def desc_of_def dsc_def)
  have "heap_inv s' g"
    by (rule heap_inv_raw_step [OF g(1) f]) (use heap_invD(1,2) [OF g(1)] in \<open>simp_all add: s' geom_def free_ok_def dsc_def\<close>)
  moreover have "live s' g = live s g" by (simp add: s' live_def msize_def desc_lookup_def fun_eq_iff)
  ultimately show ?thesis using g by (auto simp: represents_def)
qed

lemma represents_boot:
  assumes "boot_ok s0"
  shows "\<exists>s. BaseMeta_new s0 = Inr s \<and> represents s Map.empty"
proof -
  obtain s g where g: "BaseMeta_new s0 = Inr s" "heap_inv s g" "users g = {}" "held g = {}" "nsb g = 16384"
    using BaseMeta_new_ok [OF assms] by blast
  have "live s g = Map.empty" using g(3) by (simp add: live_def fun_eq_iff)
  then show ?thesis using g by (auto simp: represents_def)
qed

lemma represents_view_ok: "represents s H \<Longrightarrow> view_ok H"
  using live_ok by (auto simp: represents_def)

section \<open>Every run of a program\<close>

text \<open>
  The states that a program reaches by calling the allocator, in any order and from any thread,
  and by writing to the blocks it holds.
\<close>

inductive reach :: "ralloc \<Rightarrow> heap_view \<Rightarrow> bool" where
  boot: "boot_ok s0 \<Longrightarrow> BaseMeta_new s0 = Inr s \<Longrightarrow> reach s Map.empty"
| malloc: "reach s H \<Longrightarrow> sz + SBSIZE \<le> 2 ^ 32 \<Longrightarrow> do_malloc t sz s = Inr (p, s') \<Longrightarrow>
    reach s' (H(p \<mapsto> map (mem s') [p..<p + msize s' p]))"
| free: "reach s H \<Longrightarrow> p \<in> dom H \<Longrightarrow> do_free t p s = Inr s' \<Longrightarrow> reach s' (spec_free p H)"
| free_null: "reach s H \<Longrightarrow> do_free t 0 s = Inr s' \<Longrightarrow> reach s' H"
| user_write: "reach s H \<Longrightarrow> H p = Some bs \<Longrightarrow> i < length bs \<Longrightarrow>
    reach (s\<lparr>mem := (mem s)(p + i := v)\<rparr>) (spec_write p i v H)"
| flush: "reach s H \<Longrightarrow> public_flush_cache True t s = Inr s' \<Longrightarrow> reach s' H"
| root: "reach s H \<Longrightarrow> set_root p i s = Inr (q, s') \<Longrightarrow> reach s' H"

lemma reach_represents: "reach s H \<Longrightarrow> represents s H"
proof (induction rule: reach.induct)
  case (boot s0 s)
  then show ?case using represents_boot by fastforce
next
  case (malloc s H sz t p s')
  then show ?case using represents_malloc by blast
next
  case (free s H p t s')
  then show ?case using represents_free [OF free.IH free.hyps(2), of t] by auto
next
  case (flush s H t s')
  then show ?case using represents_flush [OF flush.IH, of t] by auto
qed (use represents_write represents_set_root in \<open>auto simp: do_free_null\<close>)

section \<open>A concrete heap\<close>

text \<open>
  A superblock file at \<open>2\<^sup>4\<^sup>0\<close>, of one expansion, two superblocks and \<open>k\<close> bytes, with the descriptors
  at \<open>2\<^sup>4\<^sup>2\<close>.
\<close>

definition boot_region :: "nat \<Rightarrow> RegionManager" where
  "boot_region k = \<lparr>FILESIZE = 2 ^ 30 + 2 ^ 17 + k, base_addr = 2 ^ 40,
    hdr = \<lparr>hdr_curr = atomic_pptr_store (2 ^ 40) (2 ^ 40 + 4096), hdr_heap_start = 0, hdr_size = 2 ^ 30 + 2 ^ 17 + of_nat k\<rparr>, persist = True\<rparr>"

definition boot_state :: "nat \<Rightarrow> ralloc" where
  "boot_state k = \<lparr>sb_region = boot_region k, sb_start = 0, desc_start = 2 ^ 42, mem = (\<lambda>_. 0), descs = (\<lambda>_. Descriptor_new),
    avail_sb = 0, heaps = (\<lambda>_. \<lparr>partial_list = 0, sc_idx = 0\<rparr>), roots = (\<lambda>_. 0), t_cache = (\<lambda>_ _. \<lparr>tc_block = 0, tc_num = 0\<rparr>)\<rparr>"

lemma boot_region_at: "k \<le> 2 ^ 36 \<Longrightarrow> region_at (boot_region k) (2 ^ 40 + 4096)"
  by (simp add: region_at_def boot_region_def user_addr_def)

lemma boot_ceil: "ceil_to SBSIZE (2 ^ 40 + 4096) = 2 ^ 40 + 2 ^ 16"
proof -
  have "ceil_to (2 ^ 16) (2 ^ 40 + 4096) = (2 :: nat) ^ 40 + 2 ^ 16" by (rule ceil_to_unique) simp_all
  then show ?thesis by (simp add: pm_consts)
qed

lemma boot_state_ok:
  assumes "k \<le> 2 ^ 36"
  shows "boot_ok (boot_state k)"
proof -
  note ra = boot_region_at [OF assms]
  have c: "curr_addr (boot_region k) = 2 ^ 40 + 4096" by (rule region_at_curr [OF ra])
  note st = boot_ceil
  have f: "base_addr (boot_region k) = 2 ^ 40" "FILESIZE (boot_region k) = 2 ^ 30 + 2 ^ 17 + k" by (simp_all add: boot_region_def)
  have d: "DESCSIZE dvd 2 ^ 42" "acp_start (2 ^ 42)"
    by (simp_all add: pm_consts acp_start_def user_addr_def desc_bits)
  have "boot_ok (boot_state k) \<longleftrightarrow> region_at (boot_region k) (2 ^ 40 + 4096) \<and>
      2 ^ 40 + 2 ^ 16 + SB_REGION_EXPAND_SIZE \<le> 2 ^ 40 + (2 ^ 30 + 2 ^ 17 + k) \<and>
      2 ^ 40 + (2 ^ 30 + 2 ^ 17 + k) < 2 ^ 40 + 2 ^ 16 + (MAX_SB_AMOUNT + 1) * SBSIZE \<and>
      DESCSIZE dvd 2 ^ 42 \<and> acp_start (2 ^ 42)"
    unfolding boot_ok_def boot_state_def Let_def ralloc.simps c st f by (simp add: Descriptor_new_def)
  moreover have "2 ^ 40 + (2 ^ 30 + 2 ^ 17 + k) < 2 ^ 40 + 2 ^ 16 + (MAX_SB_AMOUNT + 1) * SBSIZE"
    "2 ^ 40 + 2 ^ 16 + SB_REGION_EXPAND_SIZE \<le> 2 ^ 40 + (2 ^ 30 + 2 ^ 17 + k)"
    using assms by (simp_all add: pm_consts)
  ultimately show ?thesis using ra d by blast
qed

lemma boot_form:
  assumes "k \<le> 2 ^ 36"
  shows "\<exists>s g. BaseMeta_new (boot_state k) = Inr s \<and> heap_inv s g \<and> users g = {} \<and> held g = {} \<and> nsb g = 16384 \<and> free g = [1..<16384] \<and>
    sb_start s = 2 ^ 40 + 2 ^ 16 \<and> base_addr (sb_region s) = 2 ^ 40 \<and> FILESIZE (sb_region s) = 2 ^ 30 + 2 ^ 17 + k"
proof -
  have c: "curr_addr (boot_region k) = 2 ^ 40 + 4096" by (rule region_at_curr [OF boot_region_at [OF assms]])
  have "ceil_to SBSIZE (curr_addr (sb_region (boot_state k))) = 2 ^ 40 + 2 ^ 16"
    using boot_ceil c by (simp add: boot_state_def)
  moreover have "base_addr (sb_region (boot_state k)) = 2 ^ 40" "FILESIZE (sb_region (boot_state k)) = 2 ^ 30 + 2 ^ 17 + k"
    by (simp_all add: boot_state_def boot_region_def)
  ultimately show ?thesis using BaseMeta_new_ok [OF boot_state_ok [OF assms]] by metis
qed

lemma boot_malloc:
  assumes "boot_ok s0" and "BaseMeta_new s0 = Inr s" and sz: "sz \<le> MAX_SZ"
  shows "\<exists>p s'. do_malloc t sz s = Inr (p, s')"
proof -
  obtain g where g: "heap_inv s g" "nsb g = 16384" "free g = [1..<16384]"
    using BaseMeta_new_ok [OF assms(1)] assms(2) by auto
  have "free g \<noteq> []" using g(3) by simp
  then have "\<not> no_room s g" by (simp add: no_room_def)
  moreover have "sz + SBSIZE \<le> 2 ^ 32" using sz by (simp add: pm_consts)
  ultimately show ?thesis using do_malloc_ok [OF g(1), of sz t] g(2) sz by auto
qed

lemma boot_reach: "\<exists>s. BaseMeta_new (boot_state 0) = Inr s \<and> represents s Map.empty"
  by (rule represents_boot) (simp add: boot_state_ok)

section \<open>The contract of the allocator\<close>

text \<open>C1: \<^verbatim>\<open>do_malloc\<close> refines the abstract allocation. On every heap that the invariant explains, a request below
  4 GiB either runs out of the file or returns a block that no one holds, aligned, at least as large as
  requested, apart from every other block, and leaves the bytes of all blocks as they were. No assertion of the
  code fails and no compare-and-swap is lost.\<close>

theorem do_malloc_refines:
  assumes "represents s H" and "sz + SBSIZE \<le> 2 ^ 32"
  shows "case do_malloc t sz s of Inl e \<Rightarrow> e = OutOfSpace
    | Inr (p, s') \<Rightarrow> \<exists>H'. spec_malloc sz H p H' \<and> represents s' H'"
  using represents_malloc [OF assms, of t] represents_malloc_error [OF assms, of t]
  by (cases "do_malloc t sz s") auto

theorem do_malloc_refines_witness:
  "\<exists>s p s'. BaseMeta_new (boot_state 0) = Inr s \<and> do_malloc 0 100 s = Inr (p, s') \<and>
    (\<exists>H'. spec_malloc 100 Map.empty p H' \<and> represents s' H')"
proof -
  obtain s where s: "BaseMeta_new (boot_state 0) = Inr s" "represents s Map.empty" using boot_reach by blast
  obtain p s' where m: "do_malloc 0 100 s = Inr (p, s')"
    using boot_malloc [OF _ s(1), of 100 0] boot_state_ok [of 0] by (auto simp: pm_consts)
  have "100 + SBSIZE \<le> 2 ^ 32" by (simp add: pm_consts)
  from do_malloc_refines [OF s(2) this, of 0] s m show ?thesis by auto
qed

text \<open>C2: \<^verbatim>\<open>do_free\<close> refines the abstract deallocation, for small and for large blocks: freeing a block that the program
  holds always succeeds, removes exactly that block and keeps the bytes of all others.\<close>

theorem do_free_refines:
  assumes "represents s H" and "p \<in> dom H"
  shows "\<exists>s'. do_free t p s = Inr s' \<and> represents s' (spec_free p H)"
  by (rule represents_free [OF assms])

theorem do_free_refines_witness:
  "\<exists>s p s' s''. BaseMeta_new (boot_state 0) = Inr s \<and> do_malloc 0 100 s = Inr (p, s') \<and> do_free 1 p s' = Inr s'' \<and>
    represents s'' (spec_free p [p \<mapsto> map (mem s') [p..<p + msize s' p]])"
proof -
  obtain s where s: "BaseMeta_new (boot_state 0) = Inr s" "represents s Map.empty" using boot_reach by blast
  obtain p s' where m: "do_malloc 0 100 s = Inr (p, s')"
    using boot_malloc [OF _ s(1), of 100 0] boot_state_ok [of 0] by (auto simp: pm_consts)
  have "100 + SBSIZE \<le> 2 ^ 32" by (simp add: pm_consts)
  then have "represents s' [p \<mapsto> map (mem s') [p..<p + msize s' p]]" using represents_malloc [OF s(2) _ m] by simp
  from do_free_refines [OF this, of p 1] s m show ?thesis by auto
qed

text \<open>C22: allocating a block and freeing it again, from the same thread or from another, gives the program the heap it had.\<close>

theorem malloc_free_roundtrip:
  assumes "represents s H" and "sz + SBSIZE \<le> 2 ^ 32" and "do_malloc t sz s = Inr (p, s')"
  shows "\<exists>s''. do_free t' p s' = Inr s'' \<and> represents s'' H"
proof -
  let ?H' = "H(p \<mapsto> map (mem s') [p..<p + msize s' p])"
  have m: "spec_malloc sz H p ?H'" "represents s' ?H'" using represents_malloc [OF assms] by simp_all
  then have "spec_free p ?H' = H" by (auto simp: spec_free_def spec_malloc_def fun_eq_iff)
  then show ?thesis using represents_free [OF m(2), of p t'] by auto
qed

theorem malloc_free_roundtrip_witness:
  "\<exists>s p s' s''. BaseMeta_new (boot_state 0) = Inr s \<and> do_malloc 0 5000 s = Inr (p, s') \<and> do_free 3 p s' = Inr s'' \<and>
    represents s'' Map.empty"
proof -
  obtain s where s: "BaseMeta_new (boot_state 0) = Inr s" "represents s Map.empty" using boot_reach by blast
  obtain p s' where m: "do_malloc 0 5000 s = Inr (p, s')"
    using boot_malloc [OF _ s(1), of 5000 0] boot_state_ok [of 0] by (auto simp: pm_consts)
  have "5000 + SBSIZE \<le> 2 ^ 32" by (simp add: pm_consts)
  from malloc_free_roundtrip [OF s(2) this m, of 3] s m show ?thesis by blast
qed

text \<open>C5: in every state that a program can reach, by any sequence of allocations, deallocations, writes to
  its blocks, cache flushes and root updates from any threads, the blocks it holds are pairwise disjoint, none is
  the null pointer, and the allocator's invariant explains the state.\<close>

theorem reach_blocks_disjoint:
  assumes "reach s H"
  shows "view_ok H \<and> represents s H"
  using reach_represents [OF assms] represents_view_ok by blast

theorem reach_blocks_disjoint_witness:
  "\<exists>s p s'. BaseMeta_new (boot_state 0) = Inr s \<and> do_malloc 0 64 s = Inr (p, s') \<and>
    view_ok [p \<mapsto> map (mem s') [p..<p + msize s' p]]"
proof -
  obtain s where s: "BaseMeta_new (boot_state 0) = Inr s" using boot_reach by blast
  have r: "reach s Map.empty" by (rule reach.boot [OF boot_state_ok s]) simp
  obtain p s' where m: "do_malloc 0 64 s = Inr (p, s')"
    using boot_malloc [OF _ s, of 64 0] boot_state_ok [of 0] by (auto simp: pm_consts)
  have "64 + SBSIZE \<le> 2 ^ 32" by (simp add: pm_consts)
  from reach_blocks_disjoint [OF reach.malloc [OF r this m]] s m show ?thesis by auto
qed

text \<open>C7: flushing the caches of a thread terminates with all its bins empty and does not touch the program's blocks.\<close>

theorem public_flush_cache_empties:
  assumes "represents s H"
  shows "\<exists>s'. public_flush_cache True t s = Inr s' \<and> represents s' H \<and>
    (\<forall>sc. sc_ok sc \<longrightarrow> tc_num (t_cache s' t sc) = 0)"
  by (rule represents_flush [OF assms])

theorem public_flush_cache_empties_witness:
  "\<exists>s p s' s'' bs. BaseMeta_new (boot_state 0) = Inr s \<and> do_malloc 0 64 s = Inr (p, s') \<and>
    public_flush_cache True 0 s' = Inr s'' \<and> represents s'' [p \<mapsto> bs] \<and> tc_num (t_cache s'' 0 1) = 0"
proof -
  obtain s where s: "BaseMeta_new (boot_state 0) = Inr s" "represents s Map.empty" using boot_reach by blast
  obtain p s' where m: "do_malloc 0 64 s = Inr (p, s')"
    using boot_malloc [OF _ s(1), of 64 0] boot_state_ok [of 0] by (auto simp: pm_consts)
  have "64 + SBSIZE \<le> 2 ^ 32" by (simp add: pm_consts)
  then have "represents s' [p \<mapsto> map (mem s') [p..<p + msize s' p]]" using represents_malloc [OF s(2) _ m] by simp
  from public_flush_cache_empties [OF this, of 0] s m show ?thesis by (fastforce simp: sc_ok_def MAX_SZ_IDX_def)
qed

text \<open>C23: the constructor turns an empty superblock file into a heap with no blocks that satisfies the invariant, with
  every root null.\<close>

theorem BaseMeta_new_represents:
  assumes "boot_ok s0"
  shows "\<exists>s. BaseMeta_new s0 = Inr s \<and> represents s Map.empty \<and> (\<forall>i. roots s i = CrossPtr_assign_nullptr)"
  using BaseMeta_new_ok [OF assms] represents_boot [OF assms] by auto

theorem BaseMeta_new_represents_witness:
  "\<exists>s. BaseMeta_new (boot_state 4096) = Inr s \<and> represents s Map.empty \<and> roots s 7 = CrossPtr_assign_nullptr"
  using BaseMeta_new_represents [OF boot_state_ok [of 4096]] by auto

text \<open>C24: on a freshly constructed heap a small request never fails.\<close>

theorem fresh_heap_allocates:
  assumes "boot_ok s0" and "BaseMeta_new s0 = Inr s" and "sz \<le> MAX_SZ"
  shows "\<exists>p s'. do_malloc t sz s = Inr (p, s') \<and> sz \<le> msize s' p"
proof -
  obtain p s' where m: "do_malloc t sz s = Inr (p, s')" using boot_malloc [OF assms] by blast
  have "represents s Map.empty" using represents_boot [OF assms(1)] assms(2) by auto
  moreover have "sz + SBSIZE \<le> 2 ^ 32" using assms(3) by (simp add: pm_consts)
  ultimately have "spec_malloc sz Map.empty p [p \<mapsto> map (mem s') [p..<p + msize s' p]]" using represents_malloc [OF _ _ m] by blast
  then have "sz \<le> msize s' p" by (auto simp: spec_malloc_def fun_upd_def split: if_splits dest!: fun_cong [of _ _ p])
  with m show ?thesis by blast
qed

theorem fresh_heap_allocates_witness:
  "\<exists>s p s'. BaseMeta_new (boot_state 0) = Inr s \<and> do_malloc 2 14336 s = Inr (p, s') \<and> 14336 \<le> msize s' p"
proof -
  obtain s where s: "BaseMeta_new (boot_state 0) = Inr s" using boot_reach by blast
  have "14336 \<le> MAX_SZ" by (simp add: pm_consts)
  from fresh_heap_allocates [OF boot_state_ok s this, of 2] s show ?thesis by auto
qed

end
