(* ===== verification/GarbageCollection.thy ===== *)
theory GarbageCollection
  imports BaseMeta
begin

text \<open>
  The garbage collection that rebuilds the transient metadata after a crash
  (\<^verbatim>\<open>GarbageCollection\<close> in \<^verbatim>\<open>BaseMeta.hpp\<close> and \<^verbatim>\<open>BaseMeta.cpp\<close>): mark what the roots reach, then sweep the
  superblocks in the order of their addresses. The filter functions that the application
  registers are a parameter.
\<close>

section \<open>Marking\<close>

text \<open>
  A filter function is the conservative default, or one that the application supplies, known by a
  number. What an application's filter does is the list of the marks it makes: a pointer, a
  thread id and the filter for the block behind that pointer.
\<close>

datatype filter_fun = Default | Custom nat

type_synonym custom_filters = "nat \<Rightarrow> addr \<Rightarrow> nat \<Rightarrow> (addr \<times> nat \<times> filter_fun) list"

text \<open>\<^verbatim>\<open>std::set<char*>\<close> is kept as the list of its elements in their order.\<close>

record gc =
  marked_blk :: "addr list"
  to_filter_node :: "(addr \<times> nat) list"
  to_filter_func :: "filter_fun list"

definition GarbageCollection_new :: gc where
  "GarbageCollection_new = \<lparr>marked_blk = [], to_filter_node = [], to_filter_func = []\<rparr>"

definition mark_func_c :: "ralloc \<Rightarrow> addr \<Rightarrow> nat \<Rightarrow> filter_fun \<Rightarrow> gc \<Rightarrow> gc" where
  "mark_func_c s ptr tid f c =
    (if \<not> in_range (sb_start s) (sb_region s) ptr then c
     else if ptr \<notin> set (marked_blk c)
       then c\<lparr>marked_blk := insort ptr (marked_blk c), to_filter_node := (ptr, tid) # to_filter_node c,
              to_filter_func := f # to_filter_func c\<rparr>
       else c)"

text \<open>The template \<^verbatim>\<open>mark_func\<close> pushes thread id 0 and the default filter.\<close>

definition mark_func :: "ralloc \<Rightarrow> addr \<Rightarrow> nat \<Rightarrow> gc \<Rightarrow> gc" where
  "mark_func s ptr tid c =
    (if \<not> in_range (sb_start s) (sb_region s) ptr then c
     else if ptr \<notin> set (marked_blk c)
       then c\<lparr>marked_blk := insort ptr (marked_blk c), to_filter_node := (ptr, 0) # to_filter_node c,
              to_filter_func := Default # to_filter_func c\<rparr>
       else c)"

text \<open>The default filter takes every address inside the block for a possible pointer.\<close>

definition filter_func :: "ralloc \<Rightarrow> addr \<Rightarrow> nat \<Rightarrow> gc \<Rightarrow> gc" where
  "filter_func s ptr tid c =
    (let sz = desc_block_size (descs s (desc_lookup s ptr))
     in fold (\<lambda>i c. let curr_content = read_pptr (mem s) (ptr + i)
               in if curr_content \<noteq> 0 then mark_func s curr_content tid c else c) [0..<sz] c)"

definition custom_filter :: "custom_filters \<Rightarrow> ralloc \<Rightarrow> nat \<Rightarrow> addr \<Rightarrow> nat \<Rightarrow> gc \<Rightarrow> gc" where
  "custom_filter custom s k ptr tid c = fold (\<lambda>(p, t, f). mark_func_c s p t f) (custom k ptr tid) c"

definition call_filter :: "custom_filters \<Rightarrow> ralloc \<Rightarrow> filter_fun \<Rightarrow> addr \<Rightarrow> nat \<Rightarrow> gc \<Rightarrow> gc" where
  "call_filter custom s f ptr tid c =
    (case f of Default \<Rightarrow> filter_func s ptr tid c | Custom k \<Rightarrow> custom_filter custom s k ptr tid c)"

text \<open>
  The filter of a root: empty, the one that \<^verbatim>\<open>get_root\<close> installs, or one the application registered.
\<close>

datatype root_filter = RootMark | RootCustom nat

definition mark_root :: "custom_filters \<Rightarrow> (nat \<Rightarrow> root_filter option) \<Rightarrow> ralloc \<Rightarrow> nat \<Rightarrow> gc \<Rightarrow> gc outcome" where
  "mark_root custom roots_filter_func s i c =
    (if \<not> CrossPtr_is_null (roots s i)
     then (case roots_filter_func i of
         None \<Rightarrow> Inl BadCall
       | Some RootMark \<Rightarrow> Inr (mark_func s (CrossPtr_cast (sb_start s) (roots s i)) 0 c)
       | Some (RootCustom k) \<Rightarrow> Inr (custom_filter custom s k (CrossPtr_cast (sb_start s) (roots s i)) i c))
     else Inr c)"

definition mark_roots :: "custom_filters \<Rightarrow> (nat \<Rightarrow> root_filter option) \<Rightarrow> ralloc \<Rightarrow> gc \<Rightarrow> gc outcome" where
  "mark_roots custom roots_filter_func s c =
    fold (\<lambda>i r. and_then r (mark_root custom roots_filter_func s i)) [0..<MAX_ROOTS] (Inr c)"

text \<open>Every mark takes an address of the heap out of those still unmarked.\<close>

definition unmarked :: "ralloc \<Rightarrow> gc \<Rightarrow> nat" where
  "unmarked s c = card ({sb_start s..<curr_addr (sb_region s)} - set (marked_blk c))"

definition gc_weight :: "ralloc \<Rightarrow> gc \<Rightarrow> nat" where
  "gc_weight s c = 2 * unmarked s c + length (to_filter_node c)"

lemma mark_func_eq: "mark_func s ptr tid c = mark_func_c s ptr 0 Default c"
  by (simp add: mark_func_def mark_func_c_def)

lemma mark_func_c_weight: "gc_weight s (mark_func_c s p t f c) \<le> gc_weight s c"
proof (cases "in_range (sb_start s) (sb_region s) p \<and> p \<notin> set (marked_blk c)")
  case True
  let ?A = "{sb_start s..<curr_addr (sb_region s)}"
  have p: "p \<in> ?A - set (marked_blk c)" using True by (simp add: in_range_def)
  have "?A - insert p (set (marked_blk c)) = (?A - set (marked_blk c)) - {p}" by blast
  then have "card (?A - insert p (set (marked_blk c))) = card (?A - set (marked_blk c)) - 1"
    using p by (simp add: card_Diff_singleton)
  moreover have "0 < card (?A - set (marked_blk c))" using p by (auto simp: card_gt_0_iff)
  ultimately show ?thesis
    using True by (simp add: mark_func_c_def gc_weight_def unmarked_def set_insort_key)
qed (auto simp: mark_func_c_def)

lemma fold_weight:
  assumes "\<And>x c. gc_weight s (h x c) \<le> gc_weight s c"
  shows "gc_weight s (fold h xs c) \<le> gc_weight s c"
  by (induction xs arbitrary: c) (auto intro: order_trans [OF _ assms])

lemma call_filter_weight: "gc_weight s (call_filter custom s f p t c) \<le> gc_weight s c"
proof (cases f)
  case Default
  show ?thesis unfolding Default call_filter_def filter_func_def Let_def filter_fun.case
    by (rule fold_weight) (simp add: mark_func_eq mark_func_c_weight)
next
  case (Custom k)
  then show ?thesis unfolding call_filter_def custom_filter_def
    by (simp add: fold_weight mark_func_c_weight split_beta)
qed

function mark_loop :: "custom_filters \<Rightarrow> ralloc \<Rightarrow> gc \<Rightarrow> gc" where
  "mark_loop custom s c =
    (case to_filter_node c of [] \<Rightarrow> c
     | node # nodes \<Rightarrow>
         mark_loop custom s (call_filter custom s (hd (to_filter_func c)) (fst node) (snd node)
           (c\<lparr>to_filter_node := nodes, to_filter_func := tl (to_filter_func c)\<rparr>)))"
  by pat_completeness auto
termination
proof (relation "measure (\<lambda>(custom, s, c). gc_weight s c)")
  fix custom s and c :: gc and node nodes assume e: "to_filter_node c = node # nodes"
  let ?c' = "c\<lparr>to_filter_node := nodes, to_filter_func := tl (to_filter_func c)\<rparr>"
  have "gc_weight s ?c' < gc_weight s c" using e by (simp add: gc_weight_def unmarked_def)
  then show "((custom, s, call_filter custom s (hd (to_filter_func c)) (fst node) (snd node) ?c'), custom, s, c)
      \<in> measure (\<lambda>(custom, s, c). gc_weight s c)"
    using order_le_less_trans [OF call_filter_weight [of s custom "hd (to_filter_func c)" "fst node" "snd node" ?c']] by simp
qed simp

declare mark_loop.simps [simp del]

section \<open>Sweeping\<close>

text \<open>
  What the sweep knows about the superblock it is in: the anchor under construction, the head of the
  free blocks found so far, the next block that may be free, and the bytes.
\<close>

record sweep =
  sw_anchor :: Anchor
  sw_head :: addr
  sw_last :: addr
  sw_mem :: memory

text \<open>
  The two loops over free blocks: link the blocks from \<open>sw_last\<close> up to \<open>limit\<close>. With blocks of size zero
  they would not end.
\<close>

function link_free :: "nat \<Rightarrow> addr \<Rightarrow> addr \<Rightarrow> sweep \<Rightarrow> sweep outcome" where
  "link_free bs limit free_block w =
    (if free_block < limit then
       (if bs = 0 then Inl Diverges
        else link_free bs limit (free_block + bs)
          (w\<lparr>sw_mem := write_pptr free_block (sw_head w) (sw_mem w), sw_head := free_block,
             sw_anchor := set_count (count (sw_anchor w) + 1) (sw_anchor w)\<rparr>))
     else Inr w)"
  by pat_completeness auto
termination
  by (relation "measure (\<lambda>(bs, limit, fb, w). limit - fb)") auto

declare link_free.simps [simp del]

text \<open>The inner loop over the marked blocks: it stops at the first that is not in this superblock.\<close>

fun sweep_marks :: "ralloc \<Rightarrow> addr \<Rightarrow> Descriptor \<Rightarrow> addr list \<Rightarrow> sweep \<Rightarrow> (addr list \<times> sweep) outcome" where
  "sweep_marks s curr_sb d [] w = Inr ([], w)"
| "sweep_marks s curr_sb d (b # bs) w =
    (case heap d of None \<Rightarrow> Inr (b # bs, w)
     | Some h \<Rightarrow>
        if CrossPtr_cast (sb_start s) (superblock d) \<noteq> curr_sb then Inr (b # bs, w)
        else if sc_idx (heaps s h) = 0 \<and> b \<ge> curr_sb \<and> b < curr_sb + desc_block_size d then
          check (maxcount d = 1)
            (sweep_marks s curr_sb d bs (w\<lparr>sw_anchor := set_state SB_FULL (sw_anchor w)\<rparr>))
        else if sc_idx (heaps s h) \<noteq> 0 \<and> b \<ge> curr_sb \<and> b < curr_sb + SBSIZE then
          and_then (link_free (desc_block_size d) b (sw_last w)
              (w\<lparr>sw_anchor := set_state SB_PARTIAL (sw_anchor w)\<rparr>)) (\<lambda>w.
            sweep_marks s curr_sb d bs (w\<lparr>sw_last := b + desc_block_size d\<rparr>))
        else Inr (b # bs, w))"

text \<open>
  The descriptor of a superblock in use is rewritten: transient links to null, and the new anchor.
\<close>

definition reset_desc :: "addr \<Rightarrow> Anchor \<Rightarrow> ralloc \<Rightarrow> ralloc" where
  "reset_desc d a s = upd_desc d (\<lambda>de. de\<lparr>anchor := a\<rparr>)
    (s\<lparr>descs := next_partial_store d 0 (next_free_store d 0 (descs s))\<rparr>)"

text \<open>
  One round of the outer loop, given where it is, the marked blocks still ahead and the list of free
  superblocks so far.
\<close>

definition sweep_small :: "addr \<Rightarrow> addr \<Rightarrow> sweep \<Rightarrow> ralloc \<Rightarrow> ralloc outcome" where
  "sweep_small curr_sb desc w s =
    (let d = descs s desc; bs = desc_block_size d
     in and_then (link_free bs (curr_sb + (maxcount d * bs) mod 2 ^ 32) (sw_last w) w) (\<lambda>w.
          let s1 = s\<lparr>mem := sw_mem w\<rparr>; a = sw_anchor w
          in if count a = 0 then Inr (reset_desc desc (set_state SB_FULL (set_avail (maxcount d) a)) s1)
             else check (sw_head w \<noteq> 0)
               (let a1 = set_state SB_PARTIAL (set_avail ((sw_head w - curr_sb) div bs) a);
                    s2 = s1\<lparr>descs := next_free_store desc 0 (descs s1)\<rparr>
                in and_then (heap_push_partial desc s2) (\<lambda>s3.
                     Inr (upd_desc desc (\<lambda>de. de\<lparr>anchor := a1\<rparr>) s3)))))"

definition sweep_sb :: "addr \<Rightarrow> addr \<Rightarrow> addr list \<Rightarrow> addr \<Rightarrow> ralloc \<Rightarrow>
    (addr \<times> addr \<times> addr list \<times> addr \<times> ralloc) outcome" where
  "sweep_sb curr_sb desc marked free_sb s =
    and_then (sweep_marks s curr_sb (descs s desc) marked
        \<lparr>sw_anchor = Anchor_new 0 0 SB_EMPTY, sw_head = 0, sw_last = curr_sb, sw_mem = mem s\<rparr>) (\<lambda>(marked', w).
      let s1 = s\<lparr>mem := sw_mem w\<rparr>
      in if state (sw_anchor w) = SB_EMPTY then
           (let s2 = construct_desc desc s1
            in Inr (curr_sb + SBSIZE, desc + DESCSIZE, marked', desc,
                 s2\<lparr>descs := next_free_store desc free_sb (descs s2)\<rparr>))
         else (case heap (descs s1 desc) of None \<Rightarrow> Inl NullDeref
           | Some h \<Rightarrow>
               if sc_idx (heaps s1 h) = 0 then
                 (let a = set_state SB_FULL (set_count 0 (set_avail 0 (sw_anchor w)));
                      s2 = reset_desc desc a s1;
                      sb' = curr_sb + desc_block_size (descs s1 desc)
                  in Inr (sb', desc_lookup s2 sb', marked', free_sb, s2))
               else and_then (sweep_small curr_sb desc w s1) (\<lambda>s2.
                 Inr (curr_sb + SBSIZE, desc + DESCSIZE, marked', free_sb, s2))))"

lemma link_free_state: "link_free bs limit fb w = Inr w' \<Longrightarrow> state (sw_anchor w') = state (sw_anchor w)"
proof (induction bs limit fb w rule: link_free.induct)
  case (1 bs limit fb w)
  then show ?case by (subst (asm) link_free.simps) (auto simp: set_count_def split: if_splits)
qed

text \<open>Every round moves on: a large block that is found in use is not empty.\<close>

lemma sweep_marks_size:
  assumes "sweep_marks s sb d ms w = Inr (ms', w')" and "state (sw_anchor w') \<noteq> SB_EMPTY"
    and "heap d = Some h" and "sc_idx (heaps s h) = 0"
  shows "state (sw_anchor w) \<noteq> SB_EMPTY \<or> 0 < desc_block_size d"
  using assms(1,2)
proof (induction ms arbitrary: w)
  case (Cons b bs)
  then show ?case using assms(3,4) by (auto simp: check_Inr split: if_splits)
qed simp

lemma sweep_sb_progress:
  assumes "sweep_sb sb desc ms av s = Inr (sb', desc', ms', av', s')"
  shows "sb < sb'"
proof -
  let ?w = "\<lparr>sw_anchor = Anchor_new 0 0 SB_EMPTY, sw_head = 0, sw_last = sb, sw_mem = mem s\<rparr>"
  obtain ms1 w where w: "sweep_marks s sb (descs s desc) ms ?w = Inr (ms1, w)"
    using assms by (auto simp: sweep_sb_def and_then_Inr)
  have pos: "0 < SBSIZE" by (simp add: pm_consts)
  show ?thesis
  proof (cases "\<exists>h. heap (descs s desc) = Some h \<and> sc_idx (heaps s h) = 0 \<and> state (sw_anchor w) \<noteq> SB_EMPTY")
    case True
    then obtain h where h: "heap (descs s desc) = Some h" "sc_idx (heaps s h) = 0" "state (sw_anchor w) \<noteq> SB_EMPTY" by blast
    have "0 < desc_block_size (descs s desc)"
      using sweep_marks_size [OF w h(3,1,2)] by (simp add: Anchor_new_def)
    then show ?thesis using assms w h by (simp add: sweep_sb_def Let_def)
  next
    case False
    then show ?thesis using assms w pos
      by (auto simp: sweep_sb_def Let_def and_then_Inr split: if_splits option.splits)
  qed
qed

function sweep_loop :: "addr \<Rightarrow> addr \<Rightarrow> addr \<Rightarrow> addr list \<Rightarrow> addr \<Rightarrow> ralloc \<Rightarrow> (addr list \<times> addr \<times> ralloc) outcome" where
  "sweep_loop sb_end curr_sb desc marked free_sb s =
    (if curr_sb < sb_end then
       (case sweep_sb curr_sb desc marked free_sb s of Inl e \<Rightarrow> Inl e
        | Inr (curr_sb', desc', marked', free_sb', s') \<Rightarrow> sweep_loop sb_end curr_sb' desc' marked' free_sb' s')
     else Inr (marked, free_sb, s))"
  by pat_completeness auto
termination
  by (relation "measure (\<lambda>(sb_end, curr_sb, desc, marked, free_sb, s). sb_end - curr_sb)")
    (auto dest!: sweep_sb_progress)

declare sweep_loop.simps [simp del]

section \<open>The whole collection\<close>

definition gc_reset :: "ralloc \<Rightarrow> ralloc" where
  "gc_reset s = s\<lparr>avail_sb := 0, heaps := (\<lambda>i. if i < MAX_SZ_IDX then (heaps s i)\<lparr>partial_list := 0\<rparr> else heaps s i)\<rparr>"

definition gc_sweep :: "addr list \<Rightarrow> ralloc \<Rightarrow> ralloc outcome" where
  "gc_sweep marked s =
    (let curr_sb = translate (sb_start s) (of_nat SBSIZE)
     in and_then (sweep_loop (curr_addr (sb_region s)) curr_sb (desc_lookup s curr_sb) marked 0 s)
       (\<lambda>(marked', free_sb, s1).
         let s2 = s1\<lparr>avail_sb := acp_store (desc_start s1) (ptr_cnt_set free_sb 0)\<rparr>
         in check (marked' = []) (Inr s2)))"

text \<open>The number of blocks marked is added to a statistic.\<close>

definition gc_run :: "custom_filters \<Rightarrow> (nat \<Rightarrow> root_filter option) \<Rightarrow> ralloc \<Rightarrow> (nat \<times> ralloc) outcome" where
  "gc_run custom roots_filter_func s =
    (let s1 = gc_reset s
     in and_then (mark_roots custom roots_filter_func s1 GarbageCollection_new) (\<lambda>c0.
       let c = mark_loop custom s1 c0
       in and_then (gc_sweep (marked_blk c) s1) (\<lambda>s2. Inr (length (marked_blk c), s2))))"

text \<open>
  The cache lines of the metadata object that are written back at the end, here and in \<^verbatim>\<open>writeback\<close>: the
  address moves before each \<^verbatim>\<open>FLUSH\<close>.
\<close>

fun flush_meta_lines :: "addr \<Rightarrow> nat \<Rightarrow> addr list" where
  "flush_meta_lines a 0 = []"
| "flush_meta_lines a (Suc n) = (a + CACHELINE_SIZE) # flush_meta_lines (a + CACHELINE_SIZE) n"

definition flush_meta :: "nat \<Rightarrow> addr \<Rightarrow> addr list" where
  "flush_meta meta_size base_md = flush_meta_lines base_md ((meta_size + CACHELINE_SIZE - 1) div CACHELINE_SIZE)"

end
