(* ===== verification/GcSweep.thy ===== *)
theory GcSweep
  imports HeapClient GarbageCollection
begin

text \<open>
  The sweep after a crash rebuilds the invariant: from the persistent fields of the descriptors and the
  marked blocks alone it restores the lists of free and of partially used superblocks and the
  free list inside every superblock, with the marked blocks as the program's blocks.
\<close>

section \<open>One superblock of small blocks\<close>

text \<open>
  \<open>sw_ok b z k M m0 w xs\<close>: of the first \<open>k\<close> blocks of size \<open>z\<close> at \<open>b\<close>, the ones outside \<open>M\<close> are on the list \<open>xs\<close>, and no
  other byte differs from \<open>m0\<close>.
\<close>

definition sw_ok :: "addr \<Rightarrow> nat \<Rightarrow> nat \<Rightarrow> addr set \<Rightarrow> memory \<Rightarrow> sweep \<Rightarrow> addr list \<Rightarrow> bool" where
  "sw_ok b z k M m0 w xs \<longleftrightarrow> distinct xs \<and> set xs = {b + j * z |j. j < k \<and> b + j * z \<notin> M} \<and>
    count (sw_anchor w) = length xs \<and> (if xs = [] then sw_head w = 0 else run (read_pptr (sw_mem w)) (sw_head w) xs) \<and>
    (\<forall>x. (\<forall>y \<in> set xs. x < y \<or> y + 8 \<le> x) \<longrightarrow> sw_mem w x = m0 x)"

lemma sw_ok_set_state: "sw_ok b z k M m0 (w\<lparr>sw_anchor := set_state v (sw_anchor w)\<rparr>) xs = sw_ok b z k M m0 w xs"
  by (simp add: sw_ok_def set_state_def)

lemma sw_ok_last: "sw_ok b z k M m0 (w\<lparr>sw_last := v\<rparr>) xs = sw_ok b z k M m0 w xs"
  by (simp add: sw_ok_def)

lemma block_apart:
  assumes "8 \<le> (z :: nat)" and "j < k"
  shows "b + j * z + 8 \<le> b + k * z"
proof -
  have "(j + 1) * z \<le> k * z" using assms(2) by (intro mult_le_mono1) simp
  then show ?thesis using assms(1) by simp
qed

text \<open>Linking one more free block in front.\<close>

lemma sw_ok_push:
  assumes w: "sw_ok b z k M m0 w xs" and z: "8 \<le> z" and u: "user_addr (b + k * z)" and "0 < b"
    and len: "length xs < 2 ^ 31 - 1" and nm: "b + k * z \<notin> M"
  defines "w' \<equiv> w\<lparr>sw_mem := write_pptr (b + k * z) (sw_head w) (sw_mem w), sw_head := b + k * z,
             sw_anchor := set_count (count (sw_anchor w) + 1) (sw_anchor w)\<rparr>"
  shows "sw_ok b z (Suc k) M m0 w' ((b + k * z) # xs)"
proof -
  have set: "set xs = {b + j * z |j. j < k \<and> b + j * z \<notin> M}" and d: "distinct xs" and c: "count (sw_anchor w) = length xs"
    and m: "\<And>x. (\<forall>y \<in> set xs. x < y \<or> y + 8 \<le> x) \<Longrightarrow> sw_mem w x = m0 x"
    using w by (simp_all add: sw_ok_def)
  have below: "y + 8 \<le> b + k * z" "user_addr y" if y: "y \<in> set xs" for y
  proof -
    obtain j where j: "y = b + j * z" "j < k" using y unfolding set by blast
    then show 1: "y + 8 \<le> b + k * z" using block_apart [OF z j(2)] by simp
    then show "user_addr y" using u by (simp add: user_addr_def)
  qed
  have "run (read_pptr (sw_mem w')) (b + k * z) ((b + k * z) # xs)"
  proof (cases "xs = []")
    case False
    have r: "run (read_pptr (sw_mem w)) (sw_head w) xs" using w False by (simp add: sw_ok_def)
    have "sw_head w \<in> set xs" using run_hd [OF r False] False by (metis hd_in_set)
    then have uh: "user_addr (sw_head w)" by (rule below(2))
    show ?thesis unfolding w'_def
      using blk.run_push [OF u uh r] below(1) by (simp add: apart8_def)
  qed simp
  moreover have "set ((b + k * z) # xs) = {b + j * z |j. j < Suc k \<and> b + j * z \<notin> M}"
    using set nm by (auto simp: less_Suc_eq)
  moreover have "b + k * z \<notin> set xs" using below(1) by fastforce
  moreover have "sw_mem w' x = m0 x" if "\<forall>y \<in> set ((b + k * z) # xs). x < y \<or> y + 8 \<le> x" for x
    using that m [of x] by (simp add: w'_def write_pptr_outside)
  ultimately show ?thesis using d c len by (simp add: sw_ok_def w'_def set_count_def)
qed

lemma link_free_ok:
  assumes "sw_ok b z k M m0 w xs" and "8 \<le> z" and "k \<le> k'" and "user_addr (b + k' * z)" and "0 < b" and "k' < 2 ^ 31 - 1"
    and "\<And>j. k \<le> j \<Longrightarrow> j < k' \<Longrightarrow> b + j * z \<notin> M"
  shows "\<exists>w' xs'. link_free z (b + k' * z) (b + k * z) w = Inr w' \<and> sw_ok b z k' M m0 w' xs' \<and>
    state (sw_anchor w') = state (sw_anchor w) \<and> sw_last w' = sw_last w \<and> avail (sw_anchor w') = avail (sw_anchor w)"
  using assms
proof (induction "k' - k" arbitrary: k w xs)
  case 0
  then have "k = k'" by simp
  then show ?case using "0.prems"(1) by (subst link_free.simps) auto
next
  case (Suc n)
  then have lt: "k < k'" by simp
  have bl: "b + k * z < b + k' * z" using block_apart [OF Suc.prems(2) lt, of b] by linarith
  then have u: "user_addr (b + k * z)" using Suc.prems(4) unfolding user_addr_def by linarith
  let ?w = "w\<lparr>sw_mem := write_pptr (b + k * z) (sw_head w) (sw_mem w), sw_head := b + k * z,
             sw_anchor := set_count (count (sw_anchor w) + 1) (sw_anchor w)\<rparr>"
  have "length xs < 2 ^ 31 - 1"
  proof -
    have "set xs \<subseteq> (\<lambda>j. b + j * z) ` {..<k}" "distinct xs" using Suc.prems(1) by (auto simp: sw_ok_def)
    then have "length xs \<le> k" by (metis card_image_le card_lessThan card_mono distinct_card finite_imageI finite_lessThan order_trans)
    then show ?thesis using lt Suc.prems(6) by simp
  qed
  then have ok: "sw_ok b z (Suc k) M m0 ?w ((b + k * z) # xs)"
    using Suc.prems lt u by (intro sw_ok_push) auto
  have "\<exists>w' xs'. link_free z (b + k' * z) (b + Suc k * z) ?w = Inr w' \<and> sw_ok b z k' M m0 w' xs' \<and>
    state (sw_anchor w') = state (sw_anchor ?w) \<and> sw_last w' = sw_last ?w \<and> avail (sw_anchor w') = avail (sw_anchor ?w)"
    by (rule Suc.hyps(1) [OF _ ok]) (use Suc in auto)
  moreover have "link_free z (b + k' * z) (b + k * z) w = link_free z (b + k' * z) (b + Suc k * z) ?w"
    using bl Suc.prems(2) by (subst link_free.simps) (simp add: algebra_simps)
  ultimately show ?case by (simp add: set_count_def)
qed

text \<open>What the sweep finds in a superblock cut into blocks of one size class.\<close>

definition small_desc :: "ralloc \<Rightarrow> nat \<Rightarrow> nat \<Rightarrow> bool" where
  "small_desc s i sc \<longleftrightarrow> sc_ok sc \<and> heap (desc_of s i) = Some sc \<and> desc_block_size (desc_of s i) = bsize sc \<and>
    maxcount (desc_of s i) = nblocks sc \<and> CrossPtr_cast (sb_start s) (superblock (desc_of s i)) = sbk s i"

lemma block_user_addr:
  assumes "user_addr (b + SBSIZE)" and "sc_ok sc" and "k \<le> nblocks sc"
  shows "b + k * bsize sc \<le> b + SBSIZE" and "user_addr (b + k * bsize sc)"
proof -
  have "k * bsize sc \<le> nblocks sc * bsize sc" using assms(3) by (rule mult_le_mono1)
  also have "\<dots> \<le> SBSIZE" using nblocks_props(2) assms(2) by (simp add: sc_ok_def)
  finally show "b + k * bsize sc \<le> b + SBSIZE" by simp
  then show "user_addr (b + k * bsize sc)" using assms(1) unfolding user_addr_def by linarith
qed

lemma sweep_marks_small:
  assumes d: "small_desc s i sc" and idx: "sc_idx (heaps s sc) = sc" and b: "b = sbk s i" "user_addr (b + SBSIZE)" "0 < b"
    and M: "\<And>x. x \<in> M \<Longrightarrow> b \<le> x \<Longrightarrow> x < b + SBSIZE \<Longrightarrow> x \<in> blocks s sc i"
    and "sorted ms" and "distinct ms" and "set ms = {x \<in> M. b + k * bsize sc \<le> x}" and "k \<le> nblocks sc"
    and "sw_ok b (bsize sc) k M m0 w xs" and "sw_last w = b + k * bsize sc"
  shows "\<exists>ms' w' xs' k'. sweep_marks s b (desc_of s i) ms w = Inr (ms', w') \<and> sw_ok b (bsize sc) k' M m0 w' xs' \<and>
    sw_last w' = b + k' * bsize sc \<and> k' \<le> nblocks sc \<and> sorted ms' \<and> distinct ms' \<and> set ms' = {x \<in> M. b + SBSIZE \<le> x} \<and>
    (\<forall>j. k' \<le> j \<longrightarrow> j < nblocks sc \<longrightarrow> b + j * bsize sc \<notin> M) \<and> avail (sw_anchor w') = avail (sw_anchor w) \<and>
    state (sw_anchor w') = (if \<exists>x \<in> M. b + k * bsize sc \<le> x \<and> x < b + SBSIZE then SB_PARTIAL else state (sw_anchor w))"
  using assms(7-12)
proof (induction ms arbitrary: k w xs)
  case Nil
  have sc: "sc_ok sc" using d by (simp add: small_desc_def)
  have none: "x \<notin> M" if "b + k * bsize sc \<le> x" for x using Nil.prems(3) that by auto
  have "{x \<in> M. b + SBSIZE \<le> x} = {}"
    using none block_user_addr(1) [OF b(2) sc Nil.prems(4)] by (metis (mono_tags, lifting) empty_Collect_eq order_trans)
  moreover have "b + j * bsize sc \<notin> M" if "k \<le> j" for j using that by (intro none) (simp add: mult_le_mono1)
  ultimately show ?case using Nil.prems none by (intro exI [of _ "[]"] exI [of _ w] exI [of _ xs] exI [of _ k]) auto
next
  case (Cons a ms)
  have sc: "sc_ok sc" "sc \<noteq> 0" "8 \<le> bsize sc" using d bsize_props(1) [of sc] by (simp_all add: small_desc_def sc_ok_def)
  have dd: "heap (desc_of s i) = Some sc" "CrossPtr_cast (sb_start s) (superblock (desc_of s i)) = b"
    "desc_block_size (desc_of s i) = bsize sc" using d b(1) by (simp_all add: small_desc_def)
  have a: "a \<in> M" "b + k * bsize sc \<le> a" "\<And>x. x \<in> M \<Longrightarrow> b + k * bsize sc \<le> x \<Longrightarrow> a \<le> x"
  proof -
    have "a \<in> set (a # ms)" by simp
    then show "a \<in> M" "b + k * bsize sc \<le> a" unfolding Cons.prems(3) by simp_all
    fix x assume "x \<in> M" "b + k * bsize sc \<le> x"
    then have "x \<in> set (a # ms)" unfolding Cons.prems(3) by simp
    then show "a \<le> x" using Cons.prems(1) by auto
  qed
  have ab: "b \<le> a" using a(2) by simp
  show ?case
  proof (cases "a < b + SBSIZE")
    case False
    have "sweep_marks s b (desc_of s i) (a # ms) w = Inr (a # ms, w)"
      using dd idx sc(2) False by simp
    moreover have "{x \<in> M. b + k * bsize sc \<le> x} = {x \<in> M. b + SBSIZE \<le> x}"
      using a(3) False block_user_addr(1) [OF b(2) sc(1) Cons.prems(4)] by fastforce
    moreover have "b + j * bsize sc \<notin> M" if "k \<le> j" "j < nblocks sc" for j
    proof
      assume "b + j * bsize sc \<in> M"
      moreover have "b + k * bsize sc \<le> b + j * bsize sc" using that(1) by (simp add: mult_le_mono1)
      ultimately have "a \<le> b + j * bsize sc" by (rule a(3))
      then show False using False block_bounds [OF sc(1) that(2)] sc(3) by linarith
    qed
    moreover have "\<not> (\<exists>x \<in> M. b + k * bsize sc \<le> x \<and> x < b + SBSIZE)" using a(3) False by fastforce
    ultimately show ?thesis using Cons.prems by (intro exI [of _ "a # ms"] exI [of _ w] exI [of _ xs] exI [of _ k]) auto
  next
    case True
    obtain l where l: "a = b + l * bsize sc" "l < nblocks sc"
      using M [OF a(1) ab True] b(1) by (auto simp: blocks_def)
    have kl: "k \<le> l" using a(2) l(1) sc(3) by simp
    let ?w1 = "w\<lparr>sw_anchor := set_state SB_PARTIAL (sw_anchor w)\<rparr>"
    have "\<exists>w' xs'. link_free (bsize sc) (b + l * bsize sc) (b + k * bsize sc) ?w1 = Inr w' \<and> sw_ok b (bsize sc) l M m0 w' xs' \<and>
        state (sw_anchor w') = state (sw_anchor ?w1) \<and> sw_last w' = sw_last ?w1 \<and> avail (sw_anchor w') = avail (sw_anchor ?w1)"
    proof (rule link_free_ok [OF _ sc(3) kl])
      show "sw_ok b (bsize sc) k M m0 ?w1 xs" using Cons.prems(5) by (simp add: sw_ok_set_state)
      show "user_addr (b + l * bsize sc)" using block_user_addr(2) [OF b(2) sc(1)] l(2) by simp
      show "l < 2 ^ 31 - 1" using l(2) nblocks_props(3) [of sc] sc(1) by (simp add: sc_ok_def)
      fix j assume j: "k \<le> j" "j < l"
      show "b + j * bsize sc \<notin> M"
      proof
        assume "b + j * bsize sc \<in> M"
        moreover have "b + k * bsize sc \<le> b + j * bsize sc" using j(1) by (simp add: mult_le_mono1)
        ultimately have "a \<le> b + j * bsize sc" by (rule a(3))
        then show False using l(1) block_apart [OF sc(3) j(2), of b] by linarith
      qed
    qed (rule b(3))
    then obtain w2 xs2 where w2: "link_free (bsize sc) a (b + k * bsize sc) ?w1 = Inr w2" "sw_ok b (bsize sc) l M m0 w2 xs2"
      "state (sw_anchor w2) = SB_PARTIAL" "avail (sw_anchor w2) = avail (sw_anchor w)"
      unfolding l(1) [symmetric] by (auto simp: set_state_def)
    let ?w3 = "w2\<lparr>sw_last := a + bsize sc\<rparr>"
    have e: "{b + j * bsize sc |j. j < Suc l \<and> b + j * bsize sc \<notin> M} = {b + j * bsize sc |j. j < l \<and> b + j * bsize sc \<notin> M}"
      using a(1) l(1) by (auto simp: less_Suc_eq)
    have ok3: "sw_ok b (bsize sc) (Suc l) M m0 ?w3 xs2"
      using w2(2) unfolding sw_ok_def e by simp
    have nxt: "a + bsize sc = b + Suc l * bsize sc" using l(1) by simp
    have ms3: "set ms = {x \<in> M. b + Suc l * bsize sc \<le> x}"
    proof -
      have "set ms = set (a # ms) - {a}" using Cons.prems(2) by auto
      also have "\<dots> = {x \<in> M. b + Suc l * bsize sc \<le> x}"
        unfolding Cons.prems(3)
      proof (intro set_eqI iffI)
        fix x assume "x \<in> {x \<in> M. b + k * bsize sc \<le> x} - {a}"
        then have x: "x \<in> M" "a < x" using a(3) [of x] by auto
        show "x \<in> {x \<in> M. b + Suc l * bsize sc \<le> x}"
        proof (cases "x < b + SBSIZE")
          case True
          then have "x \<in> blocks s sc i" "a \<in> blocks s sc i" using M x ab a(1) \<open>a < b + SBSIZE\<close> by auto
          then show ?thesis using small_stride [of x s sc i a] x nxt by simp
        next
          case False
          then show ?thesis using x block_bounds [OF sc(1) l(2)] l(1) by simp
        qed
      next
        fix x assume x: "x \<in> {x \<in> M. b + Suc l * bsize sc \<le> x}"
        then have "a < x" using nxt sc(3) by simp
        then show "x \<in> {x \<in> M. b + k * bsize sc \<le> x} - {a}" using x a(2) by auto
      qed
      finally show ?thesis .
    qed
    have "sorted ms" "distinct ms" using Cons.prems(1,2) by simp_all
    from Cons.IH [OF this ms3 _ ok3] l(2) nxt obtain ms' w' xs' k' where
      r: "sweep_marks s b (desc_of s i) ms ?w3 = Inr (ms', w')" "sw_ok b (bsize sc) k' M m0 w' xs'"
      "sw_last w' = b + k' * bsize sc" "k' \<le> nblocks sc" "sorted ms'" "distinct ms'" "set ms' = {x \<in> M. b + SBSIZE \<le> x}"
      "\<forall>j. k' \<le> j \<longrightarrow> j < nblocks sc \<longrightarrow> b + j * bsize sc \<notin> M" "avail (sw_anchor w') = avail (sw_anchor ?w3)"
      "state (sw_anchor w') = (if \<exists>x \<in> M. b + Suc l * bsize sc \<le> x \<and> x < b + SBSIZE then SB_PARTIAL else state (sw_anchor ?w3))"
      by auto
    have "sweep_marks s b (desc_of s i) (a # ms) w = Inr (ms', w')"
      using dd idx sc(2) ab True w2(1) r(1) Cons.prems(6) by simp
    moreover have "\<exists>x \<in> M. b + k * bsize sc \<le> x \<and> x < b + SBSIZE" using a True by blast
    ultimately show ?thesis using r w2(3,4) by (intro exI [of _ ms'] exI [of _ w'] exI [of _ xs'] exI [of _ k']) auto
  qed
qed

section \<open>Every superblock gets its place\<close>

text \<open>
  The list of free superblocks is in a local variable until the end. All superblocks that the sweep has
  not reached are held, so the invariant says nothing about them.
\<close>

definition with_avail :: "addr \<Rightarrow> ralloc \<Rightarrow> ralloc" where
  "with_avail av s = s\<lparr>avail_sb := acp_store (desc_start s) (ptr_cnt_set av 0)\<rparr>"

lemma with_avail_simps [simp]:
  "sb_region (with_avail av s) = sb_region s" "sb_start (with_avail av s) = sb_start s" "desc_start (with_avail av s) = desc_start s"
  "mem (with_avail av s) = mem s" "descs (with_avail av s) = descs s" "heaps (with_avail av s) = heaps s"
  "roots (with_avail av s) = roots s" "t_cache (with_avail av s) = t_cache s" "dsc (with_avail av s) = dsc s"
  "sbk (with_avail av s) = sbk s" "blocks (with_avail av s) = blocks s" "desc_of (with_avail av s) = desc_of s"
  "sb_range (with_avail av s) = sb_range s"
  by (simp_all add: with_avail_def sb_range_def desc_of_def dsc_def fun_eq_iff)

lemma held_blocks_none:
  assumes inv: "heap_inv s g" and i: "used g i" "kind g i = Held" and b: "b \<in> sb_range s i"
  shows "own g b = NoBlock"
  by (rule own_none [OF heap_invD(6,4) [OF inv] b]) (use i in simp)

lemma sweep_free_ok:
  assumes inv: "heap_inv (with_avail av s) g" and i: "used g i" "kind g i = Held" and av: "acp_ptr (desc_start s) av"
  shows "heap_inv (with_avail (dsc s i) (s\<lparr>descs := next_free_store (dsc s i) av ((descs s)(dsc s i := Descriptor_new))\<rparr>)) (to_free i 1 g)"
proof -
  let ?D = "next_free_store (dsc s i) av ((descs s)(dsc s i := Descriptor_new))"
  let ?s' = "with_avail (dsc s i) (s\<lparr>descs := ?D\<rparr>)" and ?g' = "to_free i 1 g"
  note iv = heap_invD [OF inv] and gm = heap_invD(1) [OF inv]
  have i1: "1 \<le> i" "i < nsb g" using i(1) by (simp_all add: used_def)
  have bounds: "acp_ptr (desc_start s) (dsc s i)" "desc_addr_ok (dsc s i)"
    using geom_bounds(5,6) [OF gm] i1 by simp_all
  have ld: "pc_ptr (acp_load (desc_start s) (acp_store (desc_start s) (ptr_cnt_set (dsc s i) 0))) = dsc s i"
    "pc_ptr (acp_load (desc_start s) (acp_store (desc_start s) (ptr_cnt_set av 0))) = av"
    by (rule acp_load_store_set [OF bounds(1)], rule acp_load_store_set [OF av])
  have D: "?D x = descs s x" if "x \<noteq> dsc s i" for x using that by (simp add: next_free_store_def)
  have des: "desc_of ?s' j = desc_of s j" if "j \<noteq> i" for j using D [of "dsc s j"] that by (simp add: desc_of_def)
  have f: "frame {i} (with_avail av s) g ?s' ?g'"
    using des by (auto simp: frame_def to_free_def used_def)
  have fr: "chain (free_link (descs s)) av (map (dsc s) (free g)) 0" "distinct (free g)"
    "set (free g) = {j. used g j \<and> kind g j = Free}"
    using iv(2) ld(2) by (simp_all add: free_ok_def with_avail_def)
  have ni: "i \<notin> set (free g)" unfolding fr(3) using i(2) by simp
  have uav: "user_addr av" using av by (auto simp: acp_ptr_def user_addr_def)
  have "free_link ?D (dsc s i) = av"
    using bounds(2) uav checked_load_store [of av "dsc s i"]
    by (simp add: free_link_def next_free_store_def desc_addr_ok_def user_addr_def)
  moreover have "chain (free_link ?D) av (map (dsc s) (free g)) 0 \<longleftrightarrow> chain (free_link (descs s)) av (map (dsc s) (free g)) 0"
  proof (rule chain_map_cong)
    fix j assume "j \<in> set (free g)"
    then have "j \<noteq> i" using ni by blast
    then show "free_link ?D (dsc s j) = free_link (descs s) (dsc s j)"
      using D [of "dsc s j"] by (simp add: free_link_def)
  qed
  ultimately have ch: "chain (free_link ?D) (dsc s i) (map (dsc s) (i # free g)) 0" using fr(1) by simp
  show ?thesis
  proof (rule heap_inv_raw_step [OF inv f])
    show "geom ?s' (nsb ?g')" using gm by (simp add: geom_def to_free_def)
    have "set (i # free g) = {j. used ?g' j \<and> kind ?g' j = Free}"
      unfolding list.set fr(3) using i by (auto simp: to_free_def used_def)
    then show "free_ok ?s' ?g'"
      using ch ni fr(2) ld(1) by (simp add: free_ok_def with_avail_def) (simp add: to_free_def)
  qed (use i in \<open>auto simp: to_free_def desc_of_def next_free_store_def Descriptor_new_def dsc_def\<close>)
qed

definition small_ghost :: "ralloc \<Rightarrow> nat \<Rightarrow> nat \<Rightarrow> addr set \<Rightarrow> addr list \<Rightarrow> nat list \<Rightarrow> ghost \<Rightarrow> ghost" where
  "small_ghost s sc i M xs ps g = g\<lparr>kind := (kind g)(i := Small sc), fl := (fl g)(i := xs), part := (part g)(sc := ps),
    own := (\<lambda>b. if b \<in> blocks s sc i then (if b \<in> M then User else InSb) else own g b)\<rparr>"

lemma small_form:
  assumes inv: "heap_inv s g" and i: "used g i" "kind g i = Held" and sc: "sc_ok sc"
    and same: "sb_start s' = sb_start s" "desc_start s' = desc_start s" "sb_region s' = sb_region s"
      "avail_sb s' = avail_sb s" "t_cache s' = t_cache s" "\<And>h. sc_idx (heaps s' h) = sc_idx (heaps s h)"
    and dj: "\<And>j. j \<noteq> i \<Longrightarrow> desc_of s' j = desc_of s j"
    and xs: "distinct xs" "set xs = {b \<in> blocks s sc i. b \<notin> M}"
    and at: "small_at (mem s') (sb_start s) (sbk s i) sc (desc_of s' i) xs"
    and m: "\<And>x. (\<And>y. y \<in> set xs \<Longrightarrow> x < y \<or> y + 8 \<le> x) \<Longrightarrow> mem s' x = mem s x"
    and pl: "\<And>h. h \<noteq> sc \<Longrightarrow> partial_list (heaps s' h) = partial_list (heaps s h)"
    and part: "state (anchor (desc_of s' i)) = SB_FULL \<and> partial_list (heaps s' sc) = partial_list (heaps s sc) \<and> ps = part g sc \<or>
      state (anchor (desc_of s' i)) \<noteq> SB_FULL \<and> pc_ptr (acp_load (desc_start s) (partial_list (heaps s' sc))) = dsc s i \<and>
        partial_link (descs s') (dsc s i) = pc_ptr (acp_load (desc_start s) (partial_list (heaps s sc))) \<and> ps = i # part g sc"
  shows "heap_inv s' (small_ghost s sc i M xs ps g)"
proof -
  let ?g' = "small_ghost s sc i M xs ps g"
  note none = held_blocks_none [OF inv i]
  have ow: "own ?g' b = (if b \<in> blocks s sc i then (if b \<in> M then User else InSb) else own g b)" for b
    by (simp add: small_ghost_def)
  have gs: "kind ?g' j = (if j = i then Small sc else kind g j)" "nsb ?g' = nsb g" "free ?g' = free g" "fl ?g' j = (if j = i then xs else fl g j)"
    "part ?g' sc' = (if sc' = sc then ps else part g sc')" "used ?g' = used g" "cached ?g' = cached g" for j sc'
    by (simp_all add: small_ghost_def used_def fun_eq_iff)
  have addr: "sbk s' = sbk s" "blocks s' = blocks s" "dsc s' = dsc s"
    using same(1,2) by (simp_all add: sbk_def blocks_def dsc_def fun_eq_iff)
  have f: "frame {i} s g s' ?g'"
    unfolding frame_def ow gs
  proof (intro conjI allI impI)
    show "(if b \<in> blocks s sc i then if b \<in> M then User else InSb else own g b) = own g b" if "b \<notin> \<Union> (sb_range s ` {i})" for b
      using that blocks_range [OF _ sc, of b s i] by auto
    show "read_pptr (mem s') b = read_pptr (mem s) b"
      if b: "linked (own g b)" for b
    proof -
      obtain l c where l: "small_blk s g b l c" using own_blk(4) [OF inv b] by blast
      note lf = small_blk_facts [OF inv l]
      have "l \<noteq> i" using l i(2) by (auto simp: small_blk_def)
      then have dj': "x \<notin> sb_range s i" if "x \<in> sb_range s l" for x using that sb_range_unique [of x s l i] by blast
      have "mem s' x = mem s x" if "b \<le> x" "x < b + 8" for x
      proof (rule m)
        fix y assume "y \<in> set xs"
        then have y: "y \<in> blocks s sc i" unfolding xs(2) by simp
        have "x \<in> sb_range s l" using that lf(11,12) by (simp add: sb_range_def)
        then have "x \<notin> sb_range s i" by (rule dj')
        moreover have "{y..<y + 8} \<subseteq> sb_range s i"
        proof -
          obtain k where k: "y = sbk s i + k * bsize sc" "k < nblocks sc" using y by (auto simp: blocks_def)
          have "8 \<le> bsize sc" using bsize_props(1) [of sc] sc by (simp add: sc_ok_def)
          then show ?thesis using k block_bounds [OF sc k(2)] by (auto simp: sb_range_def)
        qed
        ultimately have "x \<notin> {y..<y + 8}" by blast
        then show "x < y \<or> y + 8 \<le> x" by auto
      qed
      then show ?thesis unfolding read_pptr_def by (intro arg_cong [of _ _ "pptr_cast b"] load64_cong) auto
    qed
  qed (use same dj in auto)
  show ?thesis
  proof (rule heap_inv_block_step [OF inv f])
    show "small_sb s' ?g' i sc'" if "kind ?g' i = Small sc'" for sc'
    proof -
      have "set xs = {b \<in> blocks s sc i. own ?g' b = InSb}" unfolding xs(2) ow by auto
      moreover have "sc' = sc" using that by (simp add: gs)
      ultimately show ?thesis using xs(1) at sc unfolding small_sb_def gs addr same by simp
    qed
    show "own ?g' b = InSb \<or> (\<exists>t. own ?g' b = InCache t sc') \<or> own ?g' b = User"
      if "kind ?g' i = Small sc'" "b \<in> blocks s sc' i" for sc' b
      using that unfolding ow gs by auto
    show "own ?g' b = NoBlock" if "b \<in> sb_range s i" "\<And>sc. kind ?g' i = Small sc \<Longrightarrow> b \<notin> blocks s sc i" for b
      using that(2) [of sc] none [OF that(1)] unfolding ow gs by simp
    show "part_list_ok s' ?g' sc' \<or> partial_list (heaps s' sc') = partial_list (heaps s sc') \<and>
        part ?g' sc' = part g sc' \<and> nonfull s' ?g' sc' i = nonfull s g sc' i \<and>
        (nonfull s g sc' i \<longrightarrow> next_partial (desc_of s' i) = next_partial (desc_of s i))" for sc'
    proof (cases "sc' = sc")
      case False
      then show ?thesis using i pl [of sc'] by (simp add: nonfull_def gs)
    next
      case True
      have nf: "\<not> nonfull s g sc i" using i by (simp add: nonfull_def)
      show ?thesis using part
      proof (elim disjE conjE)
        assume "state (anchor (desc_of s' i)) = SB_FULL" "partial_list (heaps s' sc) = partial_list (heaps s sc)" "ps = part g sc"
        then show ?thesis using i unfolding True gs by (simp add: nonfull_def)
      next
        assume n: "state (anchor (desc_of s' i)) \<noteq> SB_FULL" "pc_ptr (acp_load (desc_start s) (partial_list (heaps s' sc))) = dsc s i"
          "partial_link (descs s') (dsc s i) = pc_ptr (acp_load (desc_start s) (partial_list (heaps s sc)))" "ps = i # part g sc"
        have nf': "nonfull s' ?g' sc i" using i(1) n(1) by (simp add: nonfull_def gs)
        have "part_list_ok s' ?g' sc"
          by (rule part_push [OF partD [OF inv sc] f nf nf' n(2,3)]) (unfold gs, simp add: n(4))
        then show ?thesis using True by simp
      qed
    qed
    show "cache_at s' ?g' t' sc' \<or> t_cache s' t' sc' = t_cache s t' sc' \<and> cached ?g' t' sc' = cached g t' sc' \<and>
        (\<forall>b. own ?g' b = InCache t' sc' \<longleftrightarrow> own g b = InCache t' sc')" for t' sc'
    proof -
      have "own g b = NoBlock" if "b \<in> blocks s sc i" for b using none blocks_range [OF that sc] by blast
      then show ?thesis unfolding ow gs same by auto
    qed
  qed (use i same in \<open>auto simp: gs small_or_held_def\<close>)
qed

section \<open>What survives a crash\<close>

text \<open>
  The persistent fields of the descriptor of superblock \<open>i\<close>, for what the superblock was used as: a free
  superblock or the inside of a large block has no heap.
\<close>

definition sb_persisted :: "ralloc \<Rightarrow> nat \<Rightarrow> (nat \<Rightarrow> sbkind) \<Rightarrow> nat \<Rightarrow> bool" where
  "sb_persisted s n K i \<longleftrightarrow> (case K i of
      Free \<Rightarrow> heap (desc_of s i) = None
    | Tail \<Rightarrow> heap (desc_of s i) = None
    | Small sc \<Rightarrow> small_desc s i sc
    | Large m \<Rightarrow> 0 < m \<and> m * SBSIZE < 2 ^ 32 \<and> i + m \<le> n \<and> large_at (sb_start s) (sbk s i) m (desc_of s i) \<and>
        maxcount (desc_of s i) = 1 \<and> (\<forall>j. i < j \<and> j < i + m \<longrightarrow> K j = Tail)
    | Held \<Rightarrow> False)"

text \<open>A marked address is the start of a block.\<close>

definition mark_at :: "ralloc \<Rightarrow> (nat \<Rightarrow> sbkind) \<Rightarrow> addr \<Rightarrow> nat \<Rightarrow> bool" where
  "mark_at s K b i \<longleftrightarrow> (\<exists>sc. K i = Small sc \<and> b \<in> blocks s sc i) \<or> (\<exists>m. K i = Large m \<and> b = sbk s i)"

definition marks_ok :: "ralloc \<Rightarrow> nat \<Rightarrow> (nat \<Rightarrow> sbkind) \<Rightarrow> addr set \<Rightarrow> bool" where
  "marks_ok s n K M \<longleftrightarrow> (\<forall>b \<in> M. \<exists>i. 1 \<le> i \<and> i < n \<and> mark_at s K b i)"

definition crash_ok :: "ralloc \<Rightarrow> nat \<Rightarrow> (nat \<Rightarrow> sbkind) \<Rightarrow> addr set \<Rightarrow> bool" where
  "crash_ok s n K M \<longleftrightarrow> geom s n \<and> 1 \<le> n \<and> (\<forall>i. 1 \<le> i \<and> i < n \<longrightarrow> sb_persisted s n K i) \<and> marks_ok s n K M \<and>
    (\<forall>sc. sc < MAX_SZ_IDX \<longrightarrow> sc_idx (heaps s sc) = sc) \<and> (\<forall>t sc. tc_num (t_cache s t sc) = 0) \<and>
    (\<forall>i. n \<le> i \<longrightarrow> heap (desc_of s i) = None)"

lemma mark_range:
  assumes c: "crash_ok s n K M" and i: "1 \<le> i" "i < n" and b: "mark_at s K b i"
  shows "b \<in> sb_range s i"
proof -
  have p: "sb_persisted s n K i" using c i by (simp add: crash_ok_def)
  show ?thesis using b unfolding mark_at_def
  proof (elim disjE exE conjE)
    fix sc assume k: "K i = Small sc" "b \<in> blocks s sc i"
    then have "sc_ok sc" using p by (simp add: sb_persisted_def small_desc_def)
    then show ?thesis using blocks_range [OF k(2)] by simp
  qed simp
qed

lemma mark_sb:
  assumes c: "crash_ok s n K M" and b: "b \<in> M"
  shows "\<exists>i. 1 \<le> i \<and> i < n \<and> mark_at s K b i \<and> b \<in> sb_range s i"
proof -
  obtain i where "1 \<le> i" "i < n" "mark_at s K b i" using c b by (auto simp: crash_ok_def marks_ok_def)
  then show ?thesis using mark_range [OF c] by blast
qed

lemma sbk_le_mono: "i \<le> j \<Longrightarrow> sbk s i \<le> sbk s j"
  by (simp add: sbk_def)

lemma range_after:
  assumes "x \<in> sb_range s l" and "sbk s i \<le> x"
  shows "i \<le> l"
proof (rule ccontr)
  assume "\<not> i \<le> l"
  then have "sbk s (l + 1) \<le> sbk s i" by (intro sbk_le_mono) simp
  then show False using assms by (simp add: sb_range_def sbk_def)
qed

text \<open>Where the next mark is, once those of superblock \<open>i\<close> are passed.\<close>

lemma next_mark:
  assumes c: "crash_ok s n K M" and x: "x \<in> M" "sbk s i \<le> x" and no: "\<not> mark_at s K x i"
    and t: "\<And>j. i < j \<Longrightarrow> j < i + m \<Longrightarrow> K j = Tail" and "0 < m"
  shows "sbk s (i + m) \<le> x"
proof -
  obtain l where l: "mark_at s K x l" "x \<in> sb_range s l" using mark_sb [OF c x(1)] by blast
  have "i \<le> l" by (rule range_after [OF l(2) x(2)])
  moreover have "l \<noteq> i" using l(1) no by blast
  moreover have "\<not> (i < l \<and> l < i + m)" using t [of l] l(1) by (auto simp: mark_at_def)
  ultimately have "i + m \<le> l" by linarith
  then show ?thesis using sbk_le_mono [of "i + m" l s] l(2) by (simp add: sb_range_def)
qed

lemma sweep_marks_stop:
  assumes "ms = [] \<or> heap d = None \<or> (\<exists>h. heap d = Some h \<and> sc_idx (heaps s h) = 0 \<and> sb + desc_block_size d \<le> hd ms) \<or>
    (\<exists>h. heap d = Some h \<and> sc_idx (heaps s h) \<noteq> 0 \<and> sb + SBSIZE \<le> hd ms)"
  shows "sweep_marks s sb d ms w = Inr (ms, w)"
  using assms by (cases ms) auto

section \<open>The loop over the superblocks\<close>

text \<open>
  The sweep stands before superblock \<open>i\<close>, with the free superblocks so far from \<open>av\<close> on.
\<close>

definition gc_inv :: "ralloc \<Rightarrow> nat \<Rightarrow> addr set \<Rightarrow> nat \<Rightarrow> addr \<Rightarrow> ralloc \<Rightarrow> ghost \<Rightarrow> bool" where
  "gc_inv s0 n M i av s g \<longleftrightarrow> heap_inv (with_avail av s) g \<and> nsb g = n \<and> acp_ptr (desc_start s) av \<and>
    (\<forall>j. i \<le> j \<and> j < n \<longrightarrow> kind g j = Held \<and> desc_of s j = desc_of s0 j) \<and> (\<forall>j. 1 \<le> j \<and> j < i \<longrightarrow> kind g j \<noteq> Held) \<and>
    users g = {b \<in> M. b < sbk s0 i} \<and>
    (\<forall>b \<in> M. msize s b = msize s0 b \<and> (\<forall>x \<in> extent s0 b. mem s x = mem s0 x)) \<and>
    sb_start s = sb_start s0 \<and> desc_start s = desc_start s0 \<and> sb_region s = sb_region s0 \<and> roots s = roots s0 \<and>
    (\<forall>h. sc_idx (heaps s h) = sc_idx (heaps s0 h)) \<and> (\<forall>t sc. cached g t sc = [])"

lemma gc_invD:
  assumes "gc_inv s0 n M i av s g"
  shows "heap_inv (with_avail av s) g" "nsb g = n" "acp_ptr (desc_start s) av"
    "\<And>j. i \<le> j \<Longrightarrow> j < n \<Longrightarrow> kind g j = Held" "\<And>j. i \<le> j \<Longrightarrow> j < n \<Longrightarrow> desc_of s j = desc_of s0 j"
    "\<And>j. 1 \<le> j \<Longrightarrow> j < i \<Longrightarrow> kind g j \<noteq> Held" "users g = {b \<in> M. b < sbk s0 i}"
    "\<And>b. b \<in> M \<Longrightarrow> msize s b = msize s0 b" "\<And>b x. b \<in> M \<Longrightarrow> x \<in> extent s0 b \<Longrightarrow> mem s x = mem s0 x"
    "sb_start s = sb_start s0" "desc_start s = desc_start s0" "sb_region s = sb_region s0" "roots s = roots s0"
    "\<And>h. sc_idx (heaps s h) = sc_idx (heaps s0 h)" "\<And>t sc. cached g t sc = []"
    "sbk s = sbk s0" "dsc s = dsc s0" "blocks s = blocks s0"
proof -
  show st: "sb_start s = sb_start s0" "desc_start s = desc_start s0" using assms unfolding gc_inv_def by blast+
  show "sbk s = sbk s0" "dsc s = dsc s0" "blocks s = blocks s0"
    using st by (simp_all add: sbk_def dsc_def blocks_def fun_eq_iff)
qed (use assms in \<open>unfold gc_inv_def, blast+\<close>)

lemma desc_lookup_avail [simp]: "desc_lookup (with_avail av s) = desc_lookup s"
  by (simp add: desc_lookup_def with_avail_def fun_eq_iff)

lemma gc_lookup:
  assumes g: "gc_inv s0 n M i av s g" and "l < n" and "x \<in> sb_range s0 l"
  shows "desc_lookup s x = dsc s0 l" and "msize s x = desc_block_size (desc_of s l)"
proof -
  note d = gc_invD [OF g]
  have "sb_range s = sb_range s0" using d(16) by (simp add: sb_range_def fun_eq_iff)
  then show "desc_lookup s x = dsc s0 l"
    using desc_lookup_in [OF heap_invD(1) [OF d(1)], of l x] assms(2,3) d(2,17) by simp
  then show "msize s x = desc_block_size (desc_of s l)" by (simp add: msize_def desc_of_def d(17))
qed

lemma gc_step_empty:
  assumes c: "crash_ok s0 n K M" and g: "gc_inv s0 n M i av s g" and i: "1 \<le> i" "i < n"
    and none: "\<And>x. x \<in> M \<Longrightarrow> \<not> mark_at s0 K x i" and ms: "set ms = {x \<in> M. sbk s0 i \<le> x}"
  shows "\<exists>s' g'. sweep_sb (sbk s0 i) (dsc s0 i) ms av s = Inr (sbk s0 (i + 1), dsc s0 (i + 1), ms, dsc s0 i, s') \<and>
    gc_inv s0 n M (i + 1) (dsc s0 i) s' g' \<and> set ms = {x \<in> M. sbk s0 (i + 1) \<le> x}"
proof -
  note d = gc_invD [OF g]
  have p: "sb_persisted s0 n K i" using c i by (simp add: crash_ok_def)
  have di: "descs s (dsc s0 i) = desc_of s0 i" using d(5) [of i] i d(17) by (simp add: desc_of_def)
  have hd: "hd ms \<in> M" "sbk s0 i \<le> hd ms" if "ms \<noteq> []" using hd_in_set [OF that] unfolding ms by simp_all
  have nx: "sbk s0 (i + 1) \<le> x" if "x \<in> M" "sbk s0 i \<le> x" for x
    by (rule next_mark [OF c that none [OF that(1)]]) simp_all
  let ?w = "\<lparr>sw_anchor = Anchor_new 0 0 SB_EMPTY, sw_head = 0, sw_last = sbk s0 i, sw_mem = mem s\<rparr>"
  have sm: "sweep_marks s (sbk s0 i) (desc_of s0 i) ms ?w = Inr (ms, ?w)"
  proof (rule sweep_marks_stop)
    show "ms = [] \<or> heap (desc_of s0 i) = None \<or> (\<exists>h. heap (desc_of s0 i) = Some h \<and> sc_idx (heaps s h) = 0 \<and> sbk s0 i + desc_block_size (desc_of s0 i) \<le> hd ms) \<or>
      (\<exists>h. heap (desc_of s0 i) = Some h \<and> sc_idx (heaps s h) \<noteq> 0 \<and> sbk s0 i + SBSIZE \<le> hd ms)"
    proof (cases "ms = []")
      case False
      have idx: "sc_idx (heaps s h) = h" if "h < MAX_SZ_IDX" for h using c that d(14) by (simp add: crash_ok_def)
      show ?thesis
      proof (cases "K i")
        case (Small sc)
        then have "small_desc s0 i sc" using p by (simp add: sb_persisted_def)
        moreover have "sbk s0 i + SBSIZE \<le> hd ms" using nx [OF hd [OF False]] by (simp add: sbk_def)
        ultimately show ?thesis using idx [of sc] by (simp add: small_desc_def sc_ok_def)
      next
        case (Large m)
        then have l: "0 < m" "large_at (sb_start s0) (sbk s0 i) m (desc_of s0 i)" "\<And>j. i < j \<Longrightarrow> j < i + m \<Longrightarrow> K j = Tail"
          using p by (simp_all add: sb_persisted_def)
        have "sbk s0 (i + m) \<le> hd ms" by (rule next_mark [OF c hd [OF False] none [OF hd(1) [OF False]] l(3,1)])
        then show ?thesis using l(2) idx [of 0] by (simp add: large_at_def sbk_def MAX_SZ_IDX_def add_mult_distrib)
      qed (use p in \<open>simp_all add: sb_persisted_def\<close>)
    qed simp
  qed
  let ?s' = "s\<lparr>descs := next_free_store (dsc s i) av ((descs s)(dsc s i := Descriptor_new))\<rparr>"
  have sk: "sbk s0 (i + 1) = sbk s0 i + SBSIZE" "dsc s0 (i + 1) = dsc s0 i + DESCSIZE" by (simp_all add: sbk_def dsc_def)
  have ev: "sweep_sb (sbk s0 i) (dsc s0 i) ms av s = Inr (sbk s0 (i + 1), dsc s0 (i + 1), ms, dsc s0 i, ?s')"
    unfolding sweep_sb_def di sm sk by (simp add: Anchor_new_def construct_desc_def d(17) Let_def)
  have ki: "used g i" "kind g i = Held" using i d(2,4) by (simp_all add: used_def)
  have inv': "heap_inv (with_avail (dsc s0 i) ?s') (to_free i 1 g)"
    using sweep_free_ok [OF d(1) ki d(3)] by (simp add: d(17))
  have dj: "desc_of ?s' j = desc_of s j" if "j \<noteq> i" for j using that by (simp add: desc_of_def next_free_store_def)
  have ms': "{b \<in> M. b < sbk s0 (i + 1)} = {b \<in> M. b < sbk s0 i}"
    using nx sbk_le_mono [of i "i + 1" s0] by (metis (mono_tags, lifting) le_add1 leD linorder_not_le order_less_le_trans)
  have "gc_inv s0 n M (i + 1) (dsc s0 i) ?s' (to_free i 1 g)"
    unfolding gc_inv_def ms'
  proof (intro conjI allI impI ballI)
    show "heap_inv (with_avail (dsc s0 i) ?s') (to_free i 1 g)" by (rule inv')
    show "acp_ptr (desc_start ?s') (dsc s0 i)" using geom_bounds(6) [OF heap_invD(1) [OF d(1)] i(1)] i(2) d(2,17) by simp
    show "kind (to_free i 1 g) j = Held" "desc_of ?s' j = desc_of s0 j" if "i + 1 \<le> j \<and> j < n" for j
      using that d(4,5) [of j] dj [of j] by (simp_all add: to_free_def)
    show "kind (to_free i 1 g) j \<noteq> Held" if "1 \<le> j \<and> j < i + 1" for j
      using that d(6) [of j] by (cases "j = i") (simp_all add: to_free_def)
    show "users (to_free i 1 g) = {b \<in> M. b < sbk s0 i}" using d(7) by (simp add: users_def to_free_def)
    fix b assume b: "b \<in> M"
    obtain l where l: "l < n" "mark_at s0 K b l" "b \<in> sb_range s0 l" using mark_sb [OF c b] by blast
    then have "l \<noteq> i" using none [OF b] by blast
    then show "msize ?s' b = msize s0 b"
      using gc_lookup(1) [OF g l(1,3)] d(8) [OF b] by (simp add: msize_def next_free_store_def d(17))
  qed (use d in \<open>simp_all add: to_free_def\<close>)
  moreover have "{x \<in> M. sbk s0 i \<le> x} = {x \<in> M. sbk s0 (i + 1) \<le> x}"
    using nx sbk_le_mono [of i "i + 1" s0] by fastforce
  ultimately show ?thesis using ev ms by blast
qed

lemma reset_desc_eq:
  "reset_desc d a s = s\<lparr>descs := (descs s)(d := (descs s d)\<lparr>next_free := atomic_pptr_store d 0,
    next_partial := atomic_pptr_store (d + 8) 0, anchor := a\<rparr>)\<rparr>"
  by (simp add: reset_desc_def upd_desc_def next_free_store_def next_partial_store_def)

lemma gc_step_large:
  assumes c: "crash_ok s0 n K M" and g: "gc_inv s0 n M i av s g" and i: "1 \<le> i" "i < n"
    and K: "K i = Large m" and b: "sbk s0 i \<in> M" and ms: "sorted ms" "distinct ms" "set ms = {x \<in> M. sbk s0 i \<le> x}"
  shows "\<exists>ms' s' g' d'. sweep_sb (sbk s0 i) (dsc s0 i) ms av s = Inr (sbk s0 (i + m), d', ms', av, s') \<and>
    (i + m < n \<longrightarrow> d' = dsc s0 (i + m)) \<and> gc_inv s0 n M (i + m) av s' g' \<and>
    sorted ms' \<and> distinct ms' \<and> set ms' = {x \<in> M. sbk s0 (i + m) \<le> x}"
proof -
  note d = gc_invD [OF g]
  have "sb_persisted s0 n K i" using c i by (simp add: crash_ok_def)
  then have l: "0 < m" "m * SBSIZE < 2 ^ 32" "i + m \<le> n" "large_at (sb_start s0) (sbk s0 i) m (desc_of s0 i)"
    "maxcount (desc_of s0 i) = 1" "\<And>j. i < j \<Longrightarrow> j < i + m \<Longrightarrow> K j = Tail" using K by (simp_all add: sb_persisted_def)
  have di: "descs s (dsc s0 i) = desc_of s0 i" using d(5) [of i] i d(17) by (simp add: desc_of_def)
  have sk: "sbk s0 (i + m) = sbk s0 i + m * SBSIZE" by (simp add: sbk_def add_mult_distrib)
  have pos: "0 < m * SBSIZE" using l(1) by (simp add: pm_consts)
  have nx: "sbk s0 (i + m) \<le> x" if "x \<in> M" "sbk s0 i \<le> x" "x \<noteq> sbk s0 i" for x
    by (rule next_mark [OF c that(1,2) _ l(6,1)]) (use that(3) K in \<open>auto simp: mark_at_def\<close>)
  have "sbk s0 i \<in> set ms" unfolding ms(3) using b by simp
  then obtain y ms' where y: "ms = y # ms'" by (cases ms) auto
  have yM: "sbk s0 i \<le> y" using y ms(3) by (metis (mono_tags, lifting) list.set_intros(1) mem_Collect_eq)
  have "y \<le> sbk s0 i" using ms(1) \<open>sbk s0 i \<in> set ms\<close> y by auto
  with yM have "y = sbk s0 i" by simp
  with y have mse: "ms = sbk s0 i # ms'" by simp
  have ms': "set ms' = {x \<in> M. sbk s0 (i + m) \<le> x}"
  proof -
    have "set ms' = set ms - {sbk s0 i}" using mse ms(2) by auto
    also have "\<dots> = {x \<in> M. sbk s0 (i + m) \<le> x}" unfolding ms(3) using nx sk pos by fastforce
    finally show ?thesis .
  qed
  have idx: "sc_idx (heaps s 0) = 0" using c d(14) [of 0] by (simp add: crash_ok_def MAX_SZ_IDX_def)
  let ?w = "\<lparr>sw_anchor = Anchor_new 0 0 SB_EMPTY, sw_head = 0, sw_last = sbk s0 i, sw_mem = mem s\<rparr>"
  let ?w' = "?w\<lparr>sw_anchor := set_state SB_FULL (Anchor_new 0 0 SB_EMPTY)\<rparr>"
  have stop: "sweep_marks s (sbk s0 i) (desc_of s0 i) ms' ?w' = Inr (ms', ?w')"
  proof (rule sweep_marks_stop)
    have "ms' = [] \<or> sbk s0 (i + m) \<le> hd ms'" using hd_in_set [of ms'] ms' by blast
    then show "ms' = [] \<or> heap (desc_of s0 i) = None \<or> (\<exists>h. heap (desc_of s0 i) = Some h \<and> sc_idx (heaps s h) = 0 \<and> sbk s0 i + desc_block_size (desc_of s0 i) \<le> hd ms') \<or>
      (\<exists>h. heap (desc_of s0 i) = Some h \<and> sc_idx (heaps s h) \<noteq> 0 \<and> sbk s0 i + SBSIZE \<le> hd ms')"
      using l(4) idx sk by (simp add: large_at_def)
  qed
  have sm: "sweep_marks s (sbk s0 i) (desc_of s0 i) ms ?w = Inr (ms', ?w')"
    using stop l(4,5) idx pos d(10) by (simp add: mse large_at_def)
  define a where "a = set_state SB_FULL (set_count 0 (set_avail 0 (sw_anchor ?w')))"
  define s' where "s' = reset_desc (dsc s0 i) a s"
  have ev: "sweep_sb (sbk s0 i) (dsc s0 i) ms av s = Inr (sbk s0 (i + m), desc_lookup s' (sbk s0 (i + m)), ms', av, s')"
    unfolding sweep_sb_def di sm using l(4) idx di
    by (simp add: Let_def set_state_def large_at_def sk s'_def a_def)
  define de where "de = (desc_of s0 i)\<lparr>next_free := atomic_pptr_store (dsc s0 i) 0,
    next_partial := atomic_pptr_store (dsc s0 i + 8) 0, anchor := a\<rparr>"
  have s'e: "s' = s\<lparr>descs := (descs s)(dsc s0 i := de)\<rparr>" by (simp add: s'_def reset_desc_eq di de_def)
  have wa: "with_avail av s' = (with_avail av s)\<lparr>descs := (descs (with_avail av s))(dsc (with_avail av s) i := de)\<rparr>"
    by (simp add: s'e with_avail_def d(17))
  let ?g' = "form_ghost (with_avail av s) i m g"
  have inv': "heap_inv (with_avail av s') ?g'"
    unfolding wa
  proof (rule large_form [OF d(1) i(1) l(1) _ l(2)])
    show "maxcount de = 1" using l(5) by (simp add: de_def)
    show "heap (desc_of (with_avail av s) j) = None" if j: "i < j" "j < i + m" for j
    proof -
      have "sb_persisted s0 n K j" using c i(1) l(3) j by (simp add: crash_ok_def)
      then show ?thesis using l(6) [OF j] d(5) [of j] j l(3) by (simp add: sb_persisted_def)
    qed
    show "large_at (sb_start (with_avail av s)) (sbk (with_avail av s) i) m de"
      using l(4) by (simp add: de_def large_at_def d(10,16))
    show "kind g j = Held" if "i \<le> j" "j < i + m" for j using that l(3) by (intro d(4)) simp_all
  qed (use l(3) d(2) in simp)
  have gs: "kind ?g' j = (if j = i then Large m else if i < j \<and> j < i + m then Tail else kind g j)" "nsb ?g' = n"
    "own ?g' x = (if x = sbk s0 i then User else own g x)" "cached ?g' = cached g" for j x
    using d(2,16) by (simp_all add: form_ghost_def set_own_def)
  have dj: "desc_of s' j = (if j = i then de else desc_of s j)" for j
    by (simp add: s'e desc_of_def dsc_def d(11) pm_consts)
  have us: "users ?g' = {x \<in> M. x < sbk s0 (i + m)}"
  proof -
    have "users ?g' = insert (sbk s0 i) (users g)" by (auto simp: users_def gs)
    also have "\<dots> = {x \<in> M. x < sbk s0 (i + m)}" unfolding d(7)
    proof (intro set_eqI iffI)
      fix x assume "x \<in> insert (sbk s0 i) {b \<in> M. b < sbk s0 i}"
      then show "x \<in> {x \<in> M. x < sbk s0 (i + m)}" using b pos sk by auto
    next
      fix x assume "x \<in> {x \<in> M. x < sbk s0 (i + m)}"
      then show "x \<in> insert (sbk s0 i) {b \<in> M. b < sbk s0 i}" using nx [of x] by fastforce
    qed
    finally show ?thesis .
  qed
  have ms0: "msize s' x = msize s x" for x
    by (simp add: msize_def s'e de_def di)
  have g': "gc_inv s0 n M (i + m) av s' ?g'"
    unfolding gc_inv_def
  proof (intro conjI allI impI ballI)
    show "heap_inv (with_avail av s') ?g'" by (rule inv')
    show "users ?g' = {x \<in> M. x < sbk s0 (i + m)}" by (rule us)
    show "kind ?g' j = Held" "desc_of s' j = desc_of s0 j" if "i + m \<le> j \<and> j < n" for j
      using that d(4,5) [of j] l(1) by (simp_all add: gs dj)
    show "kind ?g' j \<noteq> Held" if "1 \<le> j \<and> j < i + m" for j
      using that d(6) [of j] by (auto simp: gs)
    show "msize s' x = msize s0 x" if "x \<in> M" for x using d(8) [OF that] by (simp add: ms0)
  qed (use d gs in \<open>simp_all add: s'e\<close>)
  moreover have "desc_lookup s' (sbk s0 (i + m)) = dsc s0 (i + m)" if "i + m < n"
    using gc_lookup(1) [OF g' that] by simp
  ultimately show ?thesis using ev ms' ms(1,2) mse by (intro exI [of _ ms'] exI [of _ s'] exI [of _ ?g'] exI [of _ "desc_lookup s' (sbk s0 (i + m))"]) simp
qed

lemma sw_ok_init: "sw_ok b z 0 M (mem s) \<lparr>sw_anchor = Anchor_new 0 0 SB_EMPTY, sw_head = 0, sw_last = b, sw_mem = mem s\<rparr> []"
  by (simp add: sw_ok_def Anchor_new_def)

text \<open>The rest of the superblock: its free list, its anchor, and its place on the list of its size class.\<close>

lemma sweep_small_ok:
  assumes inv: "heap_inv (with_avail av s) g" and i: "used g i" "kind g i = Held" and d: "small_desc s i sc"
    and mk: "\<exists>x \<in> blocks s sc i. x \<in> M"
    and w: "sw_ok (sbk s i) (bsize sc) k M m0 w xs" "sw_last w = sbk s i + k * bsize sc" "k \<le> nblocks sc"
      "\<And>j. k \<le> j \<Longrightarrow> j < nblocks sc \<Longrightarrow> sbk s i + j * bsize sc \<notin> M"
    and s1: "s1 = s\<lparr>mem := sw_mem w\<rparr>" and m0: "m0 = mem s"
  shows "\<exists>s' xs' ps. sweep_small (sbk s i) (dsc s i) w s1 = Inr s' \<and>
    heap_inv (with_avail av s') (small_ghost s sc i M xs' ps g) \<and> set xs' = {b \<in> blocks s sc i. b \<notin> M} \<and>
    (\<forall>x. (\<forall>y \<in> set xs'. x < y \<or> y + 8 \<le> x) \<longrightarrow> mem s' x = mem s x) \<and>
    (\<forall>j. j \<noteq> i \<longrightarrow> desc_of s' j = desc_of s j) \<and> desc_block_size (desc_of s' i) = bsize sc \<and>
    sb_start s' = sb_start s \<and> desc_start s' = desc_start s \<and> sb_region s' = sb_region s \<and> roots s' = roots s \<and>
    (\<forall>h. sc_idx (heaps s' h) = sc_idx (heaps s h))"
proof -
  let ?b = "sbk s i" and ?z = "bsize sc"
  note gm = heap_invD(1) [OF inv]
  have i1: "1 \<le> i" "i < nsb g" using i(1) by (simp_all add: used_def)
  have sc: "sc_ok sc" "8 \<le> ?z" using d bsize_props(1) [of sc] by (simp_all add: small_desc_def sc_ok_def)
  have dd: "heap (desc_of s i) = Some sc" "desc_block_size (desc_of s i) = ?z" "maxcount (desc_of s i) = nblocks sc"
    "CrossPtr_cast (sb_start s) (superblock (desc_of s i)) = ?b" using d by (simp_all add: small_desc_def)
  have u: "user_addr (?b + SBSIZE)" "0 < ?b" using geom_bounds(4,8) [OF gm, of i] i1 by simp_all
  have n: "nblocks sc < 2 ^ 31 - 1" "nblocks sc * ?z \<le> SBSIZE" using nblocks_props(2,3) [of sc] sc(1) by (simp_all add: sc_ok_def)
  obtain w2 xs2 where w2: "link_free ?z (?b + nblocks sc * ?z) (?b + k * ?z) w = Inr w2"
    "sw_ok ?b ?z (nblocks sc) M m0 w2 xs2"
    using link_free_ok [OF w(1) sc(2) w(3) block_user_addr(2) [OF u(1) sc(1) order_refl] u(2) n(1) w(4)] by blast
  have xs2: "set xs2 = {b \<in> blocks s sc i. b \<notin> M}" "distinct xs2" "count (sw_anchor w2) = length xs2"
    using w2(2) by (auto simp: sw_ok_def blocks_def)
  have len: "length xs2 < nblocks sc"
  proof -
    have "set xs2 \<subset> blocks s sc i" unfolding xs2(1) using mk by blast
    moreover have "finite (blocks s sc i)" by (simp add: blocks_def)
    ultimately have "card (set xs2) < card (blocks s sc i)" by (intro psubset_card_mono)
    moreover have "card (blocks s sc i) = nblocks sc" using block_list_props [OF sc(1), of s i] distinct_card by metis
    ultimately show ?thesis using distinct_card [OF xs2(2)] by simp
  qed
  have frame: "sw_mem w2 x = mem s x" if "\<And>y. y \<in> set xs2 \<Longrightarrow> x < y \<or> y + 8 \<le> x" for x
    using w2(2) that m0 by (simp add: sw_ok_def)
  let ?s2 = "s1\<lparr>mem := sw_mem w2\<rparr>"
  have md: "nblocks sc * ?z mod 4294967296 = nblocks sc * ?z" using n(2) by (simp add: pm_consts)
  have di: "descs s1 (dsc s i) = desc_of s i" by (simp add: s1 desc_of_def)
  have ev: "sweep_small ?b (dsc s i) w s1 = (let a = sw_anchor w2
     in if count a = 0 then Inr (reset_desc (dsc s i) (set_state SB_FULL (set_avail (nblocks sc) a)) ?s2)
        else check (sw_head w2 \<noteq> 0)
          (let a1 = set_state SB_PARTIAL (set_avail ((sw_head w2 - ?b) div ?z) a);
               s2 = ?s2\<lparr>descs := next_free_store (dsc s i) 0 (descs ?s2)\<rparr>
           in and_then (heap_push_partial (dsc s i) s2) (\<lambda>s3. Inr (upd_desc (dsc s i) (\<lambda>de. de\<lparr>anchor := a1\<rparr>) s3))))"
    using w2(1) by (simp add: sweep_small_def di dd w(2) md Let_def)
  show ?thesis
  proof (cases "xs2 = []")
    case True
    let ?a = "set_state SB_FULL (set_avail (nblocks sc) (sw_anchor w2))"
    define s' where "s' = reset_desc (dsc s i) ?a ?s2"
    have e: "sweep_small ?b (dsc s i) w s1 = Inr s'" using ev xs2(3) True by (simp add: s'_def Let_def)
    have ds: "desc_of s' j = (if j = i then (desc_of s i)\<lparr>next_free := atomic_pptr_store (dsc s i) 0,
        next_partial := atomic_pptr_store (dsc s i + 8) 0, anchor := ?a\<rparr> else desc_of s j)" for j
      by (simp add: s'_def reset_desc_eq s1 desc_of_def dsc_def pm_consts)
    have bs: "sb_start s' = sb_start s" "desc_start s' = desc_start s" "sb_region s' = sb_region s" "avail_sb s' = avail_sb s"
      "t_cache s' = t_cache s" "heaps s' = heaps s" "mem s' = sw_mem w2" "roots s' = roots s"
      by (simp_all add: s'_def reset_desc_eq s1)
    have "heap_inv (with_avail av s') (small_ghost (with_avail av s) sc i M [] (part g sc) g)"
    proof (rule small_form [OF inv i sc(1)])
      show "small_at (mem (with_avail av s')) (sb_start (with_avail av s)) (sbk (with_avail av s) i) sc (desc_of (with_avail av s') i) []"
        using dd xs2(3) True by (simp add: small_at_def ds set_state_def set_avail_def)
      show "set [] = {b \<in> blocks (with_avail av s) sc i. b \<notin> M}" using xs2(1) True by simp
      show "mem (with_avail av s') x = mem (with_avail av s) x" if "\<And>y. y \<in> set [] \<Longrightarrow> x < y \<or> y + 8 \<le> x" for x
        using frame [of x] True by (simp add: bs)
    qed (simp_all add: bs ds set_state_def with_avail_def)
    then show ?thesis using e xs2(1) True frame
      by (intro exI [of _ s'] exI [of _ "[]"] exI [of _ "part g sc"]) (auto simp: bs ds dd small_ghost_def)
  next
    case False
    have r: "run (read_pptr (sw_mem w2)) (sw_head w2) xs2" using w2(2) False by (simp add: sw_ok_def)
    have "sw_head w2 \<in> set xs2" using run_hd [OF r False] hd_in_set [OF False] by simp
    then have "sw_head w2 \<in> blocks s sc i" unfolding xs2(1) by simp
    then obtain q where q: "sw_head w2 = ?b + q * ?z" "q < nblocks sc" by (auto simp: blocks_def)
    let ?a = "set_state SB_PARTIAL (set_avail ((sw_head w2 - ?b) div ?z) (sw_anchor w2))"
    have av: "avail ?a = q" "count ?a = length xs2" "state ?a = SB_PARTIAL"
      using q sc(2) n(1) xs2(3) by (simp_all add: set_state_def set_avail_def)
    let ?s3 = "?s2\<lparr>descs := next_free_store (dsc s i) 0 (descs ?s2)\<rparr>"
    have nf: "\<not> nonfull (with_avail av s) g sc i" using i by (simp add: nonfull_def)
    have d3: "desc_of ?s3 j = (if j = i then (desc_of s i)\<lparr>next_free := atomic_pptr_store (dsc s i) 0\<rparr> else desc_of s j)" for j
      by (simp add: s1 desc_of_def dsc_def next_free_store_def pm_consts)
    obtain pw np where p: "heap_push_partial (dsc s i) ?s3 =
        Inr (set_partial_list sc pw (upd_desc (dsc s i) (\<lambda>d. d\<lparr>next_partial := np\<rparr>) ?s3))"
      "pc_ptr (acp_load (desc_start s) pw) = dsc s i"
      "checked_load (dsc s i + 8) np = pc_ptr (acp_load (desc_start s) (partial_list (heaps s sc)))"
      using heap_push_partial_ok [OF inv sc(1) i(1) nf, of ?s3] d3 [of i] dd(1) by (auto simp: s1)
    define s' where "s' = upd_desc (dsc s i) (\<lambda>de. de\<lparr>anchor := ?a\<rparr>)
      (set_partial_list sc pw (upd_desc (dsc s i) (\<lambda>d. d\<lparr>next_partial := np\<rparr>) ?s3))"
    have "count (sw_anchor w2) \<noteq> 0" "sw_head w2 \<noteq> 0" using xs2(3) False q(1) u(2) by simp_all
    then have e: "sweep_small ?b (dsc s i) w s1 = Inr s'" using ev p(1) by (simp add: s'_def Let_def)
    have ds: "desc_of s' j = (if j = i then (desc_of s i)\<lparr>next_free := atomic_pptr_store (dsc s i) 0,
        next_partial := np, anchor := ?a\<rparr> else desc_of s j)" for j
      using d3 [of j] by (auto simp: s'_def desc_of_def dsc_def upd_desc_def s1 pm_consts)
    have bs: "sb_start s' = sb_start s" "desc_start s' = desc_start s" "sb_region s' = sb_region s" "avail_sb s' = avail_sb s"
      "t_cache s' = t_cache s" "sc_idx (heaps s' h) = sc_idx (heaps s h)" "mem s' = sw_mem w2" "roots s' = roots s"
      "partial_list (heaps s' h) = (if h = sc then pw else partial_list (heaps s h))" for h
      by (simp_all add: s'_def s1)
    have nl: "partial_link (descs s') (dsc s i) = pc_ptr (acp_load (desc_start s) (partial_list (heaps s sc)))"
      using p(3) ds [of i] bs(2) by (simp add: partial_link_def desc_of_def dsc_def)
    have "heap_inv (with_avail av s') (small_ghost (with_avail av s) sc i M xs2 (i # part g sc) g)"
    proof (rule small_form [OF inv i sc(1)])
      show "small_at (mem (with_avail av s')) (sb_start (with_avail av s)) (sbk (with_avail av s) i) sc (desc_of (with_avail av s') i) xs2"
        using dd av q r len False by (simp add: small_at_def ds bs)
      show "set xs2 = {b \<in> blocks (with_avail av s) sc i. b \<notin> M}" using xs2(1) by simp
      show "mem (with_avail av s') x = mem (with_avail av s) x" if "\<And>y. y \<in> set xs2 \<Longrightarrow> x < y \<or> y + 8 \<le> x" for x
        using frame [OF that] by (simp add: bs)
      show "state (anchor (desc_of (with_avail av s') i)) = SB_FULL \<and> partial_list (heaps (with_avail av s') sc) = partial_list (heaps (with_avail av s) sc) \<and> i # part g sc = part g sc \<or>
        state (anchor (desc_of (with_avail av s') i)) \<noteq> SB_FULL \<and>
          pc_ptr (acp_load (desc_start (with_avail av s)) (partial_list (heaps (with_avail av s') sc))) = dsc (with_avail av s) i \<and>
          partial_link (descs (with_avail av s')) (dsc (with_avail av s) i) =
            pc_ptr (acp_load (desc_start (with_avail av s)) (partial_list (heaps (with_avail av s) sc))) \<and> i # part g sc = i # part g sc"
        using p(2) nl av(3) by (simp add: bs ds)
    qed (use xs2(2) in \<open>simp_all add: bs ds with_avail_def\<close>)
    then show ?thesis using e xs2(1) frame
      by (intro exI [of _ s'] exI [of _ xs2] exI [of _ "i # part g sc"]) (auto simp: bs ds dd small_ghost_def)
  qed
qed

lemma gc_step_small:
  assumes c: "crash_ok s0 n K M" and g: "gc_inv s0 n M i av s g" and i: "1 \<le> i" "i < n"
    and K: "K i = Small sc" and mk: "x \<in> M" "mark_at s0 K x i" and ms: "sorted ms" "distinct ms" "set ms = {x \<in> M. sbk s0 i \<le> x}"
  shows "\<exists>ms' s' g'. sweep_sb (sbk s0 i) (dsc s0 i) ms av s = Inr (sbk s0 (i + 1), dsc s0 (i + 1), ms', av, s') \<and>
    gc_inv s0 n M (i + 1) av s' g' \<and> sorted ms' \<and> distinct ms' \<and> set ms' = {x \<in> M. sbk s0 (i + 1) \<le> x}"
proof -
  note d = gc_invD [OF g] and gm = heap_invD(1) [OF gc_invD(1) [OF g]]
  have "sb_persisted s0 n K i" using c i by (simp add: crash_ok_def)
  then have sd0: "small_desc s0 i sc" using K by (simp add: sb_persisted_def)
  have dsi: "desc_of s i = desc_of s0 i" using d(5) [of i] i by simp
  have sd: "small_desc s i sc" using sd0 unfolding small_desc_def dsi d(10,16) .
  have sc: "sc_ok sc" using sd by (simp add: small_desc_def)
  have di: "descs s (dsc s0 i) = desc_of s i" by (simp add: desc_of_def d(17))
  have idx: "sc_idx (heaps s sc) = sc" using c sc d(14) by (simp add: crash_ok_def sc_ok_def)
  have xb: "x \<in> blocks s sc i" using mk(2) K d(18) by (auto simp: mark_at_def)
  have here: "mark_at s0 K y i" if "y \<in> M" "y \<in> sb_range s0 i" for y
    using mark_sb [OF c that(1)] that(2) sb_range_unique by blast
  have Mb: "y \<in> blocks s sc i" if "y \<in> M" "sbk s i \<le> y" "y < sbk s i + SBSIZE" for y
    using here [OF that(1)] that K d(16,18) by (auto simp: sb_range_def mark_at_def)
  have u: "user_addr (sbk s i + SBSIZE)" "0 < sbk s i" using geom_bounds(4,8) [OF gm, of i] i(2) d(2) by simp_all
  let ?w0 = "\<lparr>sw_anchor = Anchor_new 0 0 SB_EMPTY, sw_head = 0, sw_last = sbk s i, sw_mem = mem s\<rparr>"
  have ms0: "set ms = {x \<in> M. sbk s i + 0 * bsize sc \<le> x}" using ms(3) d(16) by simp
  have l0: "sw_last ?w0 = sbk s i + 0 * bsize sc" by simp
  obtain ms' w xs k where w: "sweep_marks s (sbk s i) (desc_of s i) ms ?w0 = Inr (ms', w)"
    "sw_ok (sbk s i) (bsize sc) k M (mem s) w xs" "sw_last w = sbk s i + k * bsize sc" "k \<le> nblocks sc" "sorted ms'" "distinct ms'"
    "set ms' = {x \<in> M. sbk s i + SBSIZE \<le> x}" "\<forall>j. k \<le> j \<longrightarrow> j < nblocks sc \<longrightarrow> sbk s i + j * bsize sc \<notin> M"
    "state (sw_anchor w) = (if \<exists>x \<in> M. sbk s i + 0 * bsize sc \<le> x \<and> x < sbk s i + SBSIZE then SB_PARTIAL else state (sw_anchor ?w0))"
    using sweep_marks_small [OF sd idx refl u Mb ms(1,2) ms0 le0 sw_ok_init l0] by blast
  have "sbk s i \<le> x \<and> x < sbk s i + SBSIZE" using blocks_range [OF xb sc] by (simp add: sb_range_def)
  then have st: "state (sw_anchor w) = SB_PARTIAL" using w(9) mk(1) by auto
  have ki: "used g i" "kind g i = Held" using i d(2,4) by (simp_all add: used_def)
  have ex: "\<exists>x \<in> blocks s sc i. x \<in> M" using mk(1) xb by blast
  obtain s' xs' ps where s': "sweep_small (sbk s i) (dsc s i) w (s\<lparr>mem := sw_mem w\<rparr>) = Inr s'"
    "heap_inv (with_avail av s') (small_ghost s sc i M xs' ps g)" "set xs' = {b \<in> blocks s sc i. b \<notin> M}"
    "\<forall>x. (\<forall>y \<in> set xs'. x < y \<or> y + 8 \<le> x) \<longrightarrow> mem s' x = mem s x" "\<forall>j. j \<noteq> i \<longrightarrow> desc_of s' j = desc_of s j"
    "desc_block_size (desc_of s' i) = bsize sc"
    "sb_start s' = sb_start s" "desc_start s' = desc_start s" "sb_region s' = sb_region s" "roots s' = roots s"
    "\<forall>h. sc_idx (heaps s' h) = sc_idx (heaps s h)"
    using sweep_small_ok [OF d(1) ki sd ex w(2,3,4) _ refl refl] w(8) by blast
  let ?g' = "small_ghost s sc i M xs' ps g"
  have sk: "sbk s0 (i + 1) = sbk s i + SBSIZE" "dsc s0 (i + 1) = dsc s i + DESCSIZE" by (simp_all add: sbk_def dsc_def d(10,11))
  have hs: "heap (desc_of s i) = Some sc" "sc \<noteq> 0" using sd sc by (simp_all add: small_desc_def sc_ok_def)
  have ev: "sweep_sb (sbk s0 i) (dsc s0 i) ms av s = Inr (sbk s0 (i + 1), dsc s0 (i + 1), ms', av, s')"
    unfolding sweep_sb_def di sk using w(1) st s'(1) hs idx by (simp add: Let_def d(16,17) [symmetric] desc_of_def)
  have gs: "kind ?g' j = (if j = i then Small sc else kind g j)" "nsb ?g' = nsb g" "cached ?g' = cached g"
    "own ?g' b = (if b \<in> blocks s sc i then (if b \<in> M then User else InSb) else own g b)" for j b
    by (simp_all add: small_ghost_def)
  have us: "users ?g' = {b \<in> M. b < sbk s0 (i + 1)}"
  proof (intro set_eqI iffI)
    fix b assume "b \<in> users ?g'"
    then have "b \<in> blocks s sc i \<and> b \<in> M \<or> b \<in> users g" by (auto simp: users_def gs split: if_splits)
    then show "b \<in> {b \<in> M. b < sbk s0 (i + 1)}"
      unfolding d(7) using blocks_range [OF _ sc, of b s i] sbk_le_mono [of i "i + 1" s0] sk by (auto simp: sb_range_def)
  next
    fix b assume b: "b \<in> {b \<in> M. b < sbk s0 (i + 1)}"
    show "b \<in> users ?g'"
    proof (cases "sbk s i \<le> b")
      case True
      then have "b \<in> blocks s sc i" using b sk by (intro Mb) simp_all
      then show ?thesis using b by (simp add: users_def gs)
    next
      case False
      then have "b \<in> users g" unfolding d(7) using b d(16) by simp
      moreover have "b \<notin> blocks s sc i" using False blocks_range [OF _ sc, of b s i] by (auto simp: sb_range_def)
      ultimately show ?thesis by (simp add: users_def gs)
    qed
  qed
  have bsz: "desc_block_size (desc_of s' j) = desc_block_size (desc_of s j)" for j
    using s'(5,6) sd by (cases "j = i") (simp_all add: small_desc_def)
  have look: "desc_lookup s' = desc_lookup s" using s'(7,8) by (simp add: desc_lookup_def fun_eq_iff)
  have msz: "msize s' b = msize s b" if bM: "b \<in> M" for b
  proof -
    obtain l where l: "l < n" "b \<in> sb_range s0 l" using mark_sb [OF c bM] by blast
    have "desc_lookup s b = dsc s l" using gc_lookup(1) [OF g l] d(17) by simp
    moreover have "dsc s' = dsc s" using s'(8) by (simp add: dsc_def fun_eq_iff)
    ultimately show ?thesis using bsz [of l] look by (simp add: msize_def desc_of_def)
  qed
  have keep: "mem s' y = mem s0 y" if b: "b \<in> M" and y: "y \<in> extent s0 b" for b y
  proof -
    have bx: "extent s b = extent s0 b" using d(8) [OF b] by (simp add: extent_def)
    have "y < z \<or> z + 8 \<le> y" if z: "z \<in> set xs'" for z
    proof (rule ccontr)
      assume no: "\<not> (y < z \<or> z + 8 \<le> y)"
      have zb: "z \<in> blocks s sc i" "z \<notin> M" using z unfolding s'(3) by simp_all
      have inv': "heap_inv (with_avail av s') ?g'" by (rule s'(2))
      have bk: "blocks s' = blocks s" using s'(7) by (simp add: blocks_def sbk_def fun_eq_iff)
      have zi: "small_blk (with_avail av s') ?g' z i sc" using zb(1) ki(1) bk by (simp add: small_blk_def gs used_def)
      have "y \<in> extent (with_avail av s') z"
        using no small_blk_msize [OF inv' zi] bsize_props(1) [of sc] sc by (auto simp: extent_def sc_ok_def)
      show False
      proof (cases "b < sbk s0 (i + 1)")
        case True
        then have "b \<in> users ?g'" unfolding us using b by simp
        then have "extent (with_avail av s') z \<inter> extent (with_avail av s') b = {}"
          using zb b by (intro extent_disjoint [OF inv']) (auto simp: users_def gs)
        moreover have "extent (with_avail av s') b = extent s0 b"
          using msz [OF b] d(8) [OF b] by (simp add: extent_def msize_def)
        ultimately show False using y \<open>y \<in> extent (with_avail av s') z\<close> by blast
      next
        case False
        have "z + bsize sc \<le> sbk s i + SBSIZE"
          using small_blk_facts(10) [OF inv' zi] s'(7) by (simp add: sbk_def)
        moreover have "8 \<le> bsize sc" using bsize_props(1) [of sc] sc by (simp add: sc_ok_def)
        ultimately show False using False no y sk by (auto simp: extent_def)
      qed
    qed
    then show ?thesis using s'(4) d(9) [OF b y] by metis
  qed
  have "gc_inv s0 n M (i + 1) av s' ?g'"
    unfolding gc_inv_def
  proof (intro conjI allI impI ballI)
    show "heap_inv (with_avail av s') ?g'" by (rule s'(2))
    show "users ?g' = {b \<in> M. b < sbk s0 (i + 1)}" by (rule us)
    show "kind ?g' j = Held" "desc_of s' j = desc_of s0 j" if "i + 1 \<le> j \<and> j < n" for j
      using that d(4,5) [of j] s'(5) by (simp_all add: gs)
    show "kind ?g' j \<noteq> Held" if "1 \<le> j \<and> j < i + 1" for j
      using that d(6) [of j] by (cases "j = i") (simp_all add: gs)
    show "msize s' b = msize s0 b" if "b \<in> M" for b using d(8) [OF that] msz [OF that] by simp
    show "mem s' y = mem s0 y" if "b \<in> M" "y \<in> extent s0 b" for b y by (rule keep [OF that])
  qed (use d s'(7-11) in \<open>simp_all add: gs\<close>)
  then show ?thesis using ev w(5-7) sk(1) by auto
qed

lemma gc_loop_ok:
  assumes c: "crash_ok s0 n K M" and "gc_inv s0 n M i av s g" and "1 \<le> i" "i \<le> n" and "i < n \<longrightarrow> desc = dsc s0 i"
    and "sorted ms" "distinct ms" "set ms = {x \<in> M. sbk s0 i \<le> x}"
  shows "\<exists>av' s' g'. sweep_loop (sbk s0 n) (sbk s0 i) desc ms av s = Inr ([], av', s') \<and> gc_inv s0 n M n av' s' g'"
  using assms(2-8)
proof (induction "n - i" arbitrary: i av s g desc ms rule: less_induct)
  case less
  note g = less.prems(1) and i = less.prems(2,3) and ms = less.prems(5-7)
  show ?case
  proof (cases "i = n")
    case True
    have "x \<notin> M" if "sbk s0 n \<le> x" for x
    proof
      assume "x \<in> M"
      then obtain l where "l < n" "x \<in> sb_range s0 l" using mark_sb [OF c] by blast
      then show False using range_after [of x s0 l n] that by simp
    qed
    then have "set ms = {}" unfolding ms(3) True by blast
    then show ?thesis using g True by (subst sweep_loop.simps) auto
  next
    case False
    then have lt: "i < n" using i(2) by simp
    let ?goal = "\<exists>av' s' g'. sweep_loop (sbk s0 n) (sbk s0 i) desc ms av s = Inr ([], av', s') \<and> gc_inv s0 n M n av' s' g'"
    have rec: ?goal if "sweep_sb (sbk s0 i) (dsc s0 i) ms av s = Inr (sbk s0 i', d', ms', av', s')" "i < i'" "i' \<le> n"
      "i' < n \<longrightarrow> d' = dsc s0 i'" "gc_inv s0 n M i' av' s' g'" "sorted ms'" "distinct ms'" "set ms' = {x \<in> M. sbk s0 i' \<le> x}"
      for i' d' ms' av' s' g'
    proof -
      have "n - i' < n - i" "1 \<le> i'" using that(2,3) i(1) by simp_all
      from less.hyps [OF this(1) that(5) this(2) that(3,4,6-8)] obtain av2 s2 g2 where
        r: "sweep_loop (sbk s0 n) (sbk s0 i') d' ms' av' s' = Inr ([], av2, s2)" "gc_inv s0 n M n av2 s2 g2" by blast
      have "sbk s0 i < sbk s0 n" using lt by (simp add: sbk_def pm_consts)
      then have "sweep_loop (sbk s0 n) (sbk s0 i) desc ms av s = Inr ([], av2, s2)"
        using that(1) r(1) less.prems(4) lt by (subst sweep_loop.simps) simp
      then show ?thesis using r(2) by blast
    qed
    show ?thesis
    proof (cases "\<exists>x \<in> M. mark_at s0 K x i")
      case False
      obtain s' g' where 1: "sweep_sb (sbk s0 i) (dsc s0 i) ms av s = Inr (sbk s0 (i + 1), dsc s0 (i + 1), ms, dsc s0 i, s')"
        "gc_inv s0 n M (i + 1) (dsc s0 i) s' g'" "set ms = {x \<in> M. sbk s0 (i + 1) \<le> x}"
        using gc_step_empty [OF c g i(1) lt _ ms(3)] False by blast
      show ?thesis by (rule rec [OF 1(1) _ _ _ 1(2) ms(1,2) 1(3)]) (use lt in simp_all)
    next
      case True
      then obtain x where x: "x \<in> M" "mark_at s0 K x i" by blast
      then consider (small) sc where "K i = Small sc" | (large) m where "K i = Large m" "x = sbk s0 i"
        by (auto simp: mark_at_def)
      then show ?thesis
      proof cases
        case small
        then obtain ms' s' g' where 1: "sweep_sb (sbk s0 i) (dsc s0 i) ms av s = Inr (sbk s0 (i + 1), dsc s0 (i + 1), ms', av, s')"
          "gc_inv s0 n M (i + 1) av s' g'" "sorted ms'" "distinct ms'" "set ms' = {x \<in> M. sbk s0 (i + 1) \<le> x}"
          using gc_step_small [OF c g i(1) lt _ x ms] by blast
        show ?thesis by (rule rec [OF 1(1) _ _ _ 1(2-5)]) (use lt in simp_all)
      next
        case large
        have "sb_persisted s0 n K i" using c i(1) lt by (simp add: crash_ok_def)
        then have m: "0 < m" "i + m \<le> n" using large(1) by (simp_all add: sb_persisted_def)
        obtain ms' s' g' d' where 1: "sweep_sb (sbk s0 i) (dsc s0 i) ms av s = Inr (sbk s0 (i + m), d', ms', av, s')"
          "i + m < n \<longrightarrow> d' = dsc s0 (i + m)" "gc_inv s0 n M (i + m) av s' g'" "sorted ms'" "distinct ms'"
          "set ms' = {x \<in> M. sbk s0 (i + m) \<le> x}"
          using gc_step_large [OF c g i(1) lt large(1) _ ms] x(1) large(2) by blast
        show ?thesis by (rule rec [OF 1(1) _ m(2) 1(2-6)]) (use m(1) in simp)
      qed
    qed
  qed
qed

text \<open>
  From a state that only its persistent fields and its marks explain, the sweep builds a heap with
  exactly the marked blocks in use.
\<close>

lemma gc_sweep_ok:
  assumes c: "crash_ok s n K (set ms)" and ms: "sorted ms" "distinct ms"
    and z: "avail_sb s = 0" "\<And>sc. sc < MAX_SZ_IDX \<Longrightarrow> partial_list (heaps s sc) = 0"
  shows "\<exists>s' g. gc_sweep ms s = Inr s' \<and> heap_inv s' g \<and> nsb g = n \<and> held g = {} \<and> users g = set ms \<and>
    (\<forall>b \<in> set ms. msize s' b = msize s b \<and> (\<forall>x \<in> extent s b. mem s' x = mem s x)) \<and> roots s' = roots s \<and>
    sb_start s' = sb_start s \<and> (\<forall>t sc. cached g t sc = [])"
proof -
  have gm: "geom s n" and n: "1 \<le> n" and idx: "\<And>sc. sc < MAX_SZ_IDX \<Longrightarrow> sc_idx (heaps s sc) = sc"
    and tc: "\<And>t sc. tc_num (t_cache s t sc) = 0" using c by (simp_all add: crash_ok_def)
  have gm': "geom (with_avail 0 s) n" using gm by (simp add: geom_def)
  have inv: "heap_inv (with_avail 0 s) (held_ghost n)"
  proof (rule all_held_inv [OF gm'])
    show "pc_ptr (acp_load (desc_start (with_avail 0 s)) (avail_sb (with_avail 0 s))) = 0"
      by (simp add: with_avail_def acp_null)
    show "heap (desc_of (with_avail 0 s) j) = None" if "n \<le> j" for j using c that by (simp add: crash_ok_def)
  qed (use z idx tc in \<open>simp_all add: acp_null\<close>)
  have low: "sbk s 1 \<le> x" if x: "x \<in> set ms" for x
  proof -
    obtain l where "1 \<le> l" "x \<in> sb_range s l" using mark_sb [OF c x] by blast
    then show ?thesis using sbk_le_mono [of 1 l s] by (simp add: sb_range_def)
  qed
  have g0: "gc_inv s n (set ms) 1 0 s (held_ghost n)"
  proof -
    have "users (held_ghost n) = {b \<in> set ms. b < sbk s 1}" using low by (fastforce simp: users_def held_ghost_def)
    then show ?thesis unfolding gc_inv_def using inv by (simp add: held_ghost_def acp_ptr_def)
  qed
  have st: "translate (sb_start s) (of_nat SBSIZE) = sbk s 1"
  proof -
    have "user_addr (sbk s 1)" using geom_bounds(3) [OF gm n] .
    then have "sb_start s + SBSIZE < 2 ^ 64" by (simp add: user_addr_def sbk_def)
    then show ?thesis unfolding translate_def by (simp add: sbk_def unat_of_nat flip: of_nat_add)
  qed
  have en: "curr_addr (sb_region s) = sbk s n" by (rule frontier_aligned(1) [OF gm])
  have dl: "1 < n \<longrightarrow> desc_lookup s (sbk s 1) = dsc s 1" using desc_lookup_in [OF gm _ sbk_range] by simp
  have set1: "set ms = {x \<in> set ms. sbk s 1 \<le> x}" using low by blast
  obtain av s1 g where l: "sweep_loop (sbk s n) (sbk s 1) (desc_lookup s (sbk s 1)) ms 0 s = Inr ([], av, s1)"
    "gc_inv s n (set ms) n av s1 g"
    using gc_loop_ok [OF c g0 order_refl n dl ms set1] by blast
  note d = gc_invD [OF l(2)]
  have "gc_sweep ms s = Inr (with_avail av s1)"
    unfolding gc_sweep_def st en Let_def l(1) by (simp add: with_avail_def)
  moreover have "users g = set ms"
  proof -
    have "x < sbk s n" if x: "x \<in> set ms" for x
    proof -
      obtain k where "k < n" "x \<in> sb_range s k" using mark_sb [OF c x] by blast
      then show ?thesis using range_after [of x s k n] by fastforce
    qed
    then show ?thesis unfolding d(7) by blast
  qed
  moreover have "held g = {}" using d(2,6) by (auto simp: held_def used_def)
  moreover have "msize (with_avail av s1) = msize s1" by (simp add: msize_def fun_eq_iff)
  ultimately show ?thesis using d by (intro exI [of _ "with_avail av s1"] exI [of _ g]) simp
qed

end
