(* ===== verification/Recovery.thy ===== *)
theory Recovery
  imports GcSweep
begin

text \<open>
  Recovery after a crash: marking finds exactly what the roots reach, and together with the sweep
  it gives the program its reachable blocks back, with their bytes, and everything else becomes
  free again.
\<close>

section \<open>Marking as a traversal\<close>

text \<open>The marks a filter asks for, whatever it is.\<close>

definition filter_edges :: "custom_filters \<Rightarrow> ralloc \<Rightarrow> filter_fun \<Rightarrow> addr \<Rightarrow> nat \<Rightarrow> (addr \<times> nat \<times> filter_fun) list" where
  "filter_edges custom s f p t = (case f of
      Default \<Rightarrow> [(q, 0, Default). q \<leftarrow> map (\<lambda>i. read_pptr (mem s) (p + i)) [0..<msize s p], q \<noteq> 0]
    | Custom k \<Rightarrow> custom k p t)"

definition mark_all :: "ralloc \<Rightarrow> (addr \<times> nat \<times> filter_fun) list \<Rightarrow> gc \<Rightarrow> gc" where
  "mark_all s es c = fold (\<lambda>(p, t, f). mark_func_c s p t f) es c"

lemma mark_all_simps [simp]:
  "mark_all s [] c = c" "mark_all s ((p, t, f) # es) c = mark_all s es (mark_func_c s p t f c)"
  "mark_all s (es @ es') c = mark_all s es' (mark_all s es c)"
  by (simp_all add: mark_all_def)

lemma filter_func_edges: "filter_func s p t c = mark_all s (filter_edges custom s Default p t) c"
proof -
  have "fold (\<lambda>i c. let q = read_pptr (mem s) (p + i) in if q \<noteq> 0 then mark_func s q t c else c) is c =
    mark_all s [(q, 0, Default). q \<leftarrow> map (\<lambda>i. read_pptr (mem s) (p + i)) is, q \<noteq> 0] c" for "is"
    by (induction "is" arbitrary: c) (simp_all add: mark_func_eq Let_def)
  then show ?thesis by (simp add: filter_func_def filter_edges_def msize_def Let_def)
qed

lemma call_filter_edges: "call_filter custom s f p t c = mark_all s (filter_edges custom s f p t) c"
  by (cases f) (simp_all add: call_filter_def filter_func_edges [where custom = custom] custom_filter_def mark_all_def filter_edges_def)

text \<open>The blocks reachable from a set of pointers, where \<open>pts p\<close> are the pointers in the block at \<open>p\<close>.\<close>

inductive_set closure :: "(addr \<Rightarrow> bool) \<Rightarrow> addr set \<Rightarrow> (addr \<Rightarrow> addr set) \<Rightarrow> addr set"
  for rng :: "addr \<Rightarrow> bool" and rts :: "addr set" and pts :: "addr \<Rightarrow> addr set" where
  root: "p \<in> rts \<Longrightarrow> rng p \<Longrightarrow> p \<in> closure rng rts pts"
| step: "p \<in> closure rng rts pts \<Longrightarrow> q \<in> pts p \<Longrightarrow> rng q \<Longrightarrow> q \<in> closure rng rts pts"

text \<open>
  The filters fit the heap: \<open>typed p t f\<close> says that \<open>f\<close> is a right filter for the block at \<open>p\<close>, and then the marks it
  makes are the pointers in that block, each with a right filter.
\<close>

definition filters_fit :: "custom_filters \<Rightarrow> ralloc \<Rightarrow> (addr \<Rightarrow> nat \<Rightarrow> filter_fun \<Rightarrow> bool) \<Rightarrow> (addr \<Rightarrow> addr set) \<Rightarrow> bool" where
  "filters_fit custom s typed pts \<longleftrightarrow> (\<forall>p t f. typed p t f \<longrightarrow> fst ` set (filter_edges custom s f p t) = pts p \<and>
    (\<forall>(q, t', f') \<in> set (filter_edges custom s f p t). typed q t' f'))"

abbreviation in_sb :: "ralloc \<Rightarrow> addr \<Rightarrow> bool" where
  "in_sb s \<equiv> in_range (sb_start s) (sb_region s)"

text \<open>
  The state of the traversal: every marked block is waiting on the stack, or its pointers are marked too.
\<close>

definition mark_inv :: "ralloc \<Rightarrow> (addr \<Rightarrow> nat \<Rightarrow> filter_fun \<Rightarrow> bool) \<Rightarrow> (addr \<Rightarrow> addr set) \<Rightarrow> addr set \<Rightarrow> gc \<Rightarrow> bool" where
  "mark_inv s typed pts R c \<longleftrightarrow> sorted (marked_blk c) \<and> distinct (marked_blk c) \<and>
    set (marked_blk c) \<subseteq> R \<and> length (to_filter_func c) = length (to_filter_node c) \<and>
    (\<forall>((p, t), f) \<in> set (zip (to_filter_node c) (to_filter_func c)). typed p t f \<and> p \<in> set (marked_blk c)) \<and>
    (\<forall>p \<in> set (marked_blk c). p \<in> fst ` set (to_filter_node c) \<or> (\<forall>q \<in> pts p. in_sb s q \<longrightarrow> q \<in> set (marked_blk c)))"

lemma mark_func_c_inv:
  assumes "mark_inv s typed pts R c" and "typed p t f" and "in_sb s p \<Longrightarrow> p \<in> R"
  shows "mark_inv s typed pts R (mark_func_c s p t f c)"
    and "set (marked_blk (mark_func_c s p t f c)) = set (marked_blk c) \<union> (if in_sb s p then {p} else {})"
  using assms by (auto simp: mark_inv_def mark_func_c_def set_insort_key sorted_insort distinct_insort)

lemma mark_all_inv:
  assumes "mark_inv s typed pts R c" and "\<And>q t f. (q, t, f) \<in> set es \<Longrightarrow> typed q t f \<and> (in_sb s q \<longrightarrow> q \<in> R)"
  shows "mark_inv s typed pts R (mark_all s es c) \<and>
    set (marked_blk (mark_all s es c)) = set (marked_blk c) \<union> {q \<in> fst ` set es. in_sb s q}"
  using assms
proof (induction es arbitrary: c)
  case (Cons e es)
  obtain q t f where e: "e = (q, t, f)" by (cases e)
  have q: "typed q t f" "in_sb s q \<Longrightarrow> q \<in> R" using Cons.prems(2) [of q t f] e by auto
  note 1 = mark_func_c_inv [OF Cons.prems(1) q]
  have "mark_inv s typed pts R (mark_all s es (mark_func_c s q t f c)) \<and>
    set (marked_blk (mark_all s es (mark_func_c s q t f c))) = set (marked_blk (mark_func_c s q t f c)) \<union> {q \<in> fst ` set es. in_sb s q}"
    by (rule Cons.IH [OF 1(1)]) (use Cons.prems(2) in auto)
  then show ?case using 1(2) by (auto simp: e)
qed simp

lemma mark_loop_inv:
  assumes fit: "filters_fit custom s typed pts" and R: "\<And>p q. p \<in> R \<Longrightarrow> q \<in> pts p \<Longrightarrow> in_sb s q \<Longrightarrow> q \<in> R"
    and "mark_inv s typed pts R c"
  shows "mark_inv s typed pts R (mark_loop custom s c) \<and> to_filter_node (mark_loop custom s c) = [] \<and>
    set (marked_blk c) \<subseteq> set (marked_blk (mark_loop custom s c))"
  using assms(3)
proof (induction "gc_weight s c" arbitrary: c rule: less_induct)
  case less
  show ?case
  proof (cases "to_filter_node c")
    case Nil
    then have "mark_loop custom s c = c" by (subst mark_loop.simps) simp
    then show ?thesis using less.prems Nil by simp
  next
    case (Cons node nodes)
    obtain p t where node: "node = (p, t)" by (cases node)
    obtain f fs where ff: "to_filter_func c = f # fs"
      using less.prems Cons by (cases "to_filter_func c") (auto simp: mark_inv_def)
    have pt: "typed p t f" "p \<in> set (marked_blk c)" "p \<in> R"
      using less.prems by (auto simp: mark_inv_def Cons ff node)
    let ?c1 = "c\<lparr>to_filter_node := nodes, to_filter_func := fs\<rparr>"
    let ?es = "filter_edges custom s f p t"
    have "fst ` set ?es = pts p \<and> (\<forall>(q, t', f') \<in> set ?es. typed q t' f')"
      using fit pt(1) unfolding filters_fit_def by blast
    then have es: "fst ` set ?es = pts p" "\<And>q t' f'. (q, t', f') \<in> set ?es \<Longrightarrow> typed q t' f'" by auto
    define c2 where "c2 = mark_all s ?es ?c1"
    have esR: "typed q t' f' \<and> (in_sb s q \<longrightarrow> q \<in> R)" if "(q, t', f') \<in> set ?es" for q t' f'
    proof -
      have "q \<in> pts p" using that es(1) by force
      then show ?thesis using es(2) [OF that] R [OF pt(3)] by blast
    qed
    text \<open>Between the pop and the marks the popped block is the one exception.\<close>
    let ?pts = "\<lambda>x. if x = p then {} else pts x"
    have "mark_inv s typed ?pts R ?c1"
      using less.prems by (auto simp: mark_inv_def Cons ff node)
    from mark_all_inv [OF this esR] have c2: "mark_inv s typed ?pts R c2"
      "set (marked_blk c2) = set (marked_blk c) \<union> {q \<in> pts p. in_sb s q}"
      using es(1) by (simp_all add: c2_def)
    have pp: "q \<in> set (marked_blk c2)" if "q \<in> pts p" "in_sb s q" for q unfolding c2(2) using that by blast
    have "x \<in> fst ` set (to_filter_node c2) \<or> (\<forall>q \<in> pts x. in_sb s q \<longrightarrow> q \<in> set (marked_blk c2))"
      if "x \<in> set (marked_blk c2)" for x
    proof (cases "x = p")
      case False
      have "x \<in> fst ` set (to_filter_node c2) \<or> (\<forall>q \<in> ?pts x. in_sb s q \<longrightarrow> q \<in> set (marked_blk c2))"
        using c2(1) that unfolding mark_inv_def by blast
      then show ?thesis using False by simp
    qed (use pp in blast)
    then have inv2: "mark_inv s typed pts R c2" using c2(1) unfolding mark_inv_def by blast
    have "gc_weight s c2 < gc_weight s c"
    proof -
      have "gc_weight s c2 \<le> gc_weight s ?c1"
        using call_filter_weight [of s custom f p t ?c1] by (simp add: c2_def call_filter_edges)
      moreover have "gc_weight s ?c1 < gc_weight s c" using Cons by (simp add: gc_weight_def unmarked_def)
      ultimately show ?thesis by simp
    qed
    moreover have "mark_loop custom s c = mark_loop custom s c2"
      by (subst mark_loop.simps) (simp add: Cons ff node call_filter_edges c2_def)
    moreover have "set (marked_blk c) \<subseteq> set (marked_blk c2)" unfolding c2(2) by blast
    ultimately show ?thesis using less.hyps [OF _ inv2] by auto
  qed
qed

section \<open>What the roots reach\<close>

definition root_edges :: "custom_filters \<Rightarrow> (nat \<Rightarrow> root_filter option) \<Rightarrow> ralloc \<Rightarrow> nat \<Rightarrow> (addr \<times> nat \<times> filter_fun) list" where
  "root_edges custom rff s i =
    (if CrossPtr_is_null (roots s i) then []
     else (case rff i of None \<Rightarrow> []
       | Some RootMark \<Rightarrow> [(CrossPtr_cast (sb_start s) (roots s i), 0, Default)]
       | Some (RootCustom k) \<Rightarrow> custom k (CrossPtr_cast (sb_start s) (roots s i)) i))"

definition all_root_edges :: "custom_filters \<Rightarrow> (nat \<Rightarrow> root_filter option) \<Rightarrow> ralloc \<Rightarrow> (addr \<times> nat \<times> filter_fun) list" where
  "all_root_edges custom rff s = concat (map (root_edges custom rff s) [0..<MAX_ROOTS])"

lemma mark_roots_edges:
  assumes "\<And>i. i < MAX_ROOTS \<Longrightarrow> \<not> CrossPtr_is_null (roots s i) \<Longrightarrow> rff i \<noteq> None"
  shows "mark_roots custom rff s c = Inr (mark_all s (all_root_edges custom rff s) c)"
proof -
  have one: "mark_root custom rff s i c = Inr (mark_all s (root_edges custom rff s i) c)" if "i < MAX_ROOTS" for i c
    using assms [OF that]
    by (cases "CrossPtr_is_null (roots s i)"; cases "rff i")
      (auto simp: mark_root_def root_edges_def mark_func_eq custom_filter_def mark_all_def split: root_filter.splits)
  have "fold (\<lambda>i r. and_then r (mark_root custom rff s i)) js (Inr c) =
      Inr (mark_all s (concat (map (root_edges custom rff s) js)) c)" if "set js \<subseteq> {..<MAX_ROOTS}" for js
    using that by (induction js arbitrary: c) (simp_all add: one)
  from this [of "[0..<MAX_ROOTS]"] show ?thesis by (simp add: mark_roots_def all_root_edges_def atLeast0LessThan)
qed

lemma gc_marks_closure:
  assumes fit: "filters_fit custom s typed pts"
    and rf: "\<And>i. i < MAX_ROOTS \<Longrightarrow> \<not> CrossPtr_is_null (roots s i) \<Longrightarrow> rff i \<noteq> None"
    and rt: "\<And>q t f. (q, t, f) \<in> set (all_root_edges custom rff s) \<Longrightarrow> typed q t f"
  defines "R \<equiv> closure (in_sb s) (fst ` set (all_root_edges custom rff s)) pts"
  shows "\<exists>c0 c. mark_roots custom rff s GarbageCollection_new = Inr c0 \<and> c = mark_loop custom s c0 \<and>
    sorted (marked_blk c) \<and> distinct (marked_blk c) \<and> set (marked_blk c) = R"
proof -
  let ?es = "all_root_edges custom rff s"
  define c0 where "c0 = mark_all s ?es GarbageCollection_new"
  define c where "c = mark_loop custom s c0"
  have i0: "mark_inv s typed pts R GarbageCollection_new" by (simp add: mark_inv_def GarbageCollection_new_def)
  have es: "typed q t f \<and> (in_sb s q \<longrightarrow> q \<in> R)" if "(q, t, f) \<in> set ?es" for q t f
  proof -
    have "q \<in> fst ` set ?es" using that by force
    then show ?thesis using rt [OF that] by (auto simp: R_def intro: closure.root)
  qed
  have c0: "mark_inv s typed pts R c0" "set (marked_blk c0) = {q \<in> fst ` set ?es. in_sb s q}"
    using mark_all_inv [OF i0 es] by (simp_all add: c0_def GarbageCollection_new_def)
  have cl: "q \<in> R" if "p \<in> R" "q \<in> pts p" "in_sb s q" for p q using that unfolding R_def by (rule closure.step)
  have c: "mark_inv s typed pts R c" "to_filter_node c = []" "set (marked_blk c0) \<subseteq> set (marked_blk c)"
    using mark_loop_inv [OF fit cl c0(1)] by (simp_all add: c_def)
  have "R \<subseteq> set (marked_blk c)"
  proof
    fix x assume "x \<in> R"
    then show "x \<in> set (marked_blk c)"
      unfolding R_def
    proof (induction rule: closure.induct)
      case (root p)
      then show ?case using c(3) unfolding c0(2) by blast
    next
      case (step p q)
      then show ?case using c(1,2) by (auto simp: mark_inv_def)
    qed
  qed
  moreover have "set (marked_blk c) \<subseteq> R" "sorted (marked_blk c)" "distinct (marked_blk c)"
    using c(1) by (simp_all add: mark_inv_def)
  moreover have "mark_roots custom rff s GarbageCollection_new = Inr c0"
    unfolding c0_def by (rule mark_roots_edges [OF rf])
  ultimately show ?thesis using c_def by blast
qed

section \<open>The image after a crash\<close>

text \<open>
  What a crash leaves of a quiescent heap, once the files are mapped at the same place: the region header, the
  roots, the persistent fields of the descriptors and of the heaps, and the bytes of the program's
  blocks. Links, anchors, list heads, caches and the bytes of free blocks may be anything.
\<close>

definition crash_image :: "ralloc \<Rightarrow> heap_view \<Rightarrow> ralloc \<Rightarrow> bool" where
  "crash_image s H s' \<longleftrightarrow> sb_region s' = sb_region s \<and> sb_start s' = sb_start s \<and> desc_start s' = desc_start s \<and> roots s' = roots s \<and>
    (\<forall>d. superblock (descs s' d) = superblock (descs s d) \<and> heap (descs s' d) = heap (descs s d) \<and>
      desc_block_size (descs s' d) = desc_block_size (descs s d) \<and> maxcount (descs s' d) = maxcount (descs s d)) \<and>
    (\<forall>h. sc_idx (heaps s' h) = sc_idx (heaps s h)) \<and> (\<forall>t sc. tc_num (t_cache s' t sc) = 0) \<and>
    (\<forall>b \<in> dom H. \<forall>x \<in> view_range H b. mem s' x = mem s x)"

lemma crash_image_ok:
  assumes inv: "heap_inv s g" and "1 \<le> nsb g" and hd: "held g = {}" and img: "crash_image s (live s g) s'" and M: "M \<subseteq> users g"
  shows "crash_ok (gc_reset s') (nsb g) (kind g) M"
proof -
  note iv = heap_invD [OF inv]
  let ?t = "gc_reset s'"
  have same: "sb_start ?t = sb_start s" "desc_start ?t = desc_start s" "sb_region ?t = sb_region s"
    "sc_idx (heaps ?t h) = sc_idx (heaps s h)" "t_cache ?t = t_cache s'" for h
    using img by (simp_all add: crash_image_def gc_reset_def)
  have addr: "sbk ?t = sbk s" "dsc ?t = dsc s" "blocks ?t = blocks s"
    using same(1,2) by (simp_all add: sbk_def dsc_def blocks_def fun_eq_iff)
  have de: "superblock (desc_of ?t i) = superblock (desc_of s i)" "heap (desc_of ?t i) = heap (desc_of s i)"
    "desc_block_size (desc_of ?t i) = desc_block_size (desc_of s i)" "maxcount (desc_of ?t i) = maxcount (desc_of s i)" for i
    using img addr(2) by (simp_all add: crash_image_def gc_reset_def desc_of_def dsc_def)
  have cl: "heap (desc_of s i) = None" if "1 \<le> i" "used g i \<longrightarrow> kind g i = Free \<or> kind g i = Tail" for i
    using iv(8) that unfolding clean_ok_def by blast
  have "sb_persisted ?t (nsb g) (kind g) i" if i: "1 \<le> i" "i < nsb g" for i
  proof -
    have u: "used g i" using i by (simp add: used_def)
    show ?thesis
    proof (cases "kind g i")
      case (Small sc)
      have "small_sb s g i sc" by (rule small_okD [OF iv(4) u Small])
      then show ?thesis using Small same(1) addr de by (simp add: sb_persisted_def small_desc_def small_sb_def small_at_def)
    next
      case (Large m)
      have "maxcount (desc_of s i) = 1" using iv(8) u Large unfolding clean_ok_def by blast
      then show ?thesis using large_okD [OF iv(5) u Large] Large same(1) addr de
        by (simp add: sb_persisted_def large_at_def)
    next
      case Held
      then show ?thesis using hd u by (auto simp: held_def)
    qed (use cl [OF i(1)] de in \<open>simp_all add: sb_persisted_def\<close>)
  qed
  moreover have "marks_ok ?t (nsb g) (kind g) M"
    unfolding marks_ok_def
  proof
    fix b assume "b \<in> M"
    then have "own g b = User" using M by (auto simp: users_def)
    then have "(\<exists>i sc. small_blk s g b i sc) \<or> (\<exists>i m. large_blk s g b i m)" by (rule own_blk(3) [OF inv])
    then show "\<exists>i. 1 \<le> i \<and> i < nsb g \<and> mark_at ?t (kind g) b i"
      unfolding mark_at_def addr by (auto simp: small_blk_def large_blk_def used_def)
  qed
  moreover have "geom ?t (nsb g)" using iv(1) same by (simp add: geom_def)
  moreover have "heap (desc_of ?t i) = None" if "nsb g \<le> i" for i
    using cl [of i] that assms(2) de(2) by (simp add: used_def)
  moreover have "tc_num (t_cache ?t t sc) = 0" for t sc using img same(5) by (simp add: crash_image_def)
  ultimately show ?thesis using heap_idx [OF inv] same(4) assms(2) by (simp add: crash_ok_def)
qed

lemma root_edges_cong:
  "roots s' = roots s \<Longrightarrow> sb_start s' = sb_start s \<Longrightarrow> root_edges custom rff s' = root_edges custom rff s"
  unfolding root_edges_def by (simp only:)

lemma gc_reset_edges:
  "filter_edges custom (gc_reset s) = filter_edges custom s" "all_root_edges custom rff (gc_reset s) = all_root_edges custom rff s"
  "in_sb (gc_reset s) = in_sb s" "msize (gc_reset s) = msize s"
proof -
  show m: "msize (gc_reset s) = msize s" by (simp add: gc_reset_def msize_def desc_lookup_def fun_eq_iff)
  have "mem (gc_reset s) = mem s" by (simp add: gc_reset_def)
  then show "filter_edges custom (gc_reset s) = filter_edges custom s" unfolding filter_edges_def m by (simp only:)
  have "root_edges custom rff (gc_reset s) = root_edges custom rff s" by (rule root_edges_cong) (simp_all add: gc_reset_def)
  then show "all_root_edges custom rff (gc_reset s) = all_root_edges custom rff s" by (simp add: all_root_edges_def)
qed (simp add: gc_reset_def)

lemma recovery_ok:
  assumes rep: "represents s H" and img: "crash_image s H s'" and fit: "filters_fit custom s' typed pts"
    and rf: "\<And>i. i < MAX_ROOTS \<Longrightarrow> \<not> CrossPtr_is_null (roots s' i) \<Longrightarrow> rff i \<noteq> None"
    and rt: "\<And>q t f. (q, t, f) \<in> set (all_root_edges custom rff s') \<Longrightarrow> typed q t f \<and> (in_sb s' q \<longrightarrow> q \<in> dom H)"
    and pt: "\<And>p q. p \<in> dom H \<Longrightarrow> q \<in> pts p \<Longrightarrow> in_sb s' q \<Longrightarrow> q \<in> dom H"
  defines "R \<equiv> closure (in_sb s') (fst ` set (all_root_edges custom rff s')) pts"
  shows "\<exists>s''. gc_run custom rff s' = Inr (card R, s'') \<and> represents s'' (H |` R) \<and> R \<subseteq> dom H"
proof -
  obtain g where g: "heap_inv s g" "1 \<le> nsb g" "held g = {}" "H = live s g" using rep by (auto simp: represents_def)
  let ?t = "gc_reset s'"
  have sub: "R \<subseteq> dom H"
  proof
    fix x assume "x \<in> R"
    then show "x \<in> dom H" unfolding R_def
    proof (induction rule: closure.induct)
      case (root p)
      then obtain t f where "(p, t, f) \<in> set (all_root_edges custom rff s')" by auto
      then show ?case using rt root(2) by blast
    qed (use pt in blast)
  qed
  have fit': "filters_fit custom ?t typed pts" using fit by (simp add: filters_fit_def gc_reset_edges)
  have rf': "rff i \<noteq> None" if "i < MAX_ROOTS" "\<not> CrossPtr_is_null (roots ?t i)" for i
    using rf [OF that(1)] that(2) by (simp add: gc_reset_def)
  have rt': "typed q t f" if "(q, t, f) \<in> set (all_root_edges custom rff ?t)" for q t f
    using rt that unfolding gc_reset_edges by blast
  obtain c0 c where c: "mark_roots custom rff ?t GarbageCollection_new = Inr c0" "c = mark_loop custom ?t c0"
    "sorted (marked_blk c)" "distinct (marked_blk c)" "set (marked_blk c) = R"
    using gc_marks_closure [where rff = rff, OF fit' rf' rt'] unfolding gc_reset_edges R_def by blast
  have "set (marked_blk c) \<subseteq> users g" using sub g(4) unfolding c(5) by (simp add: dom_live)
  from crash_image_ok [OF g(1-3) _ this] img g(4) have ok: "crash_ok ?t (nsb g) (kind g) (set (marked_blk c))" by simp
  have z: "avail_sb ?t = 0" "\<And>sc. sc < MAX_SZ_IDX \<Longrightarrow> partial_list (heaps ?t sc) = 0" by (simp_all add: gc_reset_def)
  obtain s2 g2 where s2: "gc_sweep (marked_blk c) ?t = Inr s2" "heap_inv s2 g2" "nsb g2 = nsb g" "held g2 = {}"
    "users g2 = set (marked_blk c)"
    "\<And>b. b \<in> set (marked_blk c) \<Longrightarrow> msize s2 b = msize ?t b" "\<And>b x. b \<in> set (marked_blk c) \<Longrightarrow> x \<in> extent ?t b \<Longrightarrow> mem s2 x = mem ?t x"
    using gc_sweep_ok [OF ok c(3,4) z] by blast
  have ms: "msize ?t = msize s"
    using img by (simp add: gc_reset_edges msize_def desc_lookup_def crash_image_def fun_eq_iff)
  have "live s2 g2 = H |` R"
  proof
    fix b
    show "live s2 g2 b = (H |` R) b"
    proof (cases "b \<in> R")
      case True
      have bu: "b \<in> users g" "b \<in> users g2" using True sub g(4) s2(5) c(5) by (auto simp: dom_live)
      have "live s2 g2 b = live s g b"
      proof (rule live_cong [OF bu])
        show "msize s2 b = msize s b" using s2(6) [of b] True c(5) ms by simp
        show "\<forall>x \<in> extent s b. mem s2 x = mem s x"
        proof
          fix x assume x: "x \<in> extent s b"
          then have "mem s2 x = mem ?t x" using s2(7) [of b x] True c(5) ms by (simp add: extent_def)
          also have "\<dots> = mem s x"
            using img x bu(1) range_live [OF bu(1)] g(4) by (auto simp: crash_image_def gc_reset_def dom_live)
          finally show "mem s2 x = mem s x" .
        qed
      qed
      then show ?thesis using True g(4) by simp
    next
      case False
      then show ?thesis using s2(5) c(5) by (simp add: live_def)
    qed
  qed
  then have "represents s2 (H |` R)" using s2(2-4) g(2) by (auto simp: represents_def)
  moreover have "gc_run custom rff s' = Inr (card R, s2)"
    using c s2(1) distinct_card [OF c(4)] by (simp add: gc_run_def Let_def)
  ultimately show ?thesis using sub by blast
qed

section \<open>Recovery and marking, stated\<close>

text \<open>C6: marking is reachability. If every non-null root has a filter and the filters make the marks of the
  pointers in their blocks, the traversal ends and marks exactly the addresses of the superblock region that
  are reachable from the roots, each once and in the order the sweep needs.\<close>

theorem marking_is_reachability:
  assumes "filters_fit custom s typed pts"
    and "\<And>i. i < MAX_ROOTS \<Longrightarrow> \<not> CrossPtr_is_null (roots s i) \<Longrightarrow> rff i \<noteq> None"
    and "\<And>q t f. (q, t, f) \<in> set (all_root_edges custom rff s) \<Longrightarrow> typed q t f"
  shows "\<exists>c0 c. mark_roots custom rff s GarbageCollection_new = Inr c0 \<and> c = mark_loop custom s c0 \<and>
    sorted (marked_blk c) \<and> distinct (marked_blk c) \<and>
    set (marked_blk c) = closure (in_sb s) (fst ` set (all_root_edges custom rff s)) pts"
  by (rule gc_marks_closure [OF assms])

text \<open>A heap with one root, to a block that points to another one.\<close>

definition two_blocks :: ralloc where
  "two_blocks = (boot_state 0)\<lparr>roots := (\<lambda>i. if i = 3 then 64 else 0)\<rparr>"

definition two_filters :: custom_filters where
  "two_filters k p t = (if k = 0 then [(p, t, Custom 1)] else if p = 64 then [(128, t, Custom 1)] else [])"

lemma all_root_edges_one:
  assumes "j < MAX_ROOTS" and "\<And>i. i \<noteq> j \<Longrightarrow> root_edges custom rff s i = []"
  shows "all_root_edges custom rff s = root_edges custom rff s j"
proof -
  have "[0..<MAX_ROOTS] = [0..<j] @ j # [Suc j..<MAX_ROOTS]"
    using assms(1) upt_add_eq_append [of 0 j "MAX_ROOTS - j"] by (simp add: upt_conv_Cons)
  moreover have "concat (map (root_edges custom rff s) [0..<j]) = []" "concat (map (root_edges custom rff s) [Suc j..<MAX_ROOTS]) = []"
    using assms(2) by auto
  ultimately show ?thesis by (simp only: all_root_edges_def map_append list.map concat_append concat.simps append_Nil append_Nil2)
qed

lemma two_blocks_edges:
  "all_root_edges two_filters (\<lambda>_. Some (RootCustom 0)) two_blocks = [(64, 3, Custom 1)]"
proof -
  have "all_root_edges two_filters (\<lambda>_. Some (RootCustom 0)) two_blocks = root_edges two_filters (\<lambda>_. Some (RootCustom 0)) two_blocks 3"
    by (rule all_root_edges_one) (auto simp: root_edges_def two_blocks_def CrossPtr_is_null_def pm_consts)
  then show ?thesis
    by (simp add: root_edges_def two_blocks_def CrossPtr_is_null_def CrossPtr_cast_def translate_def boot_state_def two_filters_def)
qed

theorem marking_is_reachability_witness:
  "\<exists>c0. mark_roots two_filters (\<lambda>_. Some (RootCustom 0)) two_blocks GarbageCollection_new = Inr c0 \<and>
    {64, 128} \<subseteq> set (marked_blk (mark_loop two_filters two_blocks c0))"
proof -
  let ?pts = "\<lambda>p. if p = 64 then {128} else {}" and ?ty = "\<lambda>_ _ f. f = Custom 1"
  have fit: "filters_fit two_filters two_blocks ?ty ?pts"
    by (auto simp: filters_fit_def filter_edges_def two_filters_def)
  obtain c0 where c: "mark_roots two_filters (\<lambda>_. Some (RootCustom 0)) two_blocks GarbageCollection_new = Inr c0"
    "set (marked_blk (mark_loop two_filters two_blocks c0)) = closure (in_sb two_blocks) {64} ?pts"
    using marking_is_reachability [OF fit, of "\<lambda>_. Some (RootCustom 0)"] by (auto simp: two_blocks_edges)
  have rng: "in_sb two_blocks 64" "in_sb two_blocks 128"
    using region_at_curr [OF boot_region_at, of 0] by (simp_all add: in_range_def two_blocks_def boot_state_def)
  have 1: "64 \<in> closure (in_sb two_blocks) {64} ?pts" by (rule closure.root) (simp_all add: rng)
  have "128 \<in> closure (in_sb two_blocks) {64} ?pts" by (rule closure.step [OF 1]) (simp_all add: rng)
  with 1 c show ?thesis by auto
qed

text \<open>C4: recovery. After a crash of a quiescent heap, garbage collection succeeds, counts the reachable blocks and rebuilds
  all lists of the allocator, so that the invariant holds again; the program keeps exactly the blocks that its roots
  reach, each with its bytes, and all other blocks are free.\<close>

theorem recovery_restores_reachable:
  assumes "represents s H" and "crash_image s H s'" and "filters_fit custom s' typed pts"
    and "\<And>i. i < MAX_ROOTS \<Longrightarrow> \<not> CrossPtr_is_null (roots s' i) \<Longrightarrow> rff i \<noteq> None"
    and "\<And>q t f. (q, t, f) \<in> set (all_root_edges custom rff s') \<Longrightarrow> typed q t f \<and> (in_sb s' q \<longrightarrow> q \<in> dom H)"
    and "\<And>p q. p \<in> dom H \<Longrightarrow> q \<in> pts p \<Longrightarrow> in_sb s' q \<Longrightarrow> q \<in> dom H"
    and "R = closure (in_sb s') (fst ` set (all_root_edges custom rff s')) pts"
  shows "\<exists>s''. gc_run custom rff s' = Inr (card R, s'') \<and> represents s'' (H |` R) \<and> R \<subseteq> dom H"
  using recovery_ok [OF assms(1-6)] assms(7) by simp

text \<open>One block hangs off root 3, no pointers inside.\<close>

definition leaf_filters :: custom_filters where
  "leaf_filters k p t = (if k = 0 then [(p, t, Custom 1)] else [])"

definition leaf_roots :: "nat \<Rightarrow> root_filter option" where
  "leaf_roots i = Some (RootCustom (if i = 3 then 0 else 1))"

lemma leaf_edges:
  assumes "represents s H" and "p \<in> dom H" and "roots s 3 = CrossPtr_assign (sb_start s) p"
  shows "all_root_edges leaf_filters leaf_roots s = [(p, 3, Custom 1)]"
proof -
  note h = represents_in_heap [OF assms(1,2)]
  have "roots s 3 \<noteq> 0" using h(1) unat_untranslate [of p "sb_start s"] h(3) assms(3) by (auto simp: CrossPtr_assign_def)
  then have c: "\<not> CrossPtr_is_null (roots s 3)" "CrossPtr_cast (sb_start s) (roots s 3) = p"
    using assms(3) by (simp_all add: CrossPtr_is_null_def CrossPtr_cast_def CrossPtr_assign_def translate_untranslate [OF h(3)])
  have "all_root_edges leaf_filters leaf_roots s = root_edges leaf_filters leaf_roots s 3"
    by (rule all_root_edges_one) (auto simp: root_edges_def leaf_roots_def leaf_filters_def pm_consts)
  then show ?thesis using c by (simp add: root_edges_def leaf_roots_def leaf_filters_def)
qed

definition empty_caches :: "ralloc \<Rightarrow> ralloc" where
  "empty_caches s = s\<lparr>t_cache := \<lambda>_ _. TCacheBin_new\<rparr>"

text \<open>The hypotheses of recovery, for a heap of one block that hangs off root 3, with the caches lost in the crash.\<close>

lemma leaf_crash:
  assumes rep: "represents s H" and p: "dom H = {p}" and r: "roots s 3 = CrossPtr_assign (sb_start s) p"
  shows "crash_image s H (empty_caches s)" "filters_fit leaf_filters (empty_caches s) (\<lambda>_ _ f. f = Custom 1) (\<lambda>_. {})"
    "all_root_edges leaf_filters leaf_roots (empty_caches s) = [(p, 3, Custom 1)]"
    "{p} = closure (in_sb (empty_caches s)) (fst ` set (all_root_edges leaf_filters leaf_roots (empty_caches s))) (\<lambda>_. {})"
proof -
  have pH: "p \<in> dom H" using p by blast
  show "crash_image s H (empty_caches s)" by (simp add: crash_image_def empty_caches_def TCacheBin_new_def)
  show "filters_fit leaf_filters (empty_caches s) (\<lambda>_ _ f. f = Custom 1) (\<lambda>_. {})"
    by (auto simp: filters_fit_def filter_edges_def leaf_filters_def)
  have "root_edges leaf_filters leaf_roots (empty_caches s) = root_edges leaf_filters leaf_roots s"
    by (rule root_edges_cong) (simp_all add: empty_caches_def)
  then show es: "all_root_edges leaf_filters leaf_roots (empty_caches s) = [(p, 3, Custom 1)]"
    using leaf_edges [OF rep pH r] by (simp only: all_root_edges_def)
  have "closure (in_sb (empty_caches s)) {p} (\<lambda>_. {}) = {p}"
    using represents_in_heap(2) [OF rep pH] by (auto simp: empty_caches_def elim: closure.cases intro: closure.root)
  then show "{p} = closure (in_sb (empty_caches s)) (fst ` set (all_root_edges leaf_filters leaf_roots (empty_caches s))) (\<lambda>_. {})"
    unfolding es by simp
qed

theorem recovery_restores_reachable_witness:
  "\<exists>s p s1 q s2 s' H. BaseMeta_new (boot_state 0) = Inr s \<and> do_malloc 0 100 s = Inr (p, s1) \<and> set_root p 3 s1 = Inr (q, s2) \<and>
    gc_run leaf_filters leaf_roots (empty_caches s2) = Inr (1, s') \<and> represents s' H \<and> dom H = {p}"
proof -
  obtain s where s: "BaseMeta_new (boot_state 0) = Inr s" "represents s Map.empty" using boot_reach by blast
  obtain p s1 where m: "do_malloc 0 100 s = Inr (p, s1)"
    using boot_malloc [OF _ s(1), of 100 0] boot_state_ok [of 0] by (auto simp: pm_consts)
  define H where "H = [p \<mapsto> map (mem s1) [p..<p + msize s1 p]]"
  have "100 + SBSIZE \<le> 2 ^ 32" by (simp add: pm_consts)
  then have "represents s1 H" using represents_malloc [OF s(2) _ m] by (simp add: H_def)
  moreover obtain q s2 where r: "set_root p 3 s1 = Inr (q, s2)" "roots s2 3 = CrossPtr_assign (sb_start s2) p"
    by (simp add: set_root_def check_def pm_consts)
  ultimately have rep: "represents s2 H" using represents_set_root by blast
  have pH: "dom H = {p}" by (simp add: H_def)
  note lc = leaf_crash [OF rep pH r(2)]
  have ty: "q' = p \<and> f = Custom 1" if "(q', t, f) \<in> set (all_root_edges leaf_filters leaf_roots (empty_caches s2))" for q' t f
    using that unfolding lc(3) by simp
  obtain s' where s': "gc_run leaf_filters leaf_roots (empty_caches s2) = Inr (card {p}, s')" "represents s' (H |` {p})"
    using recovery_restores_reachable [OF rep lc(1,2) _ _ _ lc(4)] ty pH unfolding leaf_roots_def by blast
  have "dom (H |` {p}) = {p}" using pH by auto
  moreover have "card {p} = 1" by simp
  ultimately show ?thesis using s(1) m r(1) s' by metis
qed

end
