(* ===== verification/Relocate.thy ===== *)
theory Relocate
  imports Recovery
begin

text \<open>
  A heap whose files are mapped elsewhere. Descriptors are linked by self-relative words, list heads, superblocks
  and roots are offsets from the start of their region, and free blocks are linked by self-relative words, so the
  bytes of the files mean the same heap at any address, as long as the file of the superblocks moves by a multiple
  of the superblock size. The thread caches alone hold absolute addresses; they belong to the process.
\<close>

section \<open>Moved addresses\<close>

text \<open>The address of what lay at \<open>a\<close> when the file at \<open>b\<close> is mapped at \<open>b'\<close>.\<close>

definition moved :: "addr \<Rightarrow> addr \<Rightarrow> addr \<Rightarrow> addr" where
  "moved b b' a = a - b + b'"

definition moved_view :: "addr \<Rightarrow> addr \<Rightarrow> heap_view \<Rightarrow> heap_view" where
  "moved_view b b' H a = (if b' \<le> a then H (moved b' b a) else None)"

lemma moved_inverse [simp]: "b \<le> a \<Longrightarrow> moved b' b (moved b b' a) = a"
  by (simp add: moved_def)

lemma moved_ge [simp]: "b' \<le> moved b b' a"
  by (simp add: moved_def)

lemma moved_add: "b \<le> a \<Longrightarrow> moved b b' (a + k) = moved b b' a + k"
  by (simp add: moved_def)

lemma moved_int: "b \<le> a \<Longrightarrow> int (moved b b' a) = int a - int b + int b'"
  by (simp add: moved_def)

lemma moved_eq_iff: "b \<le> x \<Longrightarrow> b \<le> y \<Longrightarrow> moved b b' x = moved b b' y \<longleftrightarrow> x = y"
  by (auto simp: moved_def)

lemma moved_view_moved [simp]: "b \<le> a \<Longrightarrow> moved_view b b' H (moved b b' a) = H a"
  by (simp add: moved_view_def)

section \<open>Moved words\<close>

text \<open>The words of the files at a moved place: what they point to has moved along.\<close>

lemma word_of_moved:
  assumes "int a' - int p' = int a - int p"
  shows "(of_nat a' :: u64) = of_nat p' + (of_nat a - of_nat p)"
proof -
  have "int a' = int p' + (int a - int p)" using assms by linarith
  then have "(of_int (int a') :: u64) = of_int (int p' + (int a - int p))" by (simp only:)
  then show ?thesis by (simp only: of_int_add of_int_diff of_int_of_nat_eq)
qed

lemma pptr_load_moved:
  assumes "atomic_pptr_load p w = a" and "a \<noteq> 0" and "int a' - int p' = int a - int p" and "user_addr a'"
  shows "atomic_pptr_load p' w = a'"
proof -
  have v: "is_valid_pptr w" "\<not> is_null_pptr w"
    using assms(1,2) by (auto simp: atomic_pptr_load_def from_pptr_off_def split: if_splits)
  have "(of_nat a :: u64) = from_pptr_off w (of_nat p)" using assms(1) by (auto simp: atomic_pptr_load_def)
  then have "from_pptr_off w (of_nat p') = (of_nat a' :: u64)"
    unfolding word_of_moved [OF assms(3)] using v by (auto simp: from_pptr_off_def)
  then show ?thesis using assms(4) by (simp add: atomic_pptr_load_def unat_of_nat_user)
qed

lemma checked_load_moved:
  assumes "checked_load p w = a" and "a \<noteq> 0" and "a \<noteq> 1" and "int a' - int p' = int a - int p" and "user_addr a'" and "a' \<noteq> 0"
  shows "checked_load p' w = a'"
proof -
  have "atomic_pptr_load p w = a" "\<not> is_null_pptr w" using assms(1-3) by (auto simp: checked_load_def split: if_splits)
  then show ?thesis using pptr_load_moved [OF _ assms(2,4,5)] assms(6) by (simp add: checked_load_def)
qed

lemma checked_load_null: "checked_load p w = 0 \<Longrightarrow> checked_load p' w = 0"
  by (auto simp: checked_load_def split: if_splits)

lemma translate_moved:
  assumes "translate start w = a" and "int a' - int start' = int a - int start" and "user_addr a'"
  shows "translate start' w = a'"
proof -
  have "(of_nat a :: u64) = of_nat start + w" using assms(1) by (auto simp: translate_def)
  then have "of_nat start' + w = (of_nat a' :: u64)" unfolding word_of_moved [OF assms(2)] by simp
  then show ?thesis using assms(3) by (simp add: translate_def unat_of_nat_user)
qed

lemma CrossPtr_moved:
  assumes "CrossPtr_cast start w = a" and "a \<noteq> 0" and "int a' - int start' = int a - int start" and "user_addr a'"
  shows "CrossPtr_cast start' w = a'"
  using assms translate_moved [of start w a a' start'] by (auto simp: CrossPtr_cast_def split: if_splits)

lemma acp_moved:
  assumes "pc_ptr (acp_load start w) = a" and "a \<noteq> 0" and "int a' - int start' = int a - int start" and "user_addr a'"
  shows "pc_ptr (acp_load start' w) = a'"
  using assms translate_moved [of start "take_bit 30 w" a a' start'] by (auto simp: acp_load_alt split: if_splits)

lemma acp_null_moved:
  assumes "acp_start start" and "0 < start" and "pc_ptr (acp_load start w) = 0"
  shows "pc_ptr (acp_load start' w) = 0"
  using assms translate_low(1) [OF assms(1), of w] by (auto simp: acp_load_alt split: if_splits)

lemma read_pptr_moved:
  assumes "\<And>k. k < 8 \<Longrightarrow> m' (x' + k) = m (x + k)" and "read_pptr m x = y" and "y \<noteq> 0"
    and "int y' - int x' = int y - int x" and "user_addr y'"
  shows "read_pptr m' x' = y'"
proof -
  have "load64 m' x' = load64 m x" using assms(1) [of 0] assms(1) [of 1] assms(1) [of 2] assms(1) [of 3] assms(1) [of 4]
      assms(1) [of 5] assms(1) [of 6] assms(1) [of 7] by (simp add: load64_def)
  then show ?thesis
    using pptr_load_moved [OF _ assms(3-5), of "load64 m x"] assms(2)
    by (simp add: read_pptr_def pptr_cast_def atomic_pptr_load_def)
qed

section \<open>Moved lists\<close>

lemma chain_moved:
  assumes "chain f p (map h xs) 0" and "p = 0 \<Longrightarrow> p' = 0" and "\<And>j. j \<in> set xs \<Longrightarrow> p = h j \<Longrightarrow> p' = h' j"
    and "\<And>i. i \<in> set xs \<Longrightarrow> f (h i) = 0 \<Longrightarrow> f' (h' i) = 0"
    and "\<And>i j. i \<in> set xs \<Longrightarrow> j \<in> set xs \<Longrightarrow> f (h i) = h j \<Longrightarrow> f' (h' i) = h' j"
  shows "chain f' p' (map h' xs) 0"
  using assms
proof (induction xs arbitrary: p p')
  case (Cons x xs)
  have p: "p = h x" "chain f (f (h x)) (map h xs) 0" using Cons.prems(1) by simp_all
  have "chain f' (f' (h' x)) (map h' xs) 0"
    by (rule Cons.IH [OF p(2)]) (use Cons.prems(4,5) in auto)
  then show ?case using Cons.prems(3) [of x] p(1) by simp
qed simp

lemma run_moved:
  assumes "run f p xs" and "\<And>x y. x \<in> set xs \<Longrightarrow> y \<in> set xs \<Longrightarrow> f x = y \<Longrightarrow> f' (h x) = h y"
  shows "run f' (h p) (map h xs)"
  using assms
proof (induction xs arbitrary: p)
  case (Cons x xs)
  have p: "p = x" "run f (f x) xs" using Cons.prems(1) by (auto simp: run_def)
  show ?case
  proof (cases xs)
    case Nil
    then show ?thesis using p(1) by (simp add: run_def)
  next
    case ys: (Cons y ys)
    have fx: "f x = y" using p(2) ys by (auto simp: run_def)
    have "run f' (h y) (map h xs)" using Cons.IH [of y] Cons.prems(2) p(2) fx by simp
    moreover have "f' (h x) = h y" using Cons.prems(2) [of x y] fx ys by simp
    ultimately show ?thesis using p(1) by (simp add: run_def)
  qed
qed (simp add: run_def)

section \<open>A remapped heap\<close>

text \<open>
  The state \<open>s'\<close> is \<open>s\<close> with its files mapped elsewhere, up to the bytes behind the frontier, and the thread caches adjusted
  to the move; \<open>well_placed\<close> says what the new addresses have to be.
\<close>

definition remapped :: "ralloc \<Rightarrow> ralloc \<Rightarrow> bool" where
  "remapped s s' \<longleftrightarrow>
    (let b = base_addr (sb_region s); b' = base_addr (sb_region s')
     in sb_region s' = (sb_region s)\<lparr>base_addr := b'\<rparr> \<and> sb_start s' = moved b b' (sb_start s) \<and>
       desc_of s' = desc_of s \<and> avail_sb s' = avail_sb s \<and> heaps s' = heaps s \<and> roots s' = roots s \<and>
       (\<forall>x. b \<le> x \<longrightarrow> x < curr_addr (sb_region s) \<longrightarrow> mem s' (moved b b' x) = mem s x) \<and>
       (\<forall>t sc. tc_num (t_cache s' t sc) = tc_num (t_cache s t sc) \<and>
         tc_block (t_cache s' t sc) = moved b b' (tc_block (t_cache s t sc))))"

definition well_placed :: "ralloc \<Rightarrow> bool" where
  "well_placed s \<longleftrightarrow> user_addr (base_addr (sb_region s) + FILESIZE (sb_region s)) \<and> SBSIZE dvd sb_start s \<and>
    DESCSIZE dvd desc_start s \<and> acp_start (desc_start s) \<and> 0 < desc_start s"

definition moved_ghost :: "addr \<Rightarrow> addr \<Rightarrow> ghost \<Rightarrow> ghost" where
  "moved_ghost b b' g = g\<lparr>own := (\<lambda>a. if b' \<le> a then own g (moved b' b a) else NoBlock),
    fl := (\<lambda>i. map (moved b b') (fl g i)), cached := (\<lambda>t sc. map (moved b b') (cached g t sc))\<rparr>"

abbreviation reb :: "ralloc \<Rightarrow> ralloc \<Rightarrow> addr \<Rightarrow> addr" where
  "reb s s' \<equiv> moved (base_addr (sb_region s)) (base_addr (sb_region s'))"

abbreviation reg :: "ralloc \<Rightarrow> ralloc \<Rightarrow> ghost \<Rightarrow> ghost" where
  "reg s s' \<equiv> moved_ghost (base_addr (sb_region s)) (base_addr (sb_region s'))"

lemma moved_ghost_simps [simp]:
  "nsb (moved_ghost b b' g) = nsb g" "kind (moved_ghost b b' g) = kind g" "free (moved_ghost b b' g) = free g"
  "part (moved_ghost b b' g) = part g" "used (moved_ghost b b' g) = used g" "held (moved_ghost b b' g) = held g"
  "fl (moved_ghost b b' g) i = map (moved b b') (fl g i)" "cached (moved_ghost b b' g) t sc = map (moved b b') (cached g t sc)"
  "b \<le> a \<Longrightarrow> own (moved_ghost b b' g) (moved b b' a) = own g a"
  by (simp_all add: moved_ghost_def used_def held_def fun_eq_iff)

lemma remapD:
  assumes "remapped s s'"
  shows "sb_region s' = (sb_region s)\<lparr>base_addr := base_addr (sb_region s')\<rparr>" "sb_start s' = reb s s' (sb_start s)"
    "desc_of s' = desc_of s" "avail_sb s' = avail_sb s" "heaps s' = heaps s" "roots s' = roots s"
    "base_addr (sb_region s) \<le> x \<Longrightarrow> x < curr_addr (sb_region s) \<Longrightarrow> mem s' (reb s s' x) = mem s x"
    "tc_num (t_cache s' t sc) = tc_num (t_cache s t sc)" "tc_block (t_cache s' t sc) = reb s s' (tc_block (t_cache s t sc))"
    "FILESIZE (sb_region s') = FILESIZE (sb_region s)"
proof -
  show r: "sb_region s' = (sb_region s)\<lparr>base_addr := base_addr (sb_region s')\<rparr>"
    using assms by (simp add: remapped_def Let_def)
  have "FILESIZE (sb_region s') = FILESIZE ((sb_region s)\<lparr>base_addr := base_addr (sb_region s')\<rparr>)" by (subst r) (rule refl)
  then show "FILESIZE (sb_region s') = FILESIZE (sb_region s)" by simp
qed (use assms in \<open>simp_all add: remapped_def Let_def\<close>)

lemma geom_base:
  assumes "geom s n"
  shows "base_addr (sb_region s) < sb_start s" "base_addr (sb_region s) \<le> sbk s i"
    "i < n \<Longrightarrow> sbk s i + SBSIZE \<le> curr_addr (sb_region s)" "curr_addr (sb_region s) \<le> base_addr (sb_region s) + FILESIZE (sb_region s)"
    "curr_addr (sb_region s) = sbk s n"
proof -
  show b: "base_addr (sb_region s) < sb_start s" using assms by (simp add: geom_def)
  then show "base_addr (sb_region s) \<le> sbk s i" by (simp add: sbk_def)
  have ra: "region_at (sb_region s) (sbk s n)" using assms by (simp add: geom_def sbk_def)
  show c: "curr_addr (sb_region s) = sbk s n" by (rule region_at_curr [OF ra])
  show "curr_addr (sb_region s) \<le> base_addr (sb_region s) + FILESIZE (sb_region s)" unfolding c using ra by (simp add: region_at_def)
  show "i < n \<Longrightarrow> sbk s i + SBSIZE \<le> curr_addr (sb_region s)" unfolding c by (rule sbk_mono)
qed

lemma store_moved:
  assumes "p < a" and "user_addr a" and "user_addr a'" and "int a' - int p' = int a - int p"
  shows "atomic_pptr_store p' a' = atomic_pptr_store p a"
proof -
  have lt: "p' < a'" and u: "user_addr p" "user_addr p'" using assms by (auto simp: user_addr_def)
  have w: "(of_nat p :: u64) < of_nat a" "(of_nat p' :: u64) < of_nat a'"
    using assms(1) lt assms(2,3) u by (simp_all add: word_less_nat_alt unat_of_nat_user)
  then have nz: "(of_nat a :: u64) \<noteq> 0" "(of_nat a' :: u64) \<noteq> 0" by auto
  have "(of_nat a' :: u64) - of_nat p' = of_nat a - of_nat p" unfolding word_of_moved [OF assms(4)] by simp
  then show ?thesis using w nz by (simp add: atomic_pptr_store_def to_pptr_off_def)
qed

lemma geom_moved:
  assumes g: "geom s n" and rm: "remapped s s'" and pl: "well_placed s'"
  shows "geom s' n"
proof -
  note r = remapD [OF rm] and b = geom_base(1) [OF g]
  let ?c = "sb_start s + n * SBSIZE" and ?c' = "sb_start s' + n * SBSIZE"
  have ra: "region_at (sb_region s) ?c" and top: "base_addr (sb_region s) + FILESIZE (sb_region s) < sb_start s + (MAX_SB_AMOUNT + 1) * SBSIZE"
    using g by (simp_all add: geom_def)
  have d: "int (sb_start s') = int (sb_start s) - int (base_addr (sb_region s)) + int (base_addr (sb_region s'))"
    unfolding r(2) using b by (intro moved_int) simp
  have c: "?c \<le> base_addr (sb_region s) + FILESIZE (sb_region s)" "user_addr ?c" "base_addr (sb_region s) < ?c"
    using ra by (auto simp: region_at_def user_addr_def)
  have le: "?c' \<le> base_addr (sb_region s') + FILESIZE (sb_region s')" using c(1) d r(10) by linarith
  then have u: "user_addr ?c'" using pl by (simp add: well_placed_def user_addr_def)
  have "atomic_pptr_store (base_addr (sb_region s')) ?c' = atomic_pptr_store (base_addr (sb_region s)) ?c"
    by (rule store_moved [OF c(3,2) u]) (use d in simp)
  moreover have "hdr (sb_region s') = hdr (sb_region s)" by (subst r(1)) simp
  moreover have "base_addr (sb_region s') < sb_start s'" using d b by linarith
  ultimately have "region_at (sb_region s') ?c'" using ra le pl by (simp add: region_at_def well_placed_def)
  moreover have "base_addr (sb_region s') + FILESIZE (sb_region s') < sb_start s' + (MAX_SB_AMOUNT + 1) * SBSIZE"
    using top d r(10) by linarith
  ultimately show ?thesis using \<open>base_addr (sb_region s') < sb_start s'\<close> pl by (simp add: geom_def well_placed_def)
qed

lemma sbk_moved:
  assumes "geom s n" and "remapped s s'"
  shows "sbk s' i = reb s s' (sbk s i)"
  using geom_base(1) [OF assms(1)] by (simp add: sbk_def remapD(2) [OF assms(2)] moved_add)

lemma blocks_moved:
  assumes "geom s n" and "remapped s s'"
  shows "blocks s' sc i = reb s s' ` blocks s sc i"
  using geom_base(2) [OF assms(1), of i] by (simp add: blocks_def sbk_moved [OF assms] image_image moved_add)

lemma blocks_base: "geom s n \<Longrightarrow> x \<in> blocks s sc i \<Longrightarrow> base_addr (sb_region s) \<le> x"
  using geom_base(2) [of s n i] by (auto simp: blocks_def intro: trans_le_add1)

lemma dsc_diff: "int (dsc s' j) - int (dsc s' i) = int (dsc s j) - int (dsc s i)"
  by (simp add: dsc_def)

section \<open>The invariant of a remapped heap\<close>

lemma free_ok_moved:
  assumes inv: "heap_inv s g" and rm: "remapped s s'" and pl: "well_placed s'"
  shows "free_ok s' (reg s s' g)"
proof -
  note iv = heap_invD [OF inv] and r = remapD [OF rm]
  note gm = geom_moved [OF iv(1) rm pl]
  have f: "set (free g) = {i. used g i \<and> kind g i = Free}" "distinct (free g)"
    "chain (free_link (descs s)) (pc_ptr (acp_load (desc_start s) (avail_sb s))) (map (dsc s) (free g)) 0"
    using iv(2) by (simp_all add: free_ok_def)
  have u: "user_addr (dsc s' j)" if "j \<in> set (free g)" for j
    using that geom_bounds(5) [OF gm, of j] unfolding f(1) by (simp add: desc_addr_ok_def user_addr_def used_def)
  have "chain (free_link (descs s')) (pc_ptr (acp_load (desc_start s') (avail_sb s'))) (map (dsc s') (free g)) 0"
  proof (rule chain_moved [OF f(3)])
    have "acp_start (desc_start s)" "0 < desc_start s" using iv(1) by (simp_all add: geom_def)
    then show "pc_ptr (acp_load (desc_start s) (avail_sb s)) = 0 \<Longrightarrow> pc_ptr (acp_load (desc_start s') (avail_sb s')) = 0"
      unfolding r(4) by (rule acp_null_moved)
  next
    fix j assume j: "j \<in> set (free g)" "pc_ptr (acp_load (desc_start s) (avail_sb s)) = dsc s j"
    show "pc_ptr (acp_load (desc_start s') (avail_sb s')) = dsc s' j" unfolding r(4)
      by (rule acp_moved [OF j(2) geom_bounds(7) [OF iv(1)] _ u [OF j(1)]]) (simp add: dsc_def)
  next
    fix i assume "free_link (descs s) (dsc s i) = 0"
    then show "free_link (descs s') (dsc s' i) = 0" unfolding free_link_dsc r(3) by (rule checked_load_null)
  next
    fix i j assume j: "j \<in> set (free g)" "free_link (descs s) (dsc s i) = dsc s j"
    show "free_link (descs s') (dsc s' i) = dsc s' j" unfolding free_link_dsc r(3)
      by (rule checked_load_moved [OF j(2) [unfolded free_link_dsc] geom_bounds(7) [OF iv(1)] dsc_not_one [OF iv(1)] dsc_diff u [OF j(1)]
            geom_bounds(7) [OF gm]])
  qed
  then show ?thesis using f(1,2) by (simp add: free_ok_def)
qed

lemma part_ok_moved:
  assumes inv: "heap_inv s g" and rm: "remapped s s'" and pl: "well_placed s'"
  shows "part_ok s' (reg s s' g)"
proof -
  note iv = heap_invD [OF inv] and r = remapD [OF rm]
  note gm = geom_moved [OF iv(1) rm pl]
  have nf: "nonfull s' (reg s s' g) = nonfull s g" by (simp add: nonfull_def r(3) fun_eq_iff)
  have "part_list_ok s' (reg s s' g) sc" if sc: "sc_ok sc" for sc
  proof -
    let ?w = "partial_list (heaps s sc)"
    have f: "set (part g sc) = {i. nonfull s g sc i}" "distinct (part g sc)"
      "chain (partial_link (descs s)) (pc_ptr (acp_load (desc_start s) ?w)) (map (dsc s) (part g sc)) 0"
      using iv(3) sc by (simp_all add: part_ok_def part_list_ok_def)
    have u: "user_addr (dsc s' j)" if "j \<in> set (part g sc)" for j
      using that geom_bounds(5) [OF gm, of j] unfolding f(1) by (simp add: desc_addr_ok_def user_addr_def used_def nonfull_def)
    have "chain (partial_link (descs s')) (pc_ptr (acp_load (desc_start s') ?w)) (map (dsc s') (part g sc)) 0"
    proof (rule chain_moved [OF f(3)])
      have "acp_start (desc_start s)" "0 < desc_start s" using iv(1) by (simp_all add: geom_def)
      then show "pc_ptr (acp_load (desc_start s) ?w) = 0 \<Longrightarrow> pc_ptr (acp_load (desc_start s') ?w) = 0"
        by (rule acp_null_moved)
    next
      fix j assume j: "j \<in> set (part g sc)" "pc_ptr (acp_load (desc_start s) ?w) = dsc s j"
      show "pc_ptr (acp_load (desc_start s') ?w) = dsc s' j"
        by (rule acp_moved [OF j(2) geom_bounds(7) [OF iv(1)] _ u [OF j(1)]]) (simp add: dsc_def)
    next
      fix i assume "partial_link (descs s) (dsc s i) = 0"
      then show "partial_link (descs s') (dsc s' i) = 0" unfolding partial_link_dsc r(3) by (rule checked_load_null)
    next
      fix i j assume j: "j \<in> set (part g sc)" "partial_link (descs s) (dsc s i) = dsc s j"
      show "partial_link (descs s') (dsc s' i) = dsc s' j" unfolding partial_link_dsc r(3)
        by (rule checked_load_moved [OF j(2) [unfolded partial_link_dsc] geom_bounds(7) [OF iv(1)] dsc_not_one [OF iv(1)] _ u [OF j(1)]
              geom_bounds(7) [OF gm]]) (simp add: dsc_def)
    qed
    then show ?thesis using f(1,2) by (simp add: part_list_ok_def nf r(5))
  qed
  then show ?thesis using iv(3) by (simp add: part_ok_def r(5))
qed

text \<open>The links inside the blocks of a superblock.\<close>

lemma block_link_moved:
  assumes inv: "heap_inv s g" and rm: "remapped s s'" and pl: "well_placed s'"
    and x: "small_blk s g x i sc" and y: "small_blk s g y j sc'" and l: "read_pptr (mem s) x = y"
  shows "read_pptr (mem s') (reb s s' x) = reb s s' y"
proof -
  note iv = heap_invD [OF inv] and r = remapD [OF rm]
  note gm = geom_moved [OF iv(1) rm pl]
  have sc: "sc_ok sc" "sc_ok sc'" "used g i" "used g j" "x \<in> blocks s sc i" "y \<in> blocks s sc' j"
    using x y small_ok_sc [OF iv(4)] by (auto simp: small_blk_def)
  have bx: "base_addr (sb_region s) \<le> x" "base_addr (sb_region s) \<le> y" using blocks_base [OF iv(1)] sc(5,6) by blast+
  have "x + 8 \<le> sbk s i + SBSIZE"
    using blocks_in_sb(2) [OF sc(5,1)] bsize_props(1) [of sc] sc(1) by (simp add: sc_ok_def)
  then have in_file: "x + k < curr_addr (sb_region s)" if "k < 8" for k
    using that geom_base(3) [OF iv(1), of i] sc(3) by (simp add: used_def)
  have y0: "y \<noteq> 0" using blocks_in_sb(1) [OF sc(6,2)] geom_bounds(8) [OF iv(1), of j] by simp
  have "reb s s' y \<in> blocks s' sc' j" unfolding blocks_moved [OF iv(1) rm] using sc(6) by blast
  then have "reb s s' y < sbk s' j + SBSIZE" by (rule blocks_in_sb(3) [OF _ sc(2)])
  moreover have "user_addr (sbk s' j + SBSIZE)" by (rule geom_bounds(4) [OF gm]) (use sc(4) in \<open>simp add: used_def\<close>)
  ultimately have u: "user_addr (reb s s' y)" by (simp add: user_addr_def)
  have d: "int (reb s s' y) - int (reb s s' x) = int y - int x" using bx by (simp add: moved_int)
  have m: "mem s' (reb s s' x + k) = mem s (x + k)" if "k < 8" for k
    using r(7) [of "x + k"] in_file [OF that] bx(1) by (simp add: moved_add)
  show ?thesis by (rule read_pptr_moved [OF m l y0 d u])
qed

lemma block_cases_moved:
  assumes inv: "heap_inv s g" and rm: "remapped s s'"
  shows "small_blk s' (reg s s' g) a i sc \<longleftrightarrow> (\<exists>x. a = reb s s' x \<and> small_blk s g x i sc)"
    and "large_blk s' (reg s s' g) a i m \<longleftrightarrow> (\<exists>x. a = reb s s' x \<and> large_blk s g x i m)"
  using blocks_moved [OF heap_invD(1) [OF inv] rm, of sc i] sbk_moved [OF heap_invD(1) [OF inv] rm, of i]
  by (auto simp: small_blk_def large_blk_def)

lemma blk_base:
  assumes "heap_inv s g"
  shows "small_blk s g x i sc \<Longrightarrow> base_addr (sb_region s) \<le> x" "large_blk s g x i m \<Longrightarrow> base_addr (sb_region s) \<le> x"
  using blocks_base [OF heap_invD(1) [OF assms]] geom_base(2) [OF heap_invD(1) [OF assms]]
  by (auto simp: small_blk_def large_blk_def)

lemma own_base:
  assumes "heap_inv s g" and "own g x \<noteq> NoBlock"
  shows "base_addr (sb_region s) \<le> x"
  using assms(2) own_blk [OF assms(1), of x] blk_base [OF assms(1)] by (cases "own g x") blast+

lemma own_moved:
  assumes "heap_inv s g" and "ow \<noteq> NoBlock"
  shows "{a. own (reg s s' g) a = ow} = reb s s' ` {x. own g x = ow}"
proof (intro set_eqI iffI)
  fix a assume a: "a \<in> {a. own (reg s s' g) a = ow}"
  let ?x = "moved (base_addr (sb_region s')) (base_addr (sb_region s)) a"
  have "base_addr (sb_region s') \<le> a" "own g ?x = ow" using a assms(2) by (auto simp: moved_ghost_def split: if_splits)
  then show "a \<in> reb s s' ` {x. own g x = ow}" by (intro image_eqI [where x = ?x]) simp_all
next
  fix a assume "a \<in> reb s s' ` {x. own g x = ow}"
  then show "a \<in> {a. own (reg s s' g) a = ow}" using own_base [OF assms(1)] assms(2) by auto
qed

lemma small_ok_moved:
  assumes inv: "heap_inv s g" and rm: "remapped s s'" and pl: "well_placed s'"
  shows "small_ok s' (reg s s' g)"
  unfolding small_ok_def
proof (intro allI impI)
  fix i sc assume "used (reg s s' g) i" "kind (reg s s' g) i = Small sc"
  then have i: "used g i" "kind g i = Small sc" by simp_all
  note iv = heap_invD [OF inv] and r = remapD [OF rm]
  note gm = geom_moved [OF iv(1) rm pl]
  let ?d = "desc_of s i"
  have ss: "sc_ok sc" "small_at (mem s) (sb_start s) (sbk s i) sc ?d (fl g i)" "distinct (fl g i)"
    "set (fl g i) = {b \<in> blocks s sc i. own g b = InSb}"
    using small_okD [OF iv(4) i] by (simp_all add: small_sb_def)
  have fb: "small_blk s g x i sc" if "x \<in> set (fl g i)" for x using that i unfolding ss(4) by (simp add: small_blk_def)
  have base: "base_addr (sb_region s) \<le> sbk s i" by (rule geom_base(2) [OF iv(1)])
  have cast: "CrossPtr_cast (sb_start s') (superblock ?d) = sbk s' i"
    by (rule CrossPtr_moved [where a = "sbk s i" and start = "sb_start s"])
      (use ss(2) geom_bounds(8) [OF iv(1)] geom_bounds(3) [OF gm] i(1) in \<open>auto simp: small_at_def sbk_def used_def\<close>)
  have run: "run (read_pptr (mem s')) (sbk s' i + k) (map (reb s s') (fl g i))" if "run (read_pptr (mem s)) (sbk s i + k) (fl g i)" for k
  proof -
    have "run (read_pptr (mem s')) (reb s s' (sbk s i + k)) (map (reb s s') (fl g i))"
      by (rule run_moved [OF that]) (use block_link_moved [OF inv rm pl fb fb] in blast)
    then show ?thesis by (simp add: sbk_moved [OF iv(1) rm] moved_add [OF base])
  qed
  have "small_at (mem s') (sb_start s') (sbk s' i) sc ?d (map (reb s s') (fl g i))"
    using ss(2) cast run by (cases "state (anchor ?d)") (simp_all add: small_at_def)
  moreover have "distinct (map (reb s s') (fl g i))"
    using ss(3) blk_base(1) [OF inv fb] by (auto simp: distinct_map inj_on_def moved_eq_iff)
  moreover have "set (map (reb s s') (fl g i)) = {b \<in> blocks s' sc i. own (reg s s' g) b = InSb}"
    using blocks_base [OF iv(1)] unfolding set_map ss(4) blocks_moved [OF iv(1) rm] by auto
  ultimately show "small_sb s' (reg s s' g) i sc" using ss(1) by (simp add: small_sb_def r(3))
qed

lemma large_ok_moved:
  assumes inv: "heap_inv s g" and rm: "remapped s s'" and pl: "well_placed s'"
  shows "large_ok s' (reg s s' g)"
proof -
  note iv = heap_invD [OF inv] and r = remapD [OF rm]
  note gm = geom_moved [OF iv(1) rm pl]
  have "large_at (sb_start s') (sbk s' i) m (desc_of s i)" if "used g i" "large_at (sb_start s) (sbk s i) m (desc_of s i)" for i m
  proof -
    have "CrossPtr_cast (sb_start s') (superblock (desc_of s i)) = sbk s' i"
      by (rule CrossPtr_moved [where a = "sbk s i" and start = "sb_start s"])
        (use that geom_bounds(8) [OF iv(1)] geom_bounds(3) [OF gm] in \<open>auto simp: large_at_def sbk_def used_def\<close>)
    then show ?thesis using that(2) by (simp add: large_at_def)
  qed
  then show ?thesis using iv(5) by (simp add: large_ok_def r(3))
qed

lemma own_ok_moved:
  assumes inv: "heap_inv s g" and rm: "remapped s s'"
  shows "own_ok s' (reg s s' g)"
  unfolding own_ok_def
proof
  fix a
  note bc = block_cases_moved [OF inv rm]
  show "own_at s' (reg s s' g) a"
  proof (cases "\<exists>x. base_addr (sb_region s) \<le> x \<and> a = reb s s' x")
    case True
    then obtain x where x: "base_addr (sb_region s) \<le> x" "a = reb s s' x" by blast
    have eq: "small_blk s' (reg s s' g) a i sc \<longleftrightarrow> small_blk s g x i sc" "large_blk s' (reg s s' g) a i m \<longleftrightarrow> large_blk s g x i m" for i sc m
      using bc [of a] x blk_base [OF inv] by (auto simp: moved_eq_iff)
    have own: "own (reg s s' g) a = own g x" using x by simp
    have "own_at s g x" using heap_invD(6) [OF inv] by (simp add: own_ok_def)
    then show ?thesis unfolding own_at_def eq own .
  next
    case False
    have "own (reg s s' g) a = NoBlock"
    proof (rule ccontr)
      assume "own (reg s s' g) a \<noteq> NoBlock"
      have "a \<in> {a'. own (reg s s' g) a' = own (reg s s' g) a}" by simp
      then obtain x where "own g x = own (reg s s' g) a" "a = reb s s' x"
        unfolding own_moved [OF inv \<open>own (reg s s' g) a \<noteq> NoBlock\<close>] by blast
      then show False using False own_base [OF inv] \<open>own (reg s s' g) a \<noteq> NoBlock\<close> by metis
    qed
    moreover have "\<not> small_blk s' (reg s s' g) a i sc" "\<not> large_blk s' (reg s s' g) a i m" for i sc m
      using bc [of a] False blk_base [OF inv] by blast+
    ultimately show ?thesis by (simp add: own_at_def)
  qed
qed

lemma cache_ok_moved:
  assumes inv: "heap_inv s g" and rm: "remapped s s'" and pl: "well_placed s'"
  shows "cache_ok s' (reg s s' g)"
  unfolding cache_ok_def
proof (intro allI impI)
  fix t sc assume "sc_ok sc"
  note iv = heap_invD [OF inv] and r = remapD [OF rm]
  have c: "cache_list (mem s) (t_cache s t sc) (cached g t sc)" "distinct (cached g t sc)"
    "set (cached g t sc) = {b. own g b = InCache t sc}" "length (cached g t sc) \<le> nblocks sc"
    using iv(7) \<open>sc_ok sc\<close> by (simp_all add: cache_ok_def cache_at_def)
  have fb: "\<exists>i. small_blk s g x i sc" if "x \<in> set (cached g t sc)" for x
    using that own_blk [OF inv, of x] unfolding c(3) by auto
  have "run (read_pptr (mem s')) (reb s s' (tc_block (t_cache s t sc))) (map (reb s s') (cached g t sc))"
  proof (rule run_moved [where f = "read_pptr (mem s)"])
    show "run (read_pptr (mem s)) (tc_block (t_cache s t sc)) (cached g t sc)" using c(1) by (simp add: cache_list_def)
    fix x y assume "x \<in> set (cached g t sc)" "y \<in> set (cached g t sc)" and l: "read_pptr (mem s) x = y"
    then obtain i j where "small_blk s g x i sc" "small_blk s g y j sc" using fb by blast
    then show "read_pptr (mem s') (reb s s' x) = reb s s' y" using l by (rule block_link_moved [OF inv rm pl])
  qed
  then have "cache_list (mem s') (t_cache s' t sc) (map (reb s s') (cached g t sc))"
    using c(1) by (simp add: cache_list_def r(8,9))
  moreover have "distinct (map (reb s s') (cached g t sc))"
  proof -
    have "base_addr (sb_region s) \<le> x" if "x \<in> set (cached g t sc)" for x using fb [OF that] blk_base(1) [OF inv] by blast
    then show ?thesis using c(2) by (simp add: distinct_map inj_on_def moved_eq_iff)
  qed
  moreover have "set (map (reb s s') (cached g t sc)) = {b. own (reg s s' g) b = InCache t sc}"
    using own_moved [OF inv, of "InCache t sc" s'] by (simp add: c(3))
  ultimately show "cache_at s' (reg s s' g) t sc" using c(4) by (simp add: cache_at_def)
qed

lemma heap_inv_moved:
  assumes inv: "heap_inv s g" and rm: "remapped s s'" and pl: "well_placed s'"
  shows "heap_inv s' (reg s s' g)"
proof -
  note iv = heap_invD [OF inv]
  have "geom s' (nsb (reg s s' g))" using geom_moved [OF iv(1) rm pl] by simp
  moreover have "clean_ok s' (reg s s' g)" using iv(8) by (simp add: clean_ok_def remapD(3) [OF rm])
  ultimately show ?thesis
    using free_ok_moved [OF assms] part_ok_moved [OF assms] small_ok_moved [OF assms] large_ok_moved [OF assms]
      own_ok_moved [OF inv rm] cache_ok_moved [OF assms] by (intro heap_invI)
qed

section \<open>What the program sees\<close>

lemma live_moved:
  assumes inv: "heap_inv s g" and rm: "remapped s s'" and pl: "well_placed s'"
  shows "live s' (reg s s' g) = moved_view (base_addr (sb_region s)) (base_addr (sb_region s')) (live s g)"
proof
  fix a
  note inv' = heap_inv_moved [OF inv rm pl] and bc = block_cases_moved [OF inv rm] and gm = heap_invD(1) [OF inv]
  show "live s' (reg s s' g) a = moved_view (base_addr (sb_region s)) (base_addr (sb_region s')) (live s g) a"
  proof (cases "a \<in> users (reg s s' g)")
    case True
    then obtain x where x: "own g x = User" "a = reb s s' x"
      using own_moved [OF inv, of User s'] unfolding users_def by auto
    have bx: "base_addr (sb_region s) \<le> x" by (rule own_base [OF inv]) (simp add: x(1))
    have "msize s' a = msize s x \<and> x + msize s x \<le> curr_addr (sb_region s)"
    proof (cases "\<exists>i sc. small_blk s g x i sc")
      case True
      then obtain i sc where sb: "small_blk s g x i sc" by blast
      then have "small_blk s' (reg s s' g) a i sc" unfolding bc x(2) by blast
      then have "msize s' a = bsize sc" "msize s x = bsize sc" using small_blk_msize [OF inv'] small_blk_msize [OF inv sb] by blast+
      moreover have "x + bsize sc \<le> sbk s i + SBSIZE" by (rule small_blk_facts(10) [OF inv sb])
      moreover have "i < nsb g" using sb by (simp add: small_blk_def used_def)
      ultimately show ?thesis using geom_base(3) [OF gm, of i] by simp
    next
      case False
      then obtain i m where lb: "large_blk s g x i m" using own_blk(3) [OF inv x(1)] by blast
      then have "large_blk s' (reg s s' g) a i m" unfolding bc x(2) by blast
      then have "msize s' a = m * SBSIZE" using large_blk_facts(2) [OF inv'] by blast
      moreover note l = large_blk_facts [OF inv lb]
      moreover have "x + m * SBSIZE = sbk s (i + m - 1) + SBSIZE" using l(3,7) sbk_add [of s i m] sbk_add [of s "i + m - 1" 1] by simp
      moreover have "i + m - 1 < nsb g" using l(3,4) by simp
      ultimately show ?thesis using geom_base(3) [OF gm, of "i + m - 1"] by simp
    qed
    then have sz: "msize s' a = msize s x" "x + msize s x \<le> curr_addr (sb_region s)" by simp_all
    have "map (mem s') [a..<a + msize s' a] = map (mem s) [x..<x + msize s x]"
    proof (rule nth_equalityI)
      fix k assume k: "k < length (map (mem s') [a..<a + msize s' a])"
      then have "mem s' (reb s s' (x + k)) = mem s (x + k)" using sz bx by (intro remapD(7) [OF rm]) simp_all
      then show "map (mem s') [a..<a + msize s' a] ! k = map (mem s) [x..<x + msize s x] ! k" using k sz x(2) moved_add [OF bx] by simp
    qed (simp add: sz)
    then show ?thesis using True x bx by (simp add: live_def users_def)
  next
    case False
    have "live s g x = None" if "base_addr (sb_region s') \<le> a" "x = moved (base_addr (sb_region s')) (base_addr (sb_region s)) a" for x
      using False that by (auto simp: live_def users_def moved_ghost_def)
    then show ?thesis using False by (simp add: live_def moved_view_def)
  qed
qed

lemma represents_moved:
  assumes "represents s H" and "remapped s s'" and "well_placed s'"
  shows "represents s' (moved_view (base_addr (sb_region s)) (base_addr (sb_region s')) H)"
proof -
  obtain g where g: "heap_inv s g" "1 \<le> nsb g" "held g = {}" "H = live s g" using assms(1) by (auto simp: represents_def)
  show ?thesis unfolding represents_def
    by (rule exI [where x = "reg s s' g"]) (use heap_inv_moved [OF g(1) assms(2,3)] live_moved [OF g(1) assms(2,3)] g in simp)
qed

section \<open>Lost caches\<close>

text \<open>
  A process that starts has empty caches. The blocks that the caches of the one before held are in no list any more:
  they stay allocated, as if they belonged to the program.
\<close>

definition lost_ghost :: "ghost \<Rightarrow> ghost" where
  "lost_ghost g = g\<lparr>own := (\<lambda>a. case own g a of InCache t sc \<Rightarrow> User | ow \<Rightarrow> ow), cached := (\<lambda>_ _. [])\<rparr>"

lemma lost_ghost_own: "own (lost_ghost g) a = (case own g a of InCache t sc \<Rightarrow> User | ow \<Rightarrow> ow)"
  by (simp add: lost_ghost_def)

lemma lost_ghost_simps [simp]:
  "nsb (lost_ghost g) = nsb g" "kind (lost_ghost g) = kind g" "free (lost_ghost g) = free g" "part (lost_ghost g) = part g"
  "used (lost_ghost g) = used g" "held (lost_ghost g) = held g" "fl (lost_ghost g) = fl g" "cached (lost_ghost g) t sc = []"
  "small_blk s (lost_ghost g) = small_blk s g" "large_blk s (lost_ghost g) = large_blk s g" "nonfull s (lost_ghost g) = nonfull s g"
  "own (lost_ghost g) a = InSb \<longleftrightarrow> own g a = InSb" "own (lost_ghost g) a \<noteq> InCache t sc"
  "own (lost_ghost g) a = NoBlock \<longleftrightarrow> own g a = NoBlock"
  by (auto simp: lost_ghost_def used_def held_def small_blk_def large_blk_def nonfull_def fun_eq_iff split: owner.splits)

lemma heap_inv_lost:
  assumes inv: "heap_inv s g" and tc: "\<And>t sc. tc_num (c t sc) = 0"
  shows "heap_inv (s\<lparr>t_cache := c\<rparr>) (lost_ghost g)"
proof -
  note iv = heap_invD [OF inv]
  let ?s = "s\<lparr>t_cache := c\<rparr>" and ?g = "lost_ghost g"
  have blk: "small_blk ?s g = small_blk s g" "large_blk ?s g = large_blk s g" "nonfull ?s g = nonfull s g"
    by (simp_all add: small_blk_def large_blk_def nonfull_def fun_eq_iff)
  have "geom ?s (nsb ?g)" using iv(1) by (simp add: geom_def)
  moreover have "free_ok ?s ?g" using iv(2) by (simp add: free_ok_def)
  moreover have "part_ok ?s ?g" using iv(3) by (simp add: part_ok_def part_list_ok_def blk)
  moreover have "small_ok ?s ?g" using iv(4) by (simp add: small_ok_def small_sb_def)
  moreover have "large_ok ?s ?g" using iv(5) by (simp add: large_ok_def)
  moreover have "clean_ok ?s ?g" using iv(8) by (simp add: clean_ok_def)
  moreover have "cache_ok ?s ?g" using tc by (simp add: cache_ok_def cache_at_def cache_list_Nil)
  moreover have "own_at ?s ?g a" for a
  proof -
    have "own_at s g a" using iv(6) by (simp add: own_ok_def)
    then show ?thesis unfolding own_at_def lost_ghost_simps blk lost_ghost_own by (cases "own g a") auto
  qed
  then have "own_ok ?s ?g" by (simp add: own_ok_def)
  ultimately show ?thesis by (intro heap_invI)
qed

lemma represents_lost:
  assumes rep: "represents s H" and tc: "\<And>t sc. tc_num (c t sc) = 0"
  shows "\<exists>H'. represents (s\<lparr>t_cache := c\<rparr>) H' \<and> H \<subseteq>\<^sub>m H' \<and> ((\<forall>t sc. tc_num (t_cache s t sc) = 0) \<longrightarrow> H' = H)"
proof -
  obtain g where g: "heap_inv s g" "1 \<le> nsb g" "held g = {}" "H = live s g" using rep by (auto simp: represents_def)
  let ?s = "s\<lparr>t_cache := c\<rparr>"
  have m: "msize ?s = msize s" by (simp add: msize_def desc_lookup_def fun_eq_iff)
  have "represents ?s (live ?s (lost_ghost g))" unfolding represents_def
    by (rule exI [where x = "lost_ghost g"]) (use heap_inv_lost [OF g(1) tc] g in simp)
  moreover have "H \<subseteq>\<^sub>m live ?s (lost_ghost g)"
    unfolding g(4) map_le_def dom_live by (auto simp: live_def m users_def lost_ghost_own)
  moreover have "live ?s (lost_ghost g) = H" if e: "\<forall>t sc. tc_num (t_cache s t sc) = 0"
  proof -
    have "own g a \<noteq> InCache t sc" for a t sc
    proof
      assume o: "own g a = InCache t sc"
      then have ca: "cache_at s g t sc" using own_blk(2) [OF g(1) o] heap_invD(7) [OF g(1)] by (simp add: cache_ok_def)
      then have "a \<in> set (cached g t sc)" using o unfolding cache_at_def by blast
      moreover have "cached g t sc = []" using ca e by (simp add: cache_at_def cache_list_def)
      ultimately show False by simp
    qed
    then have "own (lost_ghost g) a = own g a" for a by (simp add: lost_ghost_own split: owner.splits)
    then show ?thesis unfolding g(4) by (simp add: live_def m users_def fun_eq_iff)
  qed
  ultimately show ?thesis by blast
qed

end
