(* ===== verification/DirtyFlag.thy ===== *)
theory DirtyFlag
  imports GarbageCollection
begin

text \<open>
  The dirty flag of the heap (\<^verbatim>\<open>BaseMeta.cpp\<close>): a robust mutex in the persistent metadata that the thread
  which opened the heap holds. A process that ends with it leaves a mutex whose owner is dead; one that closes the heap
  in that thread has released it.
\<close>

section \<open>Robust mutexes\<close>

text \<open>
  What the code observes of a robust \<^verbatim>\<open>pthread_mutex_t\<close>: free, held by a living thread, left behind by a dead
  owner, acquired after that by a thread and not yet declared consistent, no longer recoverable, and bytes that are no
  initialised mutex. The first argument of an operation is the calling thread.
\<close>

datatype mutex = Unlocked | Locked nat | OwnerDead | Inconsistent nat | NotRecoverable | Garbage

datatype errno = Success | EOWNERDEAD | EBUSY | EAGAIN | EINVAL | ENOTRECOVERABLE

fun mutex_trylock :: "nat \<Rightarrow> mutex \<Rightarrow> errno \<times> mutex" where
  "mutex_trylock t Unlocked = (Success, Locked t)"
| "mutex_trylock t (Locked t') = (EBUSY, Locked t')"
| "mutex_trylock t OwnerDead = (EOWNERDEAD, Inconsistent t)"
| "mutex_trylock t (Inconsistent t') = (EBUSY, Inconsistent t')"
| "mutex_trylock t NotRecoverable = (ENOTRECOVERABLE, NotRecoverable)"
| "mutex_trylock t Garbage = (EINVAL, Garbage)"

text \<open>Only the owner releases a robust mutex; for any other thread the call fails with \<^verbatim>\<open>EPERM\<close> and changes nothing.\<close>

fun mutex_unlock :: "nat \<Rightarrow> mutex \<Rightarrow> mutex" where
  "mutex_unlock t (Locked t') = (if t = t' then Unlocked else Locked t')"
| "mutex_unlock t (Inconsistent t') = (if t = t' then NotRecoverable else Inconsistent t')"
| "mutex_unlock t m = m"

fun mutex_consistent :: "mutex \<Rightarrow> mutex" where
  "mutex_consistent (Inconsistent t) = Locked t"
| "mutex_consistent m = m"

definition mutex_init :: mutex where
  "mutex_init = Unlocked"

text \<open>
  When a process ends, by a crash or by a normal exit, the kernel marks the robust mutexes that its threads still hold.
  When the machine loses power no one does: the bytes of the mutex stay as they are.
\<close>

fun process_dies :: "mutex \<Rightarrow> mutex" where
  "process_dies (Locked t) = OwnerDead"
| "process_dies (Inconsistent t) = OwnerDead"
| "process_dies m = m"

definition power_fails :: "mutex \<Rightarrow> mutex" where
  "power_fails m = m"

section \<open>The flag\<close>

definition set_dirty :: "nat \<Rightarrow> mutex \<Rightarrow> mutex outcome" where
  "set_dirty t dirty_mtx = (let (s, m) = mutex_trylock t dirty_mtx in check (s \<noteq> EOWNERDEAD) (Inr m))"

definition is_dirty :: "nat \<Rightarrow> mutex \<Rightarrow> (bool \<times> mutex) outcome" where
  "is_dirty t dirty_mtx =
    (case mutex_trylock t dirty_mtx of
       (EOWNERDEAD, m) \<Rightarrow> Inr (True, mutex_consistent m)
     | (Success, m) \<Rightarrow> Inr (False, mutex_unlock t m)
     | (EBUSY, m) \<Rightarrow> Inr (False, m)
     | (EAGAIN, m) \<Rightarrow> Inr (False, m)
     | (EINVAL, m) \<Rightarrow> Inr (True, mutex_init)
     | (_, m) \<Rightarrow> Inl Exited)"

definition set_clean :: "nat \<Rightarrow> mutex \<Rightarrow> mutex" where
  "set_clean t dirty_mtx = mutex_unlock t dirty_mtx"

text \<open>The part of the constructor of \<^verbatim>\<open>BaseMeta\<close> that concerns the flag.\<close>

definition BaseMeta_mutex :: "nat \<Rightarrow> mutex outcome" where
  "BaseMeta_mutex t = set_dirty t mutex_init"

section \<open>Restart and write back\<close>

text \<open>\<^verbatim>\<open>restart\<close>: was the heap dirty, how many blocks were marked, and the state.\<close>

definition restart :: "nat \<Rightarrow> custom_filters \<Rightarrow> (nat \<Rightarrow> root_filter option) \<Rightarrow> mutex \<Rightarrow> ralloc \<Rightarrow>
    (bool \<times> nat \<times> mutex \<times> ralloc) outcome" where
  "restart t custom roots_filter_func dirty_mtx s =
    and_then (is_dirty t dirty_mtx) (\<lambda>(ret, m).
      and_then (if ret then gc_run custom roots_filter_func s else Inr (0, s)) (\<lambda>(n, s1).
        and_then (set_dirty t m) (\<lambda>m1. Inr (ret, n, m1, s1))))"

text \<open>\<^verbatim>\<open>writeback\<close>: the lines flushed and the released mutex.\<close>

definition writeback :: "nat \<Rightarrow> nat \<Rightarrow> addr \<Rightarrow> mutex \<Rightarrow> addr list \<times> mutex" where
  "writeback t meta_size base_md dirty_mtx = (flush_meta meta_size base_md, set_clean t dirty_mtx)"

section \<open>Facts about the flag\<close>

lemma BaseMeta_mutex_locked: "BaseMeta_mutex t = Inr (Locked t)"
  by (simp add: BaseMeta_mutex_def set_dirty_def mutex_init_def)

text \<open>What \<^verbatim>\<open>restart\<close> does, by the state of the mutex it finds.\<close>

lemma restart_cases:
  "restart t custom rff OwnerDead s = and_then (gc_run custom rff s) (\<lambda>(n, s1). Inr (True, n, Locked t, s1))"
  "restart t custom rff Garbage s = and_then (gc_run custom rff s) (\<lambda>(n, s1). Inr (True, n, Locked t, s1))"
  "restart t custom rff Unlocked s = Inr (False, 0, Locked t, s)"
  "restart t custom rff (Locked t') s = Inr (False, 0, Locked t', s)"
  "restart t custom rff NotRecoverable s = Inl Exited"
  by (simp_all add: restart_def is_dirty_def set_dirty_def mutex_init_def and_then_def split: sum.splits prod.splits)

text \<open>The lines that the loop of \<^verbatim>\<open>writeback\<close> flushes are those of the object, moved by one.\<close>

lemma flush_meta_lines_eq: "flush_meta_lines a n = map (\<lambda>i. a + (i + 1) * CACHELINE_SIZE) [0..<n]"
proof (induction n arbitrary: a)
  case (Suc n)
  have "[0..<Suc n] = 0 # map Suc [0..<n]" by (simp add: map_Suc_upt upt_conv_Cons)
  then show ?case using Suc by (simp add: algebra_simps)
qed simp

end
