(* ===== verification/RegionFrame.thy ===== *)
theory RegionFrame
  imports BaseMeta
begin

text \<open>
  What the allocator does to its region: it moves the frontier and nothing else. The file,
  its size, and the starts of superblocks and descriptors stay as they were opened.
\<close>

definition same_file :: "ralloc \<Rightarrow> ralloc \<Rightarrow> bool" where
  "same_file s s' \<longleftrightarrow> (\<exists>w. sb_region s' = set_curr w (sb_region s)) \<and> sb_start s' = sb_start s \<and> desc_start s' = desc_start s"

named_theorems file_rules \<open>operations that keep the file\<close>

lemma same_file_refl [simp]: "same_file s s"
  unfolding same_file_def by (auto simp: set_curr_def intro: exI [of _ "hdr_curr (hdr (sb_region s))"])

lemma same_file_trans [trans]: "same_file s s' \<Longrightarrow> same_file s' s'' \<Longrightarrow> same_file s s''"
  by (auto simp: same_file_def set_curr_def)

text \<open>A step that only changes other fields.\<close>

lemma same_file_step: "sb_region s' = sb_region s1 \<Longrightarrow> sb_start s' = sb_start s1 \<Longrightarrow> desc_start s' = desc_start s1 \<Longrightarrow>
    same_file s s1 \<Longrightarrow> same_file s s'"
  by (simp add: same_file_def)

lemma upd_file [simp]:
  "same_file s (construct_desc d s1) \<longleftrightarrow> same_file s s1" "same_file s (upd_desc d f s1) \<longleftrightarrow> same_file s s1"
  "same_file s (set_cache t sc c s1) \<longleftrightarrow> same_file s s1" "same_file s (set_partial_list h w s1) \<longleftrightarrow> same_file s s1"
  "same_file s (s1\<lparr>descs := D\<rparr>) \<longleftrightarrow> same_file s s1" "same_file s (s1\<lparr>mem := m\<rparr>) \<longleftrightarrow> same_file s s1"
  "same_file s (s1\<lparr>avail_sb := a\<rparr>) \<longleftrightarrow> same_file s s1" "same_file s (s1\<lparr>roots := R\<rparr>) \<longleftrightarrow> same_file s s1"
  by (simp_all add: same_file_def construct_desc_def upd_desc_def set_cache_def set_partial_list_def)

lemma avail_push_file [file_rules]: "avail_push a b s = Inr s' \<Longrightarrow> same_file s s'"
  by (auto simp: avail_push_def Let_def split: prod.splits if_splits)

lemma organize_loop_file: "same_file s (snd (organize_loop n d s))"
proof (induction n arbitrary: d s)
  case (Suc n)
  show ?case using same_file_trans [OF _ Suc] by simp
qed simp

lemma organize_file [file_rules]: "organize_sb_list a n s = Inr s' \<Longrightarrow> same_file s s'"
  using organize_loop_file [of "construct_desc (desc_lookup s a) s" "n - 1" "desc_lookup s a"]
  by (auto simp: organize_sb_list_def Let_def split: prod.splits dest!: avail_push_file intro: same_file_trans)
     (metis same_file_refl same_file_trans upd_file(1))

lemma small_sb_retire_file [file_rules]: "small_sb_retire sb sz s = Inr s' \<Longrightarrow> same_file s s'"
  by (auto simp: small_sb_retire_def check_Inr Let_def dest!: avail_push_file intro: same_file_trans [rotated])

lemma heap_push_partial_file [file_rules]: "heap_push_partial d s = Inr s' \<Longrightarrow> same_file s s'"
  by (auto simp: heap_push_partial_def check_Inr Let_def split: option.splits prod.splits if_splits)

lemma heap_pop_partial_file [file_rules]: "heap_pop_partial h s = Inr (d, s') \<Longrightarrow> same_file s s'"
  by (auto simp: heap_pop_partial_def Let_def split: prod.splits if_splits)

lemma small_sb_alloc_file [file_rules]:
  assumes "small_sb_alloc sz s = Inr (b, s')"
  shows "same_file s s'"
proof -
  have "same_file s s1" if "organize_sb_list a n (s\<lparr>sb_region := set_curr w (sb_region s)\<rparr>) = Inr s1" for a n w s1
  proof -
    have "same_file s (s\<lparr>sb_region := set_curr w (sb_region s)\<rparr>)" by (auto simp: same_file_def)
    then show ?thesis using organize_file [OF that] same_file_trans by blast
  qed
  then show ?thesis using assms
    by (auto simp: small_sb_alloc_def outcome_simps Let_def split: prod.splits if_splits)
qed

lemma malloc_from_partial_fuel_file: "malloc_from_partial_fuel f t sc s = Inr (n, s') \<Longrightarrow> same_file s s'"
proof (induction f arbitrary: s)
  case (Suc f)
  then obtain d s1 where p: "heap_pop_partial sc s = Inr (d, s1)" by (auto simp: outcome_simps)
  have "same_file s1 s'" using Suc p
    by (auto simp: outcome_simps Let_def split: if_splits dest!: small_sb_retire_file intro: same_file_trans)
  then show ?case using heap_pop_partial_file [OF p] same_file_trans by blast
qed simp

lemma malloc_from_partial_file [file_rules]: "malloc_from_partial t sc s = Inr (n, s') \<Longrightarrow> same_file s s'"
  unfolding malloc_from_partial_def by (rule malloc_from_partial_fuel_file)

lemma malloc_from_newsb_file [file_rules]: "malloc_from_newsb t sc s = Inr (n, s') \<Longrightarrow> same_file s s'"
  by (auto simp: malloc_from_newsb_def outcome_simps Let_def dest!: small_sb_alloc_file)

lemma fill_cache_file [file_rules]: "fill_cache t sc s = Inr s' \<Longrightarrow> same_file s s'"
  by (auto simp: fill_cache_def outcome_simps split: if_splits
      dest!: malloc_from_partial_file malloc_from_newsb_file intro: same_file_trans)

lemma flush_one_file [file_rules]: "flush_one t sc s = Inr s' \<Longrightarrow> same_file s s'"
  by (auto simp: flush_one_def outcome_simps Let_def split: prod.splits if_splits
      dest!: small_sb_retire_file heap_push_partial_file intro: same_file_trans [rotated])

lemma flush_cache_file [file_rules]: "flush_cache t sc s = Inr s' \<Longrightarrow> same_file s s'"
proof (induction t sc s rule: flush_cache.induct)
  case (1 t sc s)
  then show ?case
    by (subst (asm) (2) flush_cache.simps) (auto split: if_splits sum.splits dest!: flush_one_file intro: same_file_trans)
qed

lemma nvm_region_allocator_file: "nvm_region_allocator al sz r = (code, t, r') \<Longrightarrow> \<exists>w. r' = set_curr w r"
proof -
  have "\<exists>w. r = set_curr w r" by (auto simp: set_curr_def intro: exI [of _ "hdr_curr (hdr r)"])
  then show "nvm_region_allocator al sz r = (code, t, r') \<Longrightarrow> \<exists>w. r' = set_curr w r"
    by (auto simp: nvm_region_allocator_def Let_def split: if_splits prod.splits)
qed

lemma expand_get_large_sb_file [file_rules]:
  assumes "expand_get_large_sb sz s = Inr (p, s')"
  shows "same_file s s'"
proof -
  obtain code t r where n: "nvm_region_allocator PAGESIZE sz (sb_region s) = (code, t, r)" by (cases "nvm_region_allocator PAGESIZE sz (sb_region s)")
  have "same_file s (s\<lparr>sb_region := r\<rparr>)" using nvm_region_allocator_file [OF n] by (simp add: same_file_def)
  then show ?thesis using assms n by (auto simp: expand_get_large_sb_def Let_def split: if_splits)
qed

lemma malloc_large_file [file_rules]: "malloc_large sz s = Inr (p, s') \<Longrightarrow> same_file s s'"
  by (auto simp: malloc_large_def alloc_large_block_def large_sb_alloc_def outcome_simps Let_def dest!: expand_get_large_sb_file)

lemma do_malloc_file: "do_malloc t sz s = Inr (p, s') \<Longrightarrow> same_file s s'"
  by (auto simp: do_malloc_def outcome_simps Let_def split: if_splits dest!: file_rules)

lemma do_free_file: "do_free t p s = Inr s' \<Longrightarrow> same_file s s'"
  by (auto simp: do_free_def large_sb_retire_def outcome_simps Let_def push_block_def split: if_splits option.splits
      dest!: file_rules)

lemma set_root_file: "set_root p i s = Inr (q, s') \<Longrightarrow> same_file s s'"
  by (auto simp: set_root_def check_Inr)

end
