(* ===== verification/RallocApi.thy ===== *)
theory RallocApi
  imports Relocate DirtyFlag RegionFrame
begin

text \<open>
  The public interface (\<^verbatim>\<open>ralloc.cpp\<close>): creating or reopening the three files of a heap, the
  calls that allocate, free, resize and query blocks, the roots, recovery and closing.
\<close>

section \<open>The process\<close>

text \<open>
  The global variables of the library. The region and the start of the superblocks are
  part of \<open>base_md\<close>; \<open>rgs\<close> holds the table as it was built.
\<close>

record process =
  initialized :: bool
  rgs :: Regions
  base_md :: ralloc
  base_md_addr :: addr
  dirty_mtx :: mutex
  roots_filter_func :: "nat \<Rightarrow> root_filter option"
  gc_count :: nat

text \<open>
  The three files. \<open>f_hdr\<close> is the header page of each that exists. The bytes of the file of the superblocks and the
  descriptors in the file of the descriptors are kept by their distance from the start of the file, so that nothing
  depends on where the file was or will be mapped. The other fields are the object in the metadata file.
\<close>

record heap_files =
  f_hdr :: "RegionIndex \<Rightarrow> region_hdr option"
  f_sb :: "nat \<Rightarrow> byte"
  f_desc :: "nat \<Rightarrow> Descriptor"
  f_avail_sb :: u64
  f_heaps :: "nat \<Rightarrow> ProcHeap"
  f_roots :: "nat \<Rightarrow> u64"
  f_mtx :: mutex

fun region_no :: "RegionIndex \<Rightarrow> nat" where
  "region_no DESC_IDX = 0"
| "region_no SB_IDX = 1"
| "region_no META_IDX = 2"

section \<open>Opening a heap\<close>

text \<open>
  What the mapped files show: the file of the superblocks from its base address on, with the rest of the memory as the process
  has it, and the descriptors from theirs on. Mapping a file, new or existing, first writes a zero as its last byte; in the files of
  the descriptors and of the metadata that byte is not in use. The thread caches are those of the process.
\<close>

definition file_base :: "Regions \<Rightarrow> RegionIndex \<Rightarrow> addr" where
  "file_base rs i = (case regions rs (region_no i) of None \<Rightarrow> 0 | Some r \<Rightarrow> base_addr r)"

definition file_len :: "Regions \<Rightarrow> RegionIndex \<Rightarrow> nat" where
  "file_len rs i = (case regions rs (region_no i) of None \<Rightarrow> 0 | Some r \<Rightarrow> FILESIZE r)"

definition map_files :: "Regions \<Rightarrow> heap_files \<Rightarrow> ralloc \<Rightarrow> ralloc" where
  "map_files rs fs s = s\<lparr>
    mem := (\<lambda>a. if file_base rs SB_IDX \<le> a \<and> a < file_base rs SB_IDX + file_len rs SB_IDX
                then if Suc a = file_base rs SB_IDX + file_len rs SB_IDX then 0 else f_sb fs (a - file_base rs SB_IDX)
                else mem s a),
    descs := (\<lambda>d. f_desc fs (d - file_base rs DESC_IDX)),
    avail_sb := f_avail_sb fs, heaps := f_heaps fs, roots := f_roots fs\<rparr>"

text \<open>The allocator on top of the regions: the superblock region and the two start addresses come from the table.\<close>

definition mounted :: "Regions \<Rightarrow> ralloc \<Rightarrow> ralloc outcome" where
  "mounted rs img =
    (case regions rs (region_no SB_IDX) of None \<Rightarrow> Inl NullDeref
     | Some r \<Rightarrow> Inr (img\<lparr>sb_region := r, sb_start := lookup rs (region_no SB_IDX), desc_start := lookup rs (region_no DESC_IDX)\<rparr>))"

text \<open>The constructor of the metadata, which also registers the start of the superblocks.\<close>

definition construct_meta :: "nat \<Rightarrow> Regions \<Rightarrow> ralloc \<times> mutex \<Rightarrow> (Regions \<times> ralloc \<times> mutex) outcome" where
  "construct_meta t rs obj =
    and_then (BaseMeta_mutex t) (\<lambda>m.
      and_then (mounted rs (fst obj)) (\<lambda>s0.
        and_then (BaseMeta_new s0) (\<lambda>s.
          Inr (rs\<lparr>regions := (regions rs)(region_no SB_IDX := Some (sb_region s)),
                  regions_address := (regions_address rs)(region_no SB_IDX := sb_start s)\<rparr>, s, m))))"

text \<open>
  The calling thread is \<open>t\<close>. \<open>os\<close> and \<open>uninit\<close> are the answers of the operating system and the uninitialised local of each region;
  \<open>meta_size\<close> is \<^verbatim>\<open>sizeof(BaseMeta)\<close>.
\<close>

definition RP_init :: "nat \<Rightarrow> (RegionIndex \<Rightarrow> os_answers) \<Rightarrow> (RegionIndex \<Rightarrow> addr) \<Rightarrow> nat \<Rightarrow> heap_files \<Rightarrow>
    nat \<Rightarrow> process \<Rightarrow> (int \<times> process) outcome" where
  "RP_init t os uninit meta_size fs sz p =
    check (sz < MAX_SB_REGION_SIZE \<and> sz \<ge> MIN_SB_REGION_SIZE)
      (let num_sb = sz div SBSIZE;
           restarting = (f_hdr fs META_IDX \<noteq> None)
       in and_then (Regions_create (os DESC_IDX) (uninit DESC_IDX) (f_hdr fs DESC_IDX) (num_sb * DESCSIZE) True True Regions_new) (\<lambda>rs1.
          and_then (Regions_create (os SB_IDX) (uninit SB_IDX) (f_hdr fs SB_IDX) (num_sb * SBSIZE) True False rs1) (\<lambda>rs2.
          and_then (Regions_create_for (os META_IDX) (uninit META_IDX) (f_hdr fs META_IDX) meta_size True
              (construct_meta t) rs2 (map_files rs2 fs (base_md p), f_mtx fs)) (\<lambda>(rs3, obj, img, m).
          and_then (mounted rs3 img) (\<lambda>s.
            Inr (of_bool restarting,
                 p\<lparr>initialized := True, rgs := rs3, base_md := s, base_md_addr := obj, dirty_mtx := m\<rparr>))))))"

text \<open>
  The default size of the header, for the call in \<^verbatim>\<open>RP_set_root\<close>.
\<close>

definition default_size :: nat where
  "default_size = 5 * 1024 * 1024 * 1024"

section \<open>Allocation\<close>

definition with_meta :: "process \<Rightarrow> ('a \<times> ralloc) outcome \<Rightarrow> ('a \<times> process) outcome" where
  "with_meta p m = and_then m (\<lambda>(a, s). Inr (a, p\<lparr>base_md := s\<rparr>))"

definition RP_malloc :: "nat \<Rightarrow> nat \<Rightarrow> process \<Rightarrow> (addr \<times> process) outcome" where
  "RP_malloc t sz p = check (initialized p) (with_meta p (do_malloc t sz (base_md p)))"

definition RP_free :: "nat \<Rightarrow> addr \<Rightarrow> process \<Rightarrow> process outcome" where
  "RP_free t ptr p = check (initialized p) (and_then (do_free t ptr (base_md p)) (\<lambda>s. Inr (p\<lparr>base_md := s\<rparr>)))"

definition RP_malloc_size :: "addr \<Rightarrow> process \<Rightarrow> nat" where
  "RP_malloc_size ptr p = desc_block_size (descs (base_md p) (desc_lookup (base_md p) ptr))"

definition RP_in_prange :: "addr \<Rightarrow> process \<Rightarrow> int" where
  "RP_in_prange ptr p = (if in_range (sb_start (base_md p)) (sb_region (base_md p)) ptr then 1 else 0)"

definition RP_realloc :: "nat \<Rightarrow> addr \<Rightarrow> nat \<Rightarrow> process \<Rightarrow> (addr \<times> process) outcome" where
  "RP_realloc t ptr new_size p =
    (if ptr = 0 then RP_malloc t new_size p
     else if \<not> in_range (sb_start (base_md p)) (sb_region (base_md p)) ptr then Inr (0, p)
     else
       (let old_size = RP_malloc_size ptr p
        in if old_size = new_size then Inr (ptr, p)
           else and_then (RP_malloc t new_size p) (\<lambda>(new_ptr, p1).
             if new_ptr = 0 then Inr (0, p1)
             else
               (let s1 = base_md p1;
                    p2 = p1\<lparr>base_md := s1\<lparr>mem := memcpy new_ptr ptr old_size (mem s1)\<rparr>\<rparr>
                in and_then (RP_free t ptr p2) (\<lambda>p3. Inr (new_ptr, p3))))))"

definition RP_calloc :: "nat \<Rightarrow> nat \<Rightarrow> nat \<Rightarrow> process \<Rightarrow> (addr \<times> process) outcome" where
  "RP_calloc t num sz p =
    and_then (RP_malloc t ((num * sz) mod 2 ^ 64) p) (\<lambda>(ptr, p1).
      if ptr = 0 then Inr (0, p1)
      else
        (let real_size = RP_malloc_size ptr p1; s1 = base_md p1
         in Inr (ptr, p1\<lparr>base_md := s1\<lparr>mem := memset ptr 0 real_size (mem s1)\<rparr>\<rparr>)))"

section \<open>Roots\<close>

text \<open>\<open>auto_init\<close> is the call of \<^verbatim>\<open>RP_init\<close> with the default arguments.\<close>

definition RP_set_root :: "(process \<Rightarrow> (int \<times> process) outcome) \<Rightarrow> addr \<Rightarrow> nat \<Rightarrow> process \<Rightarrow> (addr \<times> process) outcome" where
  "RP_set_root auto_init ptr i p =
    and_then (if initialized p then Inr p else and_then (auto_init p) (\<lambda>(_, p'). Inr p')) (\<lambda>p1.
      with_meta p1 (set_root ptr i (base_md p1)))"

text \<open>The first read of a root installs the conservative filter.\<close>

definition RP_get_root_c :: "nat \<Rightarrow> process \<Rightarrow> (addr \<times> process) outcome" where
  "RP_get_root_c i p =
    check (initialized p) (and_then (get_root i (base_md p)) (\<lambda>r.
      Inr (r, p\<lparr>roots_filter_func := (roots_filter_func p)(i :=
        if roots_filter_func p i = None then Some RootMark else roots_filter_func p i)\<rparr>)))"

text \<open>The filter is a function pointer: null, or the \<open>k\<close>-th filter of the program.\<close>

definition RP_set_root_filter :: "nat option \<Rightarrow> nat \<Rightarrow> process \<Rightarrow> process outcome" where
  "RP_set_root_filter func i p =
    check (i < MAX_ROOTS) (Inr (p\<lparr>roots_filter_func := (roots_filter_func p)(i := map_option RootCustom func)\<rparr>))"

section \<open>Queries\<close>

definition RP_cache_size :: "nat \<Rightarrow> process \<Rightarrow> nat" where
  "RP_cache_size t p =
    fold (\<lambda>i total.
      let sc = get_sizeclass_by_idx i; sc_block_size = block_size sc
      in total + cache_block_count (t_cache (base_md p) t i)) [1..<MAX_SZ_IDX] 0"

definition RP_cache_count :: "nat \<Rightarrow> process \<Rightarrow> nat" where
  "RP_cache_count t p = fold (\<lambda>i total. total + cache_block_count (t_cache (base_md p) t i)) [1..<MAX_SZ_IDX] 0"

text \<open>
  \<open>None\<close> is the answer 1 of an invalid query; \<open>start_addr\<close> and \<open>end_addr\<close> are the addresses of the two results. A negative
  index passes the test and reads outside the arrays.
\<close>

definition RP_region_range :: "int \<Rightarrow> addr \<Rightarrow> addr \<Rightarrow> process \<Rightarrow> (addr \<times> addr) option outcome" where
  "RP_region_range idx start_addr end_addr p =
    (if start_addr = 0 \<or> end_addr = 0 \<or> idx \<ge> int (cur_idx (rgs p)) then Inr None
     else if idx < 0 then Inl BadCall
     else (case regions (rgs p) (nat idx) of None \<Rightarrow> Inl NullDeref
        | Some r \<Rightarrow> Inr (Some (lookup (rgs p) (nat idx), (lookup (rgs p) (nat idx) + FILESIZE r) mod 2 ^ 64))))"

section \<open>Recovery and closing\<close>

definition RP_gc :: "custom_filters \<Rightarrow> process \<Rightarrow> process outcome" where
  "RP_gc custom p = and_then (gc_run custom (roots_filter_func p) (base_md p)) (\<lambda>(n, s).
    Inr (p\<lparr>base_md := s, gc_count := gc_count p + n\<rparr>))"

definition RP_gc_count :: "process \<Rightarrow> nat" where
  "RP_gc_count p = gc_count p"

definition RP_invalidate :: "nat \<Rightarrow> process \<Rightarrow> process" where
  "RP_invalidate t p = p\<lparr>base_md := (base_md p)\<lparr>t_cache := (t_cache (base_md p))(t := \<lambda>_. TCacheBin_new)\<rparr>\<rparr>"

definition RP_recover :: "nat \<Rightarrow> custom_filters \<Rightarrow> process \<Rightarrow> (int \<times> process) outcome" where
  "RP_recover t custom p =
    and_then (restart t custom (roots_filter_func p) (dirty_mtx p) (base_md p)) (\<lambda>(ret, n, m, s).
      Inr (of_bool ret, p\<lparr>base_md := s, dirty_mtx := m, gc_count := gc_count p + n\<rparr>))"

text \<open>
  What a process has in its files: the headers, and what it mapped, by the distance from the start of the file.
\<close>

definition files_of :: "process \<Rightarrow> heap_files" where
  "files_of p = \<lparr>f_hdr = (\<lambda>i. if i = SB_IDX then Some (hdr (sb_region (base_md p))) else map_option hdr (regions (rgs p) (region_no i))),
    f_sb = (\<lambda>k. mem (base_md p) (base_addr (sb_region (base_md p)) + k)),
    f_desc = (\<lambda>k. descs (base_md p) (file_base (rgs p) DESC_IDX + k)),
    f_avail_sb = avail_sb (base_md p), f_heaps = heaps (base_md p), f_roots = roots (base_md p), f_mtx = dirty_mtx p\<rparr>"

text \<open>Closing, by the thread \<open>t\<close>, and the files it leaves behind.\<close>

definition RP_close :: "nat \<Rightarrow> nat \<Rightarrow> process \<Rightarrow> process \<times> heap_files" where
  "RP_close t meta_size p =
    (let (_, m) = writeback t meta_size (base_md_addr p) (dirty_mtx p);
         p1 = p\<lparr>dirty_mtx := m, initialized := False\<rparr>
     in (p1\<lparr>rgs := Regions_destroy (rgs p1)\<rparr>, files_of p1))"

section \<open>Filling a block\<close>

lemma represents_bytes: "represents s H \<Longrightarrow> H q = Some bs \<Longrightarrow> bs = map (mem s) [q..<q + length bs]"
  by (auto simp: represents_def live_def split: if_splits)

text \<open>A memory that differs inside one block of the program only: the heap of the program with that block rewritten.\<close>

lemma represents_fill:
  assumes rep: "represents s H" and H: "H q = Some bs" and out: "\<And>x. x < q \<or> q + length bs \<le> x \<Longrightarrow> m x = mem s x"
  shows "represents (s\<lparr>mem := m\<rparr>) (H(q \<mapsto> map m [q..<q + length bs]))"
proof -
  define M where "M k x = (if q \<le> x \<and> x < q + k then m x else mem s x)" for k x
  let ?R = "[q..<q + length bs]"
  have bs: "bs = map (mem s) ?R" by (rule represents_bytes [OF rep H])
  have "represents (s\<lparr>mem := M k\<rparr>) (H(q \<mapsto> map (M k) ?R))" if "k \<le> length bs" for k
    using that
  proof (induction k)
    case 0
    have "M 0 = mem s" by (auto simp: M_def fun_eq_iff)
    then show ?case using rep H bs by (simp add: fun_upd_idem)
  next
    case (Suc k)
    have "represents (s\<lparr>mem := M k\<rparr>) (H(q \<mapsto> map (M k) ?R))" by (rule Suc.IH) (use Suc.prems in simp)
    then have "represents ((s\<lparr>mem := M k\<rparr>)\<lparr>mem := (mem (s\<lparr>mem := M k\<rparr>))(q + k := m (q + k))\<rparr>)
        (spec_write q k (m (q + k)) (H(q \<mapsto> map (M k) ?R)))"
      by (rule represents_write [where bs = "map (M k) ?R"]) (use Suc.prems in simp_all)
    moreover have M: "(M k)(q + k := m (q + k)) = M (Suc k)" by (auto simp: M_def fun_eq_iff)
    moreover have "(map (M k) ?R)[k := m (q + k)] = map (M (Suc k)) ?R"
      using Suc.prems by (auto simp: M [symmetric] nth_list_update intro!: nth_equalityI)
    ultimately have "represents (s\<lparr>mem := M (Suc k)\<rparr>) (H(q \<mapsto> map (M (Suc k)) ?R))" by (simp add: spec_write_def)
    then show ?case by (rule subst [rotated]) (simp add: fun_upd_def)
  qed
  from this [of "length bs"] have "represents (s\<lparr>mem := M (length bs)\<rparr>) (H(q \<mapsto> map (M (length bs)) ?R))" by simp
  moreover have "M (length bs) = m" using out by (auto simp: M_def fun_eq_iff not_le)
  ultimately show ?thesis by simp
qed

lemma represents_size:
  assumes "represents (base_md p) H" and "H q = Some bs"
  shows "RP_malloc_size q p = length bs"
  using assms by (auto simp: represents_def live_def RP_malloc_size_def msize_def split: if_splits)

lemma RP_malloc_cases:
  assumes "represents (base_md p) H" and "initialized p" and "sz + SBSIZE \<le> 2 ^ 32"
  shows "RP_malloc t sz p = Inl OutOfSpace \<or>
    (\<exists>q s bs. RP_malloc t sz p = Inr (q, p\<lparr>base_md := s\<rparr>) \<and> represents s (H(q \<mapsto> bs)) \<and> q \<notin> dom H \<and> q \<noteq> 0 \<and> sz \<le> length bs)"
proof (cases "do_malloc t sz (base_md p)")
  case (Inl e)
  then show ?thesis using represents_malloc_error [OF assms(1,3)] assms(2) by (simp add: RP_malloc_def with_meta_def)
next
  case (Inr r)
  obtain q s where r: "r = (q, s)" by (cases r)
  let ?bs = "map (mem s) [q..<q + msize s q]"
  have m: "spec_malloc sz H q (H(q \<mapsto> ?bs))" "represents s (H(q \<mapsto> ?bs))"
    using represents_malloc [OF assms(1,3)] Inr r by auto
  have "RP_malloc t sz p = Inr (q, p\<lparr>base_md := s\<rparr>)" using Inr r assms(2) by (simp add: RP_malloc_def with_meta_def)
  moreover have "q \<notin> dom H" "sz \<le> length ?bs" "q \<noteq> 0"
    using m represents_in_heap(1) [OF m(2), of q] by (auto simp: spec_malloc_def dest!: map_upd_eqD1)
  ultimately show ?thesis using m(2) by blast
qed

text \<open>A process over an allocator state.\<close>

definition process_on :: "ralloc \<Rightarrow> process" where
  "process_on s = \<lparr>initialized = True, rgs = Regions_new, base_md = s, base_md_addr = 0, dirty_mtx = Locked 0,
    roots_filter_func = (\<lambda>_. None), gc_count = 0\<rparr>"

lemma process_on_simps [simp]: "initialized (process_on s)" "base_md (process_on s) = s" "dirty_mtx (process_on s) = Locked 0"
  by (simp_all add: process_on_def)

lemma boot_block:
  assumes "sz \<le> MAX_SZ"
  shows "\<exists>s q s1 bs. BaseMeta_new (boot_state 0) = Inr s \<and> represents s Map.empty \<and>
    RP_malloc t sz (process_on s) = Inr (q, process_on s1) \<and> represents s1 [q \<mapsto> bs] \<and> length bs = bsize (get_sizeclass sz)"
proof -
  obtain s where s: "BaseMeta_new (boot_state 0) = Inr s" "represents s Map.empty" using boot_reach by blast
  obtain q s1 where m: "do_malloc t sz s = Inr (q, s1)" using boot_malloc [OF _ s(1) assms, of t] boot_state_ok [of 0] by auto
  have "sz + SBSIZE \<le> 2 ^ 32" using assms by (simp add: pm_consts)
  then have "represents s1 [q \<mapsto> map (mem s1) [q..<q + msize s1 q]]" using represents_malloc [OF s(2) _ m] by blast
  moreover have "RP_malloc t sz (process_on s) = Inr (q, process_on s1)" using m by (simp add: RP_malloc_def with_meta_def process_on_def)
  moreover have "length (map (mem s1) [q..<q + msize s1 q]) = bsize (get_sizeclass sz)" using represents_malloc_size [OF s(2) assms m] by simp
  ultimately show ?thesis using s by blast
qed

section \<open>The contract of the interface\<close>

text \<open>C18: \<^verbatim>\<open>RP_calloc\<close>. Unless the file is full, the call returns a new block of at least \<^verbatim>\<open>num * size\<close> bytes, all of them
  zero, and leaves the other blocks alone, for products below 4 GiB.\<close>

theorem RP_calloc_zeroes:
  assumes "represents (base_md p) H" and "initialized p" and "num * sz + SBSIZE \<le> 2 ^ 32"
  shows "RP_calloc t num sz p = Inl OutOfSpace \<or>
    (\<exists>q p' n. RP_calloc t num sz p = Inr (q, p') \<and> q \<notin> dom H \<and> num * sz \<le> n \<and>
      represents (base_md p') (H(q \<mapsto> replicate n 0)))"
proof -
  have w: "(num * sz) mod 2 ^ 64 = num * sz" using assms(3) by (simp add: pm_consts)
  from RP_malloc_cases [OF assms, of t] show ?thesis
  proof (elim disjE exE conjE)
    fix q s bs
    assume m: "RP_malloc t (num * sz) p = Inr (q, p\<lparr>base_md := s\<rparr>)" "represents s (H(q \<mapsto> bs))" "q \<notin> dom H" "q \<noteq> 0" "num * sz \<le> length bs"
    let ?m = "memset q 0 (length bs) (mem s)"
    have "RP_malloc_size q (p\<lparr>base_md := s\<rparr>) = length bs" by (rule represents_size [where H = "H(q \<mapsto> bs)"]) (use m(2) in simp_all)
    then have c: "RP_calloc t num sz p = Inr (q, p\<lparr>base_md := s\<lparr>mem := ?m\<rparr>\<rparr>)" unfolding RP_calloc_def w m(1) using m(4) by simp
    have "represents (s\<lparr>mem := ?m\<rparr>) ((H(q \<mapsto> bs))(q \<mapsto> map ?m [q..<q + length bs]))"
      by (rule represents_fill [OF m(2)]) (auto simp: memset_def)
    moreover have "map ?m [q..<q + length bs] = replicate (length bs) 0" by (auto simp: memset_def intro!: nth_equalityI)
    ultimately show ?thesis using c m(3,5) by auto
  qed (simp only: RP_calloc_def w and_then_simps, simp)
qed

theorem RP_calloc_zeroes_witness:
  "\<exists>s. BaseMeta_new (boot_state 0) = Inr s \<and> (RP_calloc 0 10 20 (process_on s) = Inl OutOfSpace \<or>
    (\<exists>q p' n. RP_calloc 0 10 20 (process_on s) = Inr (q, p') \<and> 200 \<le> n \<and> represents (base_md p') [q \<mapsto> replicate n 0]))"
proof -
  obtain s where s: "BaseMeta_new (boot_state 0) = Inr s" "represents s Map.empty" using boot_reach by blast
  have "10 * 20 + SBSIZE \<le> 2 ^ 32" by (simp add: pm_consts)
  from RP_calloc_zeroes [of "process_on s" Map.empty, OF _ _ this, of 0] s show ?thesis by auto
qed

text \<open>The product of \<^verbatim>\<open>RP_calloc\<close> wraps around: asking for \<open>2 ^ 61 + 1\<close> elements of 8 bytes is asking for one.\<close>

lemma RP_calloc_wraps: "RP_calloc t (2 ^ 61 + 1) 8 p = RP_calloc t 1 8 p"
  by (simp add: RP_calloc_def)

text \<open>C10: \<^verbatim>\<open>RP_realloc\<close> to a size that is not smaller. Unless the file is full, the block at the returned address has the requested
  size and starts with the bytes of the old one, which is gone if the block moved; all other blocks stay.\<close>

theorem RP_realloc_grows:
  assumes rep: "represents (base_md p) H" and init: "initialized p" and H: "H ptr = Some bs" and sz: "length bs \<le> new_size" "new_size + SBSIZE \<le> 2 ^ 32"
  shows "RP_realloc t ptr new_size p = Inl OutOfSpace \<or>
    (\<exists>q p' bs'. RP_realloc t ptr new_size p = Inr (q, p') \<and> (q = ptr \<or> q \<notin> dom H) \<and>
      new_size \<le> length bs' \<and> take (length bs) bs' = bs \<and> represents (base_md p') ((H(ptr := None))(q \<mapsto> bs')))"
proof -
  have pH: "ptr \<in> dom H" using H by blast
  note h = represents_in_heap [OF rep pH]
  have z: "ptr \<noteq> 0" using h(1) by simp
  have old: "RP_malloc_size ptr p = length bs" by (rule represents_size [OF rep H])
  show ?thesis
  proof (cases "length bs = new_size")
    case True
    then have "RP_realloc t ptr new_size p = Inr (ptr, p)" using z h(2) old by (simp add: RP_realloc_def)
    moreover have "(H(ptr := None))(ptr \<mapsto> bs) = H" using H by (simp add: fun_upd_idem)
    ultimately show ?thesis using True rep by auto
  next
    case False
    from RP_malloc_cases [OF rep init sz(2), of t] show ?thesis
    proof (elim disjE exE conjE)
      assume "RP_malloc t new_size p = Inl OutOfSpace"
      then show ?thesis using z h(2) old False by (simp add: RP_realloc_def)
    next
      fix q s nb
      assume m: "RP_malloc t new_size p = Inr (q, p\<lparr>base_md := s\<rparr>)" "represents s (H(q \<mapsto> nb))" "q \<notin> dom H" "q \<noteq> 0" "new_size \<le> length nb"
      let ?m = "memcpy q ptr (length bs) (mem s)" and ?R = "[q..<q + length nb]"
      have ne: "ptr \<noteq> q" using m(3) pH by blast
      then have Hp: "(H(q \<mapsto> nb)) ptr = Some bs" using H by simp
      have "map (mem s) [ptr..<ptr + length bs] = bs" by (rule represents_bytes [OF m(2) Hp, symmetric])
      then have bs: "mem s (ptr + i) = bs ! i" if "i < length bs" for i using that by (metis length_map length_upt nth_map_upt add_diff_cancel_left')
      have tk: "take (length bs) (map ?m ?R) = bs"
        using sz(1) m(5) bs by (auto simp: memcpy_def intro!: nth_equalityI)
      have "represents (s\<lparr>mem := ?m\<rparr>) ((H(q \<mapsto> nb))(q \<mapsto> map ?m ?R))"
        by (rule represents_fill [OF m(2)]) (use sz(1) m(5) in \<open>auto simp: memcpy_def\<close>)
      then have r: "represents (s\<lparr>mem := ?m\<rparr>) (H(q \<mapsto> map ?m ?R))" by simp
      obtain s3 where s3: "do_free t ptr (s\<lparr>mem := ?m\<rparr>) = Inr s3" "represents s3 (spec_free ptr (H(q \<mapsto> map ?m ?R)))"
        using represents_free [OF r, of ptr t] pH by auto
      have "RP_realloc t ptr new_size p = Inr (q, p\<lparr>base_md := s3\<rparr>)"
        using z h(2) old False m(1,4) s3(1) init by (simp add: RP_realloc_def RP_free_def)
      moreover have "spec_free ptr (H(q \<mapsto> map ?m ?R)) = (H(ptr := None))(q \<mapsto> map ?m ?R)"
        using ne by (simp add: spec_free_def fun_upd_twist)
      ultimately show ?thesis using s3(2) m(3,5) tk by (intro disjI2 exI [of _ q] exI [of _ "p\<lparr>base_md := s3\<rparr>"] exI [of _ "map ?m ?R"]) simp
    qed
  qed
qed

lemma bsize_of: "bsize (get_sizeclass 64) = 64" "bsize (get_sizeclass 8) = 8"
  using bsize_get_sizeclass [of 8] bsize_get_sizeclass [of 1] by (simp_all add: bsize_nth bsizes_eq pm_consts)

theorem RP_realloc_grows_witness:
  "\<exists>s q p1. BaseMeta_new (boot_state 0) = Inr s \<and> RP_malloc 0 64 (process_on s) = Inr (q, p1) \<and>
    (RP_realloc 1 q 100000 p1 = Inl OutOfSpace \<or>
     (\<exists>q' p' bs'. RP_realloc 1 q 100000 p1 = Inr (q', p') \<and> 100000 \<le> length bs' \<and> represents (base_md p') (Map.empty(q' \<mapsto> bs'))))"
proof -
  obtain s q s1 bs where m: "BaseMeta_new (boot_state 0) = Inr s" "RP_malloc 0 64 (process_on s) = Inr (q, process_on s1)"
    "represents s1 [q \<mapsto> bs]" "length bs = 64"
    using boot_block [of 64 0] bsize_of by (auto simp: pm_consts)
  have "length bs \<le> 100000" "100000 + SBSIZE \<le> 2 ^ 32" using m(4) by (simp_all add: pm_consts)
  from RP_realloc_grows [of "process_on s1" "[q \<mapsto> bs]" q bs, OF _ _ _ this, of 1] m show ?thesis by auto
qed

text \<open>A heap with one large block still serves small requests.\<close>

lemma boot_large:
  assumes "k \<le> 2 ^ 36" and sz: "MAX_SZ < sz" "sz \<le> k"
  shows "\<exists>s q s1. BaseMeta_new (boot_state k) = Inr s \<and> represents s Map.empty \<and> do_malloc t sz s = Inr (q, s1) \<and>
    (sz + SBSIZE \<le> 2 ^ 32 \<and> n \<le> MAX_SZ \<longrightarrow> (\<exists>q' s2. do_malloc t n s1 = Inr (q', s2)))"
proof -
  obtain s g where g: "BaseMeta_new (boot_state k) = Inr s" "heap_inv s g" "users g = {}" "held g = {}" "nsb g = 16384" "free g = [1..<16384]"
    "sb_start s = 2 ^ 40 + 2 ^ 16" "base_addr (sb_region s) = 2 ^ 40" "FILESIZE (sb_region s) = 2 ^ 30 + 2 ^ 17 + k"
    using boot_form [OF assms(1)] by blast
  have z: "0 < sz" "sz + SBSIZE \<le> 2 ^ 63" and n: "1 \<le> nsb g" using assms g(5) by (simp_all add: pm_consts)
  have "sbk s (nsb g) + sb_count sz * SBSIZE \<le> 2 ^ 40 + (2 ^ 30 + 2 ^ 17 + k)"
    using sb_count_bounds(2) [OF z(1)] assms(3) g(5,7) by (simp add: sbk_def pm_consts)
  then obtain s1 where s1: "malloc_large sz s = Inr (sbk s (nsb g), s1)"
    using malloc_large_eq [OF g(2) n z] g(8,9) by simp
  have "\<exists>q' s2. do_malloc t n s1 = Inr (q', s2)" if lim: "sz + SBSIZE \<le> 2 ^ 32" "n \<le> MAX_SZ"
  proof -
    obtain g1 where g1: "allocated sz s g (sbk s (nsb g)) s1 g1" "free g1 = free g"
      using malloc_large_ok [OF g(2) n z(1) lim(1)] s1 by auto
    have "heap_inv s1 g1" "1 \<le> nsb g1" using g1(1) n by (auto simp: allocated_def)
    moreover have "\<not> no_room s1 g1" using g1(2) g(6) by (simp add: no_room_def)
    moreover have "n + SBSIZE \<le> 2 ^ 32" using lim(2) by (simp add: pm_consts)
    ultimately show ?thesis using do_malloc_ok [of s1 g1 n t] lim(2) by auto
  qed
  moreover have "represents s Map.empty" using g by (auto simp: represents_def live_def fun_eq_iff)
  moreover have "do_malloc t sz s = Inr (sbk s (nsb g), s1)" using s1 sz(1) by (simp add: do_malloc_def)
  ultimately show ?thesis using g(1) by blast
qed

text \<open>C27: \<^verbatim>\<open>RP_realloc\<close> to a smaller size writes past the new block. The number of bytes copied is the size of the old
  block, so the bytes of the old block from the size of the new one on land behind the new block.\<close>

theorem RP_realloc_overruns:
  assumes rep: "represents (base_md p) H" and init: "initialized p" and H: "H ptr = Some bs" and sz: "new_size + SBSIZE \<le> 2 ^ 32"
    and m: "RP_malloc t new_size p = Inr (q, p1)" and small: "RP_malloc_size q p1 < length bs"
  shows "\<exists>m. RP_realloc t ptr new_size p = and_then (RP_free t ptr (p1\<lparr>base_md := (base_md p1)\<lparr>mem := m\<rparr>\<rparr>)) (\<lambda>p3. Inr (q, p3)) \<and>
    (\<forall>k. RP_malloc_size q p1 \<le> k \<and> k < length bs \<longrightarrow> m (q + k) = bs ! k)"
proof -
  have pH: "ptr \<in> dom H" using H by blast
  note h = represents_in_heap [OF rep pH]
  have z: "ptr \<noteq> 0" using h(1) by simp
  have old: "RP_malloc_size ptr p = length bs" by (rule represents_size [OF rep H])
  obtain s nb where s: "p1 = p\<lparr>base_md := s\<rparr>" "represents s (H(q \<mapsto> nb))" "q \<notin> dom H" "q \<noteq> 0" "new_size \<le> length nb"
    using RP_malloc_cases [OF rep init sz, of t] m by auto
  have "RP_malloc_size q p1 = length nb" by (rule represents_size [where H = "H(q \<mapsto> nb)"]) (use s(1,2) in simp_all)
  then have ne: "length bs \<noteq> new_size" using small s(5) by simp
  have "ptr \<noteq> q" using s(3) pH by blast
  then have Hp: "(H(q \<mapsto> nb)) ptr = Some bs" using H by simp
  have "map (mem s) [ptr..<ptr + length bs] = bs" by (rule represents_bytes [OF s(2) Hp, symmetric])
  then have bs: "mem s (ptr + i) = bs ! i" if "i < length bs" for i using that by (metis length_map length_upt nth_map_upt add_diff_cancel_left')
  have "RP_realloc t ptr new_size p = and_then (RP_free t ptr (p1\<lparr>base_md := (base_md p1)\<lparr>mem := memcpy q ptr (length bs) (mem s)\<rparr>\<rparr>)) (\<lambda>p3. Inr (q, p3))"
    using z h(2) old ne m s(1,4) by (simp add: RP_realloc_def Let_def)
  moreover have "memcpy q ptr (length bs) (mem s) (q + k) = bs ! k" if "k < length bs" for k using bs [OF that] that by (simp add: memcpy_def)
  ultimately show ?thesis by blast
qed

theorem RP_realloc_overruns_witness:
  "\<exists>s q s1 q' p1 m bs. BaseMeta_new (boot_state (2 ^ 20)) = Inr s \<and> do_malloc 0 100000 s = Inr (q, s1) \<and>
    RP_malloc 0 8 (process_on s1) = Inr (q', p1) \<and> RP_malloc_size q' p1 = 8 \<and> 100000 \<le> length bs \<and> m (q' + 8) = bs ! 8 \<and>
    RP_realloc 0 q 8 (process_on s1) = and_then (RP_free 0 q (p1\<lparr>base_md := (base_md p1)\<lparr>mem := m\<rparr>\<rparr>)) (\<lambda>p3. Inr (q', p3))"
proof -
  have k: "(2 :: nat) ^ 20 \<le> 2 ^ 36" "MAX_SZ < 100000" "(100000 :: nat) \<le> 2 ^ 20" "100000 + SBSIZE \<le> 2 ^ 32" "8 \<le> MAX_SZ" "8 + SBSIZE \<le> 2 ^ 32"
    by (simp_all add: pm_consts)
  obtain s q s1 q' s2 where s: "BaseMeta_new (boot_state (2 ^ 20)) = Inr s" "represents s Map.empty" "do_malloc 0 100000 s = Inr (q, s1)"
    "do_malloc 0 8 s1 = Inr (q', s2)"
    using boot_large [OF k(1-3), of 0 8] k(4,5) by blast
  let ?bs = "map (mem s1) [q..<q + msize s1 q]"
  have r: "spec_malloc 100000 Map.empty q [q \<mapsto> ?bs]" "represents s1 [q \<mapsto> ?bs]" using represents_malloc [OF s(2) k(4) s(3)] by simp_all
  have len: "100000 \<le> length ?bs" using r(1) by (auto simp: spec_malloc_def dest!: map_upd_eqD1)
  have m: "RP_malloc 0 8 (process_on s1) = Inr (q', process_on s2)" using s(4) by (simp add: RP_malloc_def with_meta_def process_on_def)
  have sz: "RP_malloc_size q' (process_on s2) = 8"
    using represents_malloc_size [OF r(2) k(5) s(4)] bsize_of(2) by (simp add: RP_malloc_size_def msize_def)
  then have lt: "RP_malloc_size q' (process_on s2) < length ?bs" using len by linarith
  have pre: "represents (base_md (process_on s1)) [q \<mapsto> ?bs]" "initialized (process_on s1)" "[q \<mapsto> ?bs] q = Some ?bs" using r(2) by simp_all
  from RP_realloc_overruns [OF pre k(6) m lt]
  obtain m' where m': "RP_realloc 0 q 8 (process_on s1) =
      and_then (RP_free 0 q ((process_on s2)\<lparr>base_md := (base_md (process_on s2))\<lparr>mem := m'\<rparr>\<rparr>)) (\<lambda>p3. Inr (q', p3))"
    "\<forall>k. 8 \<le> k \<and> k < length ?bs \<longrightarrow> m' (q' + k) = ?bs ! k"
    unfolding sz by blast
  have "8 < length ?bs" using len by linarith
  then have "m' (q' + 8) = ?bs ! 8" using m'(2) by blast
  then show ?thesis using s(1,3) m sz len m'(1) by blast
qed

text \<open>C28: a request of 4 GiB or more may be served; then the block is new, but the size that the allocator records for the block, and reports by
  \<^verbatim>\<open>RP_malloc_size\<close>, is the request rounded up to whole superblocks and taken modulo \<open>2 ^ 32\<close>, and so below the request.\<close>

theorem large_size_truncated:
  assumes rep: "represents (base_md p) H" and sz: "2 ^ 32 \<le> sz" "sz \<le> 2 ^ 62" and m: "RP_malloc t sz p = Inr (q, p')"
  shows "q \<notin> dom H \<and> RP_malloc_size q p' = ((sz + SBSIZE - 1) div SBSIZE * SBSIZE) mod 2 ^ 32 \<and> RP_malloc_size q p' < sz"
proof -
  let ?s = "base_md p"
  obtain g where g: "heap_inv ?s g" "1 \<le> nsb g" "H = live ?s g" using rep by (auto simp: represents_def)
  have z: "0 < sz" "sz + SBSIZE \<le> 2 ^ 63" "MAX_SZ < sz" using sz by (simp_all add: pm_consts)
  obtain s1 where s1: "malloc_large sz ?s = Inr (q, s1)" "p' = p\<lparr>base_md := s1\<rparr>"
    using m z(3) by (auto simp: RP_malloc_def with_meta_def do_malloc_def outcome_simps)
  have fit: "sbk ?s (nsb g) + sb_count sz * SBSIZE \<le> base_addr (sb_region ?s) + FILESIZE (sb_region ?s)"
    and q: "q = sbk ?s (nsb g)" "descs s1 = (descs ?s)(dsc ?s (nsb g) := large_desc (sb_start ?s) (sb_count sz * SBSIZE) (sbk ?s (nsb g)))"
      "desc_start s1 = desc_start ?s" "sb_start s1 = sb_start ?s"
    using malloc_large_eq [OF g(1,2) z(1,2)] s1(1) by (auto split: if_splits)
  have "desc_lookup s1 q = dsc ?s (nsb g)"
    using large_lookup [OF g(1,2) z(1) fit] q(1,3,4) by (simp add: desc_lookup_def)
  then have r: "RP_malloc_size q p' = (sb_count sz * SBSIZE) mod 2 ^ 32"
    using q(2) s1(2) by (simp add: RP_malloc_size_def large_desc_def)
  then have "RP_malloc_size q p' < sz" using sz(1) by (metis mod_less_divisor order_less_le_trans zero_less_numeral zero_less_power)
  moreover note r [unfolded sb_count_def]
  moreover have "q \<notin> dom H"
  proof
    assume "q \<in> dom H"
    then have "q < curr_addr (sb_region ?s)" using represents_in_heap(2) [OF rep] by (simp add: in_range_def)
    moreover have "curr_addr (sb_region ?s) = sbk ?s (nsb g)"
      using heap_invD(1) [OF g(1)] region_at_curr by (auto simp: geom_def sbk_def)
    ultimately show False using q(1) by simp
  qed
  ultimately show ?thesis by blast
qed

theorem large_size_truncated_witness:
  "\<exists>s q p'. BaseMeta_new (boot_state (2 ^ 33)) = Inr s \<and> RP_malloc 0 (2 ^ 32) (process_on s) = Inr (q, p') \<and> RP_malloc_size q p' = 0"
proof -
  have k: "(2 :: nat) ^ 33 \<le> 2 ^ 36" "MAX_SZ < 2 ^ 32" "(2 :: nat) ^ 32 \<le> 2 ^ 33" "(2 :: nat) ^ 32 \<le> 2 ^ 32" "(2 :: nat) ^ 32 \<le> 2 ^ 62" by (simp_all add: pm_consts)
  obtain s q s1 where s: "BaseMeta_new (boot_state (2 ^ 33)) = Inr s" "represents s Map.empty" "do_malloc 0 (2 ^ 32) s = Inr (q, s1)"
    using boot_large [OF k(1-3), of 0 0] by blast
  have m: "RP_malloc 0 (2 ^ 32) (process_on s) = Inr (q, process_on s1)" using s(3) by (simp add: RP_malloc_def with_meta_def process_on_def)
  have rep: "represents (base_md (process_on s)) Map.empty" using s(2) by simp
  have z: "((2 ^ 32 + SBSIZE - 1) div SBSIZE * SBSIZE) mod 2 ^ 32 = 0" by (simp add: pm_consts)
  show ?thesis using large_size_truncated [OF rep k(4,5) m] s(1) m unfolding z by blast
qed

text \<open>C19: roots. Storing a block of the program as a root and reading the root gives the block back; the other roots and
  all blocks stay.\<close>

theorem root_roundtrip:
  assumes rep: "represents (base_md p) H" and "initialized p" and "q \<in> dom H" and "i < MAX_ROOTS"
  shows "\<exists>old p' p''. RP_set_root auto_init q i p = Inr (old, p') \<and> RP_get_root_c i p' = Inr (q, p'') \<and>
    represents (base_md p'') H \<and> (\<forall>j. j \<noteq> i \<longrightarrow> get_root j (base_md p'') = get_root j (base_md p))"
proof -
  let ?s = "base_md p"
  note h = represents_in_heap [OF rep assms(3)]
  obtain old s' where s': "set_root q i ?s = Inr (old, s')" "s' = ?s\<lparr>roots := (roots ?s)(i := CrossPtr_assign (sb_start ?s) q)\<rparr>"
    using assms(4) by (simp add: set_root_def)
  have "untranslate (sb_start ?s) q \<noteq> 0" using h(1) unat_untranslate [OF h(3), of "sb_start ?s"] by auto
  then have "CrossPtr_cast (sb_start ?s) (CrossPtr_assign (sb_start ?s) q) = q"
    by (simp add: CrossPtr_cast_def CrossPtr_assign_def CrossPtr_is_null_def translate_untranslate [OF h(3)])
  then have "get_root i s' = Inr q" using assms(4) s'(2) by (simp add: get_root_def)
  moreover have "get_root j s' = get_root j ?s" if "j \<noteq> i" for j using that s'(2) by (simp add: get_root_def)
  moreover have "represents s' H" by (rule represents_set_root [OF rep s'(1)])
  ultimately show ?thesis using s'(1) assms(2) by (simp add: RP_set_root_def RP_get_root_c_def with_meta_def)
qed

theorem root_roundtrip_witness:
  "\<exists>s q p1 old p' p''. BaseMeta_new (boot_state 0) = Inr s \<and> RP_malloc 0 64 (process_on s) = Inr (q, p1) \<and>
    RP_set_root (\<lambda>_. Inl Exited) q 5 p1 = Inr (old, p') \<and> RP_get_root_c 5 p' = Inr (q, p'')"
proof -
  have k: "64 \<le> MAX_SZ" "5 < MAX_ROOTS" by (simp_all add: pm_consts)
  obtain s q s1 bs where m: "BaseMeta_new (boot_state 0) = Inr s" "RP_malloc 0 64 (process_on s) = Inr (q, process_on s1)" "represents s1 [q \<mapsto> bs]"
    using boot_block [OF k(1), of 0] by blast
  from root_roundtrip [of "process_on s1" "[q \<mapsto> bs]" q 5 "\<lambda>_. Inl Exited"] m k(2) show ?thesis by auto
qed

text \<open>C29: storing the null pointer as a root does not clear it. Reading the root gives null, but the stored offset is not the
  null offset, so that garbage collection treats the root as set and calls its filter, which may be empty.\<close>

theorem null_root_not_null:
  assumes "represents (base_md p) H" and "initialized p" and "i < MAX_ROOTS"
  shows "\<exists>old p'. RP_set_root auto_init 0 i p = Inr (old, p') \<and> get_root i (base_md p') = Inr 0 \<and>
    \<not> CrossPtr_is_null (roots (base_md p') i) \<and>
    (roots_filter_func p i = None \<longrightarrow> mark_root custom (roots_filter_func p') (base_md p') i c = Inl BadCall)"
proof -
  let ?s = "base_md p"
  obtain g where g: "heap_inv ?s g" using assms(1) by (auto simp: represents_def)
  have st: "0 < sb_start ?s" "sb_start ?s < 2 ^ 47"
    using heap_invD(1) [OF g] geom_bounds(3) [OF heap_invD(1) [OF g], of 0] by (auto simp: geom_def user_addr_def sbk_def)
  have "(of_nat (sb_start ?s) :: u64) \<noteq> 0"
  proof
    assume "(of_nat (sb_start ?s) :: u64) = 0"
    then have "unat (of_nat (sb_start ?s) :: u64) = 0" by simp
    then show False using st by (simp add: unat_of_nat_user user_addr_def)
  qed
  then have u: "untranslate (sb_start ?s) 0 \<noteq> 0" by (simp add: untranslate_def)
  have "translate (sb_start ?s) (untranslate (sb_start ?s) 0) = 0" by (simp add: translate_def untranslate_def)
  then show ?thesis using assms(2,3) u
    by (simp add: RP_set_root_def with_meta_def set_root_def get_root_def mark_root_def CrossPtr_cast_def CrossPtr_assign_def CrossPtr_is_null_def)
qed

theorem null_root_not_null_witness:
  "\<exists>s old p'. BaseMeta_new (boot_state 0) = Inr s \<and> RP_set_root (\<lambda>_. Inl Exited) 0 7 (process_on s) = Inr (old, p') \<and>
    mark_root (\<lambda>_ _ _. []) (roots_filter_func p') (base_md p') 7 GarbageCollection_new = Inl BadCall"
proof -
  obtain s where s: "BaseMeta_new (boot_state 0) = Inr s" "represents s Map.empty" using boot_reach by blast
  have k: "7 < MAX_ROOTS" by (simp add: pm_consts)
  from null_root_not_null [of "process_on s" Map.empty 7 "\<lambda>_. Inl Exited" "\<lambda>_ _ _. []" GarbageCollection_new] s k show ?thesis
    by (auto simp: process_on_def)
qed

end
