(* ===== verification/RallocLife.thy ===== *)
theory RallocLife
  imports RallocApi
begin

text \<open>
  The creation of a heap by \<^verbatim>\<open>RP_init\<close>, which composes the regions, the dirty flag and the constructor of the allocator, and the
  errors of the interface.
\<close>

section \<open>Regions that the operating system grants\<close>

text \<open>
  \<open>os_grants os b sz\<close>: the calls succeed and the file of a region of \<open>sz\<close> bytes is mapped at the page \<open>b\<close> of
  user space.
\<close>

definition os_grants :: "os_answers \<Rightarrow> addr \<Rightarrow> nat \<Rightarrow> bool" where
  "os_grants os b sz \<longleftrightarrow> os_lseek os \<and> os_write os \<and> os_mmap os = Some b \<and> os_mbind os \<noteq> Some False \<and>
    PAGESIZE dvd b \<and> 0 < b \<and> user_addr (b + (sz div PAGESIZE + 2) * PAGESIZE)"

lemma fresh_region:
  assumes "os_grants os b sz" and "sz mod CACHELINE_SIZE = 0"
  shows "\<exists>r. RegionManager_new os u None sz True False = Inr r \<and> region_at r (b + PAGESIZE) \<and> base_addr r = b \<and>
    FILESIZE r = (sz div PAGESIZE + 2) * PAGESIZE \<and> hdr_size (hdr r) = of_nat (FILESIZE r)"
proof -
  let ?n = "(sz div PAGESIZE + 2) * PAGESIZE"
  let ?r = "\<lparr>FILESIZE = ?n, base_addr = b, hdr = fresh_hdr ?n b, persist = True\<rparr>"
  have "RegionManager_new os u None sz True False = Inr ?r"
    using assms by (auto simp: RegionManager_new_def map_persistent_region_def os_grants_def Let_def)
  moreover have "region_at ?r (b + PAGESIZE)"
    using assms by (simp add: region_at_def os_grants_def fresh_hdr_def pm_consts)
  ultimately show ?thesis by (auto simp: fresh_hdr_def)
qed

lemma fresh_region_expanded:
  assumes "os_grants os b sz" and "sz mod CACHELINE_SIZE = 0" and "0 < sz"
  shows "\<exists>r. RegionManager_new os u None sz True True = Inr r \<and> fetch_heap_start r = b + PAGESIZE \<and> base_addr r = b \<and>
    FILESIZE r = (sz div PAGESIZE + 2) * PAGESIZE \<and> hdr_size (hdr r) = of_nat (FILESIZE r)"
proof -
  obtain r where r: "RegionManager_new os u None sz True False = Inr r" "region_at r (b + PAGESIZE)" "base_addr r = b"
    "FILESIZE r = (sz div PAGESIZE + 2) * PAGESIZE" "hdr_size (hdr r) = of_nat (FILESIZE r)"
    using fresh_region [OF assms(1,2)] by blast
  have "(2 :: nat) ^ 6 dvd b + PAGESIZE"
    using assms(1) dvd_trans [of "2 ^ 6" "4096 :: nat" b] by (auto simp: os_grants_def pm_consts intro!: dvd_add)
  then have c: "ceil_to (2 ^ 6) (b + PAGESIZE) = b + PAGESIZE" by (intro ceil_to_unique) simp_all
  have le: "sz \<le> (sz div PAGESIZE + 1) * PAGESIZE" by (simp add: pm_consts)
  then have fit: "ceil_to (2 ^ 6) (b + PAGESIZE) + sz \<le> base_addr r + FILESIZE r" unfolding c r(3,4) by (simp add: pm_consts)
  have al: "nvm_region_allocator CACHELINE_SIZE sz r =
      (1, Some (b + PAGESIZE), set_curr (atomic_pptr_store (base_addr r) (b + PAGESIZE + sz)) r)"
    using nvm_region_allocator_ok(1) [OF r(2) _ _ assms(3) fit] c by (simp add: CACHELINE_SIZE_def)
  have u: "user_addr (b + PAGESIZE)" using assms(1) by (auto simp: os_grants_def user_addr_def pm_consts)
  have "RegionManager_new os u None sz True True = and_then (RegionManager_new os u None sz True False) (expand_immediately u sz)"
    by (simp add: RegionManager_new_def Let_def check_def and_then_def split: sum.splits)
  moreover define r' where "r' = store_heap_start (b + PAGESIZE) (set_curr (atomic_pptr_store (base_addr r) (b + PAGESIZE + sz)) r)"
  ultimately have "RegionManager_new os u None sz True True = Inr r'" using r(1) al by (simp add: expand_immediately_def)
  moreover have "base_addr r' = base_addr r" "FILESIZE r' = FILESIZE r" "hdr_size (hdr r') = hdr_size (hdr r)"
    by (simp_all add: r'_def store_heap_start_def set_curr_def)
  moreover have "fetch_heap_start r' = b + PAGESIZE" unfolding r'_def by (rule fetch_store_heap_start [OF u])
  ultimately show ?thesis using r(3-5) by metis
qed

definition region_file :: "RegionManager \<Rightarrow> addr \<Rightarrow> nat \<Rightarrow> bool" where
  "region_file r b sz \<longleftrightarrow> base_addr r = b \<and> FILESIZE r = (sz div PAGESIZE + 2) * PAGESIZE \<and>
    hdr_size (hdr r) = of_nat (FILESIZE r) \<and> persist r"

lemma region_file_fresh: "os_grants os b sz \<Longrightarrow> RegionManager_new os u None sz True e = Inr r \<Longrightarrow> region_file r b sz"
  by (auto simp: RegionManager_new_def map_persistent_region_def expand_immediately_def nvm_region_allocator_def os_grants_def
      region_file_def store_heap_start_def set_curr_def fresh_hdr_def Let_def outcome_simps split: if_splits prod.splits)

section \<open>Creating a heap\<close>

text \<open>What \<^verbatim>\<open>RP_init\<close> asks the operating system for.\<close>

definition grants_heap :: "(RegionIndex \<Rightarrow> os_answers) \<Rightarrow> (RegionIndex \<Rightarrow> addr) \<Rightarrow> nat \<Rightarrow> nat \<Rightarrow> bool" where
  "grants_heap os b meta_size sz \<longleftrightarrow> os_grants (os DESC_IDX) (b DESC_IDX) (sz div SBSIZE * DESCSIZE) \<and>
    os_grants (os SB_IDX) (b SB_IDX) (sz div SBSIZE * SBSIZE) \<and> os_grants (os META_IDX) (b META_IDX) meta_size \<and>
    0 < meta_size \<and> meta_size mod CACHELINE_SIZE = 0 \<and> acp_start (b DESC_IDX + PAGESIZE)"

text \<open>An empty heap of files: nothing exists yet, and new files are filled with zeros.\<close>

definition no_files :: "heap_files \<Rightarrow> bool" where
  "no_files fs \<longleftrightarrow> (\<forall>i. f_hdr fs i = None) \<and> (\<forall>k. heap (f_desc fs k) = None)"

text \<open>
  The state of the allocator on the files \<open>fs\<close>: the superblocks in the region \<open>r\<close>, starting at \<open>st\<close>, and the descriptors in the
  file mapped at \<open>bd\<close>, one page behind.
\<close>

definition image_at :: "heap_files \<Rightarrow> ralloc \<Rightarrow> RegionManager \<Rightarrow> addr \<Rightarrow> addr \<Rightarrow> ralloc" where
  "image_at fs s r st bd = s\<lparr>
    mem := (\<lambda>a. if base_addr r \<le> a \<and> a < base_addr r + FILESIZE r
                then if Suc a = base_addr r + FILESIZE r then 0 else f_sb fs (a - base_addr r) else mem s a),
    descs := (\<lambda>d. f_desc fs (d - bd)), avail_sb := f_avail_sb fs, heaps := f_heaps fs, roots := f_roots fs,
    sb_region := r, sb_start := st, desc_start := bd + PAGESIZE\<rparr>"

lemma image_at_simps [simp]:
  "sb_region (image_at fs s r st bd) = r" "sb_start (image_at fs s r st bd) = st" "desc_start (image_at fs s r st bd) = bd + PAGESIZE"
  "avail_sb (image_at fs s r st bd) = f_avail_sb fs" "heaps (image_at fs s r st bd) = f_heaps fs" "roots (image_at fs s r st bd) = f_roots fs"
  "t_cache (image_at fs s r st bd) = t_cache s" "descs (image_at fs s r st bd) = (\<lambda>d. f_desc fs (d - bd))"
  by (simp_all add: image_at_def)

lemma mem_image_at [simp]:
  "Suc k < FILESIZE r \<Longrightarrow> mem (image_at fs s r st bd) (base_addr r + k) = f_sb fs k"
  by (simp add: image_at_def)

lemma RP_init_fresh:
  assumes gr: "grants_heap os b meta_size sz" and "no_files fs" and sz: "sz < MAX_SB_REGION_SIZE" "MIN_SB_REGION_SIZE \<le> sz"
  shows "\<exists>r rs obj. region_at r (b SB_IDX + PAGESIZE) \<and> base_addr r = b SB_IDX \<and>
    FILESIZE r = sz div SBSIZE * SBSIZE + 2 * PAGESIZE \<and> region_file r (b SB_IDX) (sz div SBSIZE * SBSIZE) \<and>
    (\<exists>rd rm. regions rs 0 = Some rd \<and> regions rs 2 = Some rm \<and> region_file rd (b DESC_IDX) (sz div SBSIZE * DESCSIZE) \<and>
      fetch_heap_start rd = b DESC_IDX + PAGESIZE \<and> region_file rm (b META_IDX) meta_size) \<and>
    RP_init t os u meta_size fs sz p = and_then (BaseMeta_new (image_at fs (base_md p) r 0 (b DESC_IDX))) (\<lambda>s.
      Inr (0, p\<lparr>initialized := True,
        rgs := rs\<lparr>regions := (regions rs)(1 := Some (sb_region s)), regions_address := (regions_address rs)(1 := sb_start s)\<rparr>,
        base_md := s\<lparr>desc_start := b DESC_IDX + PAGESIZE\<rparr>, base_md_addr := obj, dirty_mtx := Locked t\<rparr>))"
proof -
  let ?n = "sz div SBSIZE"
  have n: "?n * DESCSIZE mod CACHELINE_SIZE = 0" "?n * SBSIZE mod CACHELINE_SIZE = 0" "0 < ?n * DESCSIZE"
    using sz(2) by (simp_all add: pm_consts)
  obtain rd where rd: "RegionManager_new (os DESC_IDX) (u DESC_IDX) None (?n * DESCSIZE) True True = Inr rd" "fetch_heap_start rd = b DESC_IDX + PAGESIZE"
      "base_addr rd = b DESC_IDX"
    using fresh_region_expanded [OF _ n(1,3)] gr unfolding grants_heap_def by blast
  obtain r where r: "RegionManager_new (os SB_IDX) (u SB_IDX) None (?n * SBSIZE) True False = Inr r" "region_at r (b SB_IDX + PAGESIZE)"
    "base_addr r = b SB_IDX" "FILESIZE r = (?n * SBSIZE div PAGESIZE + 2) * PAGESIZE" "hdr_size (hdr r) = of_nat (FILESIZE r)"
    using fresh_region [OF _ n(2)] gr unfolding grants_heap_def by blast
  obtain rm where rm: "RegionManager_new (os META_IDX) (u META_IDX) None meta_size True True = Inr rm"
    using fresh_region_expanded [of "os META_IDX" "b META_IDX" meta_size "u META_IDX"] gr by (auto simp: grants_heap_def)
  define rs where "rs = \<lparr>regions = (\<lambda>_. None)(0 := Some rd, 1 := Some r, 2 := Some rm),
    regions_address = (\<lambda>_. 0)(0 := b DESC_IDX + PAGESIZE, 2 := fetch_heap_start rm), cur_idx = 3\<rparr>"
  have nf: "f_hdr fs i = None" for i using assms(2) by (simp add: no_files_def)
  have "RP_init t os u meta_size fs sz p = and_then (BaseMeta_new (image_at fs (base_md p) r 0 (b DESC_IDX))) (\<lambda>s.
      Inr (0, p\<lparr>initialized := True,
        rgs := rs\<lparr>regions := (regions rs)(1 := Some (sb_region s)), regions_address := (regions_address rs)(1 := sb_start s)\<rparr>,
        base_md := s\<lparr>desc_start := b DESC_IDX + PAGESIZE\<rparr>, base_md_addr := fetch_heap_start rm, dirty_mtx := Locked t\<rparr>))"
    using sz rd r(1) rm nf
    by (cases "BaseMeta_new (image_at fs (base_md p) r 0 (b DESC_IDX))")
      (simp_all add: RP_init_def Let_def Regions_create_def Regions_create_for_def Regions_new_def construct_meta_def
        BaseMeta_mutex_locked mounted_def lookup_def image_at_def map_files_def file_base_def file_len_def rs_def fun_upd_twist numeral_2_eq_2 numeral_3_eq_3 cong: if_cong)
  moreover have "FILESIZE r = ?n * SBSIZE + 2 * PAGESIZE" unfolding r(4) by (simp add: pm_consts)
  moreover have "region_file r (b SB_IDX) (?n * SBSIZE)" "region_file rd (b DESC_IDX) (?n * DESCSIZE)" "region_file rm (b META_IDX) meta_size"
    using region_file_fresh rd(1) r(1) rm gr unfolding grants_heap_def by blast+
  moreover have "regions rs 0 = Some rd" "regions rs 2 = Some rm" by (simp_all add: rs_def)
  ultimately show ?thesis using r(2,3) rd(2) by blast
qed

lemma boot_ok_fresh:
  assumes ra: "region_at r (b + PAGESIZE)" "base_addr r = b" "FILESIZE r = n * SBSIZE + 2 * PAGESIZE" and n: "16385 \<le> n" "n \<le> MAX_SB_AMOUNT"
    and d: "PAGESIZE dvd d" "acp_start (d + PAGESIZE)" and "no_files fs" and tc: "\<And>t sc. tc_num (t_cache (base_md p) t sc) = 0"
  shows "boot_ok (image_at fs (base_md p) r 0 d)"
proof -
  have c: "curr_addr r = b + PAGESIZE" by (rule region_at_curr [OF ra(1)])
  define st where "st = ceil_to SBSIZE (b + PAGESIZE)"
  have st: "b + PAGESIZE \<le> st" "st < b + PAGESIZE + SBSIZE"
    unfolding st_def by (rule ceil_to_least, simp add: pm_consts)+
  have "DESCSIZE dvd d + PAGESIZE" using dvd_trans [of DESCSIZE PAGESIZE d] d(1) by (simp add: pm_consts)
  moreover have "st + SB_REGION_EXPAND_SIZE \<le> b + (n * SBSIZE + 2 * PAGESIZE)" "b + (n * SBSIZE + 2 * PAGESIZE) < st + (MAX_SB_AMOUNT + 1) * SBSIZE"
    using st n by (simp_all add: pm_consts)
  moreover have "heap (f_desc fs k) = None" for k using assms(8) by (simp add: no_files_def)
  ultimately show ?thesis using ra(1) d(2) tc
    by (simp add: boot_ok_def Let_def c ra(2,3) st_def) (simp add: pm_consts)
qed

text \<open>The regions of a process, as \<^verbatim>\<open>RP_init\<close> leaves them: each of its size, with the start of its contents in its header.\<close>

definition opened :: "(RegionIndex \<Rightarrow> addr) \<Rightarrow> nat \<Rightarrow> nat \<Rightarrow> process \<Rightarrow> bool" where
  "opened b meta_size sz p \<longleftrightarrow> (\<exists>rd rm. regions (rgs p) 0 = Some rd \<and> regions (rgs p) 2 = Some rm \<and>
    region_file rd (b DESC_IDX) (sz div SBSIZE * DESCSIZE) \<and> fetch_heap_start rd = desc_start (base_md p) \<and> desc_start (base_md p) = b DESC_IDX + PAGESIZE \<and>
    region_file (sb_region (base_md p)) (b SB_IDX) (sz div SBSIZE * SBSIZE) \<and> fetch_heap_start (sb_region (base_md p)) = sb_start (base_md p) \<and>
    region_file rm (b META_IDX) meta_size)"

lemma RP_init_created:
  assumes gr: "grants_heap os b meta_size sz" and nf: "no_files fs" and sz: "sz < MAX_SB_REGION_SIZE" "MIN_SB_REGION_SIZE + SBSIZE \<le> sz"
    and tc: "\<And>t sc. tc_num (t_cache (base_md p) t sc) = 0"
  shows "\<exists>p'. RP_init t os u meta_size fs sz p = Inr (0, p') \<and> initialized p' \<and> represents (base_md p') Map.empty \<and> dirty_mtx p' = Locked t \<and>
    opened b meta_size sz p' \<and> (\<forall>t' n. n \<le> MAX_SZ \<longrightarrow> (\<exists>q s'. do_malloc t' n (base_md p') = Inr (q, s')))"
proof -
  have min: "MIN_SB_REGION_SIZE \<le> sz" using sz(2) by simp
  obtain r rs obj rd rm where r: "region_at r (b SB_IDX + PAGESIZE)" "base_addr r = b SB_IDX" "FILESIZE r = sz div SBSIZE * SBSIZE + 2 * PAGESIZE"
    and f: "region_file r (b SB_IDX) (sz div SBSIZE * SBSIZE)" "regions rs 0 = Some rd" "regions rs 2 = Some rm"
      "region_file rd (b DESC_IDX) (sz div SBSIZE * DESCSIZE)" "fetch_heap_start rd = b DESC_IDX + PAGESIZE" "region_file rm (b META_IDX) meta_size"
    and i: "RP_init t os u meta_size fs sz p = and_then (BaseMeta_new (image_at fs (base_md p) r 0 (b DESC_IDX))) (\<lambda>s.
      Inr (0, p\<lparr>initialized := True,
        rgs := rs\<lparr>regions := (regions rs)(1 := Some (sb_region s)), regions_address := (regions_address rs)(1 := sb_start s)\<rparr>,
        base_md := s\<lparr>desc_start := b DESC_IDX + PAGESIZE\<rparr>, base_md_addr := obj, dirty_mtx := Locked t\<rparr>))"
    using RP_init_fresh [OF gr nf sz(1) min, of t u p] by blast
  have n: "16385 \<le> sz div SBSIZE" "sz div SBSIZE \<le> MAX_SB_AMOUNT" using sz by (simp_all add: pm_consts)
  have d: "PAGESIZE dvd b DESC_IDX" "acp_start (b DESC_IDX + PAGESIZE)" using gr by (simp_all add: grants_heap_def os_grants_def)
  let ?s0 = "image_at fs (base_md p) r 0 (b DESC_IDX)"
  have b: "boot_ok ?s0" by (rule boot_ok_fresh [OF r n d nf tc])
  obtain s where s: "BaseMeta_new ?s0 = Inr s" "represents s Map.empty" using represents_boot [OF b] by blast
  have ds: "desc_start s = b DESC_IDX + PAGESIZE" and rs: "base_addr (sb_region s) = base_addr r" "FILESIZE (sb_region s) = FILESIZE r"
    "fetch_heap_start (sb_region s) = sb_start s" "hdr_size (hdr (sb_region s)) = hdr_size (hdr r)" "persist (sb_region s) = persist r"
    using BaseMeta_new_ok [OF b] s(1) by (auto simp: image_at_def)
  define p' where "p' = p\<lparr>initialized := True,
    rgs := rs\<lparr>regions := (regions rs)(1 := Some (sb_region s)), regions_address := (regions_address rs)(1 := sb_start s)\<rparr>,
    base_md := s, base_md_addr := obj, dirty_mtx := Locked t\<rparr>"
  have "s\<lparr>desc_start := b DESC_IDX + PAGESIZE\<rparr> = s" by (simp add: ds [symmetric])
  then have "RP_init t os u meta_size fs sz p = Inr (0, p')" unfolding i s(1) and_then_simps p'_def by (simp only:)
  moreover have "region_file (sb_region s) (b SB_IDX) (sz div SBSIZE * SBSIZE)" using f(1) rs by (simp add: region_file_def)
  then have "opened b meta_size sz p'" using f(2-6) rs(3) ds by (simp add: opened_def p'_def)
  moreover have "initialized p'" "base_md p' = s" "dirty_mtx p' = Locked t" by (simp_all add: p'_def)
  moreover have "\<exists>q s'. do_malloc t' n s = Inr (q, s')" if "n \<le> MAX_SZ" for t' n by (rule boot_malloc [OF b s(1) that])
  ultimately show ?thesis using s(2) by auto
qed

text \<open>C8: creating a heap. With no files present, a size between the minimum plus one superblock and the maximum, and an
  operating system that maps the three files at pages of user space, \<^verbatim>\<open>RP_init\<close> returns 0, meaning a new heap, and leaves
  an allocator without blocks that satisfies the invariant, its dirty flag set.\<close>

theorem RP_init_creates:
  assumes gr: "grants_heap os b meta_size sz" and nf: "no_files fs" and sz: "sz < MAX_SB_REGION_SIZE" "MIN_SB_REGION_SIZE + SBSIZE \<le> sz"
    and tc: "\<And>t sc. tc_num (t_cache (base_md p) t sc) = 0"
  shows "\<exists>p'. RP_init t os u meta_size fs sz p = Inr (0, p') \<and> initialized p' \<and> represents (base_md p') Map.empty \<and> dirty_mtx p' = Locked t"
  using RP_init_created [OF assms] by blast

text \<open>An operating system that maps the descriptors at \<open>2 ^ 42\<close>, the superblocks at \<open>2 ^ 40\<close> and the metadata at \<open>2 ^ 43\<close>.\<close>

fun sample_base :: "RegionIndex \<Rightarrow> addr" where
  "sample_base DESC_IDX = 2 ^ 42"
| "sample_base SB_IDX = 2 ^ 40"
| "sample_base META_IDX = 2 ^ 43"

definition sample_os :: "RegionIndex \<Rightarrow> os_answers" where
  "sample_os i = \<lparr>os_lseek = True, os_write = True, os_mmap = Some (sample_base i), os_mbind = None\<rparr>"

definition sample_files :: heap_files where
  "sample_files = \<lparr>f_hdr = (\<lambda>_. None), f_sb = (\<lambda>_. 0), f_desc = (\<lambda>_. Descriptor_new), f_avail_sb = 0,
    f_heaps = (\<lambda>_. \<lparr>partial_list = 0, sc_idx = 0\<rparr>), f_roots = (\<lambda>_. 0), f_mtx = Garbage\<rparr>"

lemma sample_grants: "sz < MAX_SB_REGION_SIZE \<Longrightarrow> grants_heap sample_os sample_base 10240 sz"
proof -
  assume "sz < MAX_SB_REGION_SIZE"
  then have n: "sz div SBSIZE \<le> 16777216" by (simp add: pm_consts)
  then have "sz div SBSIZE * 64 div 4096 \<le> 262144" "sz div SBSIZE * 65536 div 4096 \<le> 268435456" by simp_all
  then show ?thesis by (simp add: grants_heap_def os_grants_def sample_os_def user_addr_def acp_start_def pm_consts)
qed

lemma sample_none: "no_files sample_files"
  by (simp add: no_files_def sample_files_def Descriptor_new_def)

theorem RP_init_creates_witness:
  "\<exists>p'. RP_init 0 sample_os (\<lambda>_. 0) 10240 sample_files (2 ^ 32) (process_on (boot_state 0)) = Inr (0, p') \<and> represents (base_md p') Map.empty"
proof -
  have sz: "2 ^ 32 < MAX_SB_REGION_SIZE" "MIN_SB_REGION_SIZE + SBSIZE \<le> 2 ^ 32" by (simp_all add: pm_consts)
  have tc: "tc_num (t_cache (base_md (process_on (boot_state 0))) t sc) = 0" for t sc by (simp add: boot_state_def)
  show ?thesis using RP_init_creates [OF sample_grants [OF sz(1)] sample_none sz tc] by blast
qed

text \<open>C26: the smallest size that \<^verbatim>\<open>RP_init\<close> accepts is too small. If the file of the superblocks is mapped at a multiple of the
  superblock size, the space behind the header does not hold the first expansion, and the constructor's assertion fails.\<close>

theorem RP_init_min_size_fails:
  assumes gr: "grants_heap os b meta_size MIN_SB_REGION_SIZE" and nf: "no_files fs" and al: "SBSIZE dvd b SB_IDX"
  shows "RP_init t os u meta_size fs MIN_SB_REGION_SIZE p = Inl AssertFailed"
proof -
  have sz: "MIN_SB_REGION_SIZE < MAX_SB_REGION_SIZE" "MIN_SB_REGION_SIZE \<le> MIN_SB_REGION_SIZE" by (simp_all add: pm_consts)
  obtain r rs obj where r: "region_at r (b SB_IDX + PAGESIZE)" "base_addr r = b SB_IDX" "FILESIZE r = MIN_SB_REGION_SIZE div SBSIZE * SBSIZE + 2 * PAGESIZE"
    and i: "RP_init t os u meta_size fs MIN_SB_REGION_SIZE p = and_then (BaseMeta_new (image_at fs (base_md p) r 0 (b DESC_IDX))) (\<lambda>s.
      Inr (0, p\<lparr>initialized := True,
        rgs := rs\<lparr>regions := (regions rs)(1 := Some (sb_region s)), regions_address := (regions_address rs)(1 := sb_start s)\<rparr>,
        base_md := s\<lparr>desc_start := b DESC_IDX + PAGESIZE\<rparr>, base_md_addr := obj, dirty_mtx := Locked t\<rparr>))"
    using RP_init_fresh [OF gr nf sz, of t u p] by blast
  have sb: "SBSIZE = 2 ^ 16" by (simp add: pm_consts)
  have "ceil_to (2 ^ 16) (b SB_IDX + PAGESIZE) = b SB_IDX + SBSIZE"
    by (rule ceil_to_unique) (use al in \<open>simp_all add: sb PAGESIZE_def\<close>)
  then have "base_addr r + FILESIZE r < ceil_to (2 ^ 16) (b SB_IDX + PAGESIZE) + SB_REGION_EXPAND_SIZE"
    unfolding r(2,3) by (simp add: pm_consts)
  then have "nvm_region_allocator (2 ^ 16) SB_REGION_EXPAND_SIZE r = (-1, None, r)"
    by (intro nvm_region_allocator_full [OF r(1)]) (simp_all add: pm_consts)
  then have "BaseMeta_new (image_at fs (base_md p) r 0 (b DESC_IDX)) = Inl AssertFailed"
    by (simp add: BaseMeta_new_def Let_def sb)
  then show ?thesis using i by simp
qed

theorem RP_init_min_size_fails_witness:
  "RP_init 0 sample_os (\<lambda>_. 0) 10240 sample_files MIN_SB_REGION_SIZE (process_on (boot_state 0)) = Inl AssertFailed"
proof -
  have "MIN_SB_REGION_SIZE < MAX_SB_REGION_SIZE" "SBSIZE dvd sample_base SB_IDX" by (simp_all add: pm_consts)
  then show ?thesis using RP_init_min_size_fails [OF sample_grants sample_none] by blast
qed

lemma opened_step: "opened b meta_size sz p \<Longrightarrow> same_file (base_md p) (base_md p') \<Longrightarrow> rgs p' = rgs p \<Longrightarrow> opened b meta_size sz p'"
  by (fastforce simp: opened_def same_file_def region_file_def fetch_heap_start_def set_curr_def)

section \<open>Failures and errors\<close>

text \<open>A power failure goes unnoticed. The bytes of the mutex still say that it is held, and \<^verbatim>\<open>RP_recover\<close> takes it for the lock of
  another, living program: it reports a clean heap and does not collect, whatever state the heap is in.\<close>

lemma power_failure_unnoticed:
  assumes "dirty_mtx p = power_fails (Locked t')"
  shows "RP_recover t custom p = Inr (0, p)"
  using assms by (simp add: RP_recover_def restart_cases power_fails_def)

text \<open>C32: errors of the interface. After \<^verbatim>\<open>RP_close\<close>, the calls \<^verbatim>\<open>RP_malloc\<close>, \<^verbatim>\<open>RP_free\<close>, \<^verbatim>\<open>RP_calloc\<close>, \<^verbatim>\<open>RP_realloc\<close> of the null
  pointer and \<^verbatim>\<open>RP_get_root_c\<close> fail their assertion, while \<^verbatim>\<open>RP_set_root\<close> opens the default heap again and sets the root there. In any
  process \<open>r\<close>, an index beyond the last root makes \<^verbatim>\<open>RP_get_root_c\<close> and \<^verbatim>\<open>RP_set_root_filter\<close> fail their assertion, and \<^verbatim>\<open>RP_set_root\<close> as well
  if the process is initialized or its opening of the default heap succeeds.\<close>

theorem misuse_asserts:
  assumes "p' = fst (RP_close t meta_size p)" and "MAX_ROOTS \<le> i"
  shows "RP_malloc t' n p' = Inl AssertFailed \<and> RP_free t' q p' = Inl AssertFailed \<and> RP_calloc t' m n p' = Inl AssertFailed \<and>
    RP_realloc t' 0 n p' = Inl AssertFailed \<and> RP_get_root_c j p' = Inl AssertFailed \<and>
    RP_set_root auto_init q j p' = and_then (auto_init p') (\<lambda>(_, p1). with_meta p1 (set_root q j (base_md p1))) \<and>
    RP_get_root_c i r = Inl AssertFailed \<and> RP_set_root_filter k i r = Inl AssertFailed \<and>
    (initialized r \<or> (\<exists>x r1. auto_init r = Inr (x, r1)) \<longrightarrow> RP_set_root auto_init q i r = Inl AssertFailed)"
proof -
  have "\<not> initialized p'" using assms(1) by (auto simp: RP_close_def Let_def split: prod.splits)
  then show ?thesis using assms(2)
    by (auto simp: RP_malloc_def RP_free_def RP_calloc_def RP_realloc_def RP_get_root_c_def RP_set_root_filter_def RP_set_root_def
        with_meta_def get_root_def set_root_def check_def and_then_def split: sum.splits)
qed

theorem misuse_asserts_witness:
  "RP_malloc 0 64 (fst (RP_close 0 10240 (process_on (boot_state 0)))) = Inl AssertFailed \<and>
    RP_get_root_c 1024 (process_on (boot_state 0)) = Inl AssertFailed \<and> RP_set_root (\<lambda>_. Inl Exited) 64 1024 (process_on (boot_state 0)) = Inl AssertFailed"
proof -
  have k: "MAX_ROOTS \<le> 1024" by (simp add: MAX_ROOTS_def)
  show ?thesis using misuse_asserts [OF refl k, where r = "process_on (boot_state 0)"] by simp
qed

text \<open>C33: what \<^verbatim>\<open>writeback\<close> and the collector flush of the metadata. The loop flushes as many lines as the object has, but shifted by
  one: the first line is never flushed, and the last one flushed lies behind the object.\<close>

theorem flush_meta_skips_first:
  assumes "0 < meta_size"
  shows "(\<forall>l \<in> set (flush_meta meta_size a). a + CACHELINE_SIZE \<le> l) \<and> (\<exists>l \<in> set (flush_meta meta_size a). a + meta_size \<le> l)"
proof -
  let ?n = "(meta_size + CACHELINE_SIZE - 1) div CACHELINE_SIZE"
  have n: "0 < ?n" "meta_size \<le> ?n * CACHELINE_SIZE" using assms by (simp_all add: pm_consts)
  have s: "set (flush_meta meta_size a) = (\<lambda>i. a + (i + 1) * CACHELINE_SIZE) ` {0..<?n}"
    by (simp add: flush_meta_def flush_meta_lines_eq)
  have "a + (?n - 1 + 1) * CACHELINE_SIZE \<in> set (flush_meta meta_size a)" unfolding s using n(1) by (intro imageI) simp
  moreover have "a + meta_size \<le> a + (?n - 1 + 1) * CACHELINE_SIZE" using n by simp
  ultimately show ?thesis unfolding s by auto
qed

theorem flush_meta_skips_first_witness:
  "\<exists>l \<in> set (flush_meta 10240 4096). 4096 + 10240 \<le> l"
  using flush_meta_skips_first [of 10240 4096] by simp

text \<open>\<^verbatim>\<open>RP_cache_size\<close> reports a number of blocks, not of bytes: it always equals \<^verbatim>\<open>RP_cache_count\<close>.\<close>

lemma cache_size_is_count: "RP_cache_size t p = RP_cache_count t p"
  by (simp add: RP_cache_size_def RP_cache_count_def)

end
