(* ===== verification/RallocReopen.thy ===== *)
theory RallocReopen
  imports RallocLife
begin

text \<open>
  The files of a heap outlive the process. Here a process that closed its heap, or died, is followed by another one, in
  which the operating system maps the files at other addresses: what \<^verbatim>\<open>RP_init\<close> and \<^verbatim>\<open>RP_recover\<close> make of them.
\<close>

section \<open>Regions mapped again\<close>

lemma remapped_region:
  assumes "os_grants os b' sz" and "region_file r b sz" and "sz mod CACHELINE_SIZE = 0"
  shows "RegionManager_new os u (Some (hdr r)) sz True e = Inr (r\<lparr>base_addr := b'\<rparr>)"
proof -
  have "r\<lparr>base_addr := b'\<rparr> = \<lparr>FILESIZE = (sz div PAGESIZE + 2) * PAGESIZE, base_addr = b', hdr = hdr r, persist = True\<rparr>"
    using assms(2) by (simp add: region_file_def)
  then show ?thesis
    using assms by (simp add: RegionManager_new_def remap_persistent_region_def os_grants_def region_file_def)
qed

lemma fetch_heap_start_moved:
  assumes "base_addr r \<le> fetch_heap_start r" and "user_addr (moved (base_addr r) b' (fetch_heap_start r))"
  shows "fetch_heap_start (r\<lparr>base_addr := b'\<rparr>) = moved (base_addr r) b' (fetch_heap_start r)"
proof -
  have f: "fetch_heap_start r = translate (base_addr r) (hdr_heap_start (hdr r))"
    "fetch_heap_start (r\<lparr>base_addr := b'\<rparr>) = translate b' (hdr_heap_start (hdr r))"
    by (simp_all add: fetch_heap_start_def translate_def add.commute)
  show ?thesis unfolding f(2)
    by (rule translate_moved [OF f(1) [symmetric] _ assms(2)]) (simp add: moved_int [OF assms(1)])
qed

text \<open>The allocator of a process \<open>s\<close> on the files \<open>fs\<close>, which \<open>p\<close> had open, mapped at \<open>b'\<close>.\<close>

definition reopened :: "(RegionIndex \<Rightarrow> addr) \<Rightarrow> process \<Rightarrow> heap_files \<Rightarrow> ralloc \<Rightarrow> ralloc" where
  "reopened b' p fs s =
    image_at fs s ((sb_region (base_md p))\<lparr>base_addr := b' SB_IDX\<rparr>)
      (moved (base_addr (sb_region (base_md p))) (b' SB_IDX) (sb_start (base_md p))) (b' DESC_IDX)"

lemma opened_sb:
  assumes "opened b meta_size sz p"
  shows "base_addr (sb_region (base_md p)) = b SB_IDX" "FILESIZE (sb_region (base_md p)) = (sz div SBSIZE * SBSIZE div PAGESIZE + 2) * PAGESIZE"
    "desc_start (base_md p) = b DESC_IDX + PAGESIZE" "file_base (rgs p) DESC_IDX = b DESC_IDX"
  using assms by (auto simp: opened_def region_file_def file_base_def)

lemma represents_geom: "represents s H \<Longrightarrow> \<exists>n. geom s n"
  unfolding represents_def using heap_invD(1) by blast

lemma start_moved:
  assumes rep: "represents (base_md p) H" and op: "opened b meta_size sz p" and gr: "grants_heap os b' meta_size sz"
  shows "b SB_IDX < sb_start (base_md p)" "user_addr (moved (b SB_IDX) (b' SB_IDX) (sb_start (base_md p)))"
    "user_addr (b' SB_IDX + FILESIZE (sb_region (base_md p)))"
proof -
  obtain n where g: "geom (base_md p) n" using represents_geom [OF rep] by blast
  note o = opened_sb [OF op]
  show b: "b SB_IDX < sb_start (base_md p)" using geom_base(1) [OF g] o(1) by simp
  show u: "user_addr (b' SB_IDX + FILESIZE (sb_region (base_md p)))" unfolding o(2) using gr by (simp add: grants_heap_def os_grants_def)
  have "sb_start (base_md p) \<le> b SB_IDX + FILESIZE (sb_region (base_md p))"
    using g o(1) by (simp add: geom_def region_at_def)
  then show "user_addr (moved (b SB_IDX) (b' SB_IDX) (sb_start (base_md p)))" using u b by (simp add: user_addr_def moved_def)
qed

lemma RP_init_reopens:
  assumes gr: "grants_heap os b' meta_size sz" and op: "opened b meta_size sz p" and rep: "represents (base_md p) H"
    and sz: "sz < MAX_SB_REGION_SIZE" "MIN_SB_REGION_SIZE \<le> sz" and fs: "f_hdr fs = f_hdr (files_of p)"
  shows "\<exists>p'. RP_init t os u meta_size fs sz p0 = Inr (1, p') \<and> initialized p' \<and> base_md p' = reopened b' p fs (base_md p0) \<and>
    dirty_mtx p' = f_mtx fs \<and> gc_count p' = gc_count p0"
proof -
  let ?n = "sz div SBSIZE" and ?r = "sb_region (base_md p)"
  obtain rd rm where r: "regions (rgs p) 0 = Some rd" "regions (rgs p) 2 = Some rm"
    "region_file rd (b DESC_IDX) (?n * DESCSIZE)" "fetch_heap_start rd = b DESC_IDX + PAGESIZE"
    "region_file ?r (b SB_IDX) (?n * SBSIZE)" "fetch_heap_start ?r = sb_start (base_md p)" "region_file rm (b META_IDX) meta_size"
    using op by (auto simp: opened_def)
  have g: "os_grants (os DESC_IDX) (b' DESC_IDX) (?n * DESCSIZE)" "os_grants (os SB_IDX) (b' SB_IDX) (?n * SBSIZE)"
    "os_grants (os META_IDX) (b' META_IDX) meta_size" "meta_size mod CACHELINE_SIZE = 0" "acp_start (b' DESC_IDX + PAGESIZE)"
    using gr by (simp_all add: grants_heap_def)
  have al: "?n * DESCSIZE mod CACHELINE_SIZE = 0" "?n * SBSIZE mod CACHELINE_SIZE = 0" by (simp_all add: pm_consts)
  note new = remapped_region [OF g(1) r(3) al(1)] remapped_region [OF g(2) r(5) al(2)] remapped_region [OF g(3) r(7) g(4)]
  have bd: "base_addr rd = b DESC_IDX" and bs: "base_addr ?r = b SB_IDX" using r(3,5) by (simp_all add: region_file_def)
  have st: "fetch_heap_start (rd\<lparr>base_addr := b' DESC_IDX\<rparr>) = b' DESC_IDX + PAGESIZE"
    using fetch_heap_start_moved [of rd "b' DESC_IDX"] g(5) r(4) bd by (simp add: moved_def acp_start_def user_addr_def)
  have ss: "fetch_heap_start (?r\<lparr>base_addr := b' SB_IDX\<rparr>) = moved (b SB_IDX) (b' SB_IDX) (sb_start (base_md p))"
    using fetch_heap_start_moved [of ?r "b' SB_IDX"] start_moved(1,2) [OF rep op gr] r(6) bs by simp
  have f: "f_hdr fs DESC_IDX = Some (hdr rd)" "f_hdr fs SB_IDX = Some (hdr ?r)" "f_hdr fs META_IDX = Some (hdr rm)"
    using r(1,2) by (simp_all add: fs files_of_def)
  show ?thesis using sz new f st ss
    by (simp add: RP_init_def Let_def Regions_create_def Regions_create_for_def Regions_new_def mounted_def lookup_def
        reopened_def image_at_def bs map_files_def file_base_def file_len_def cong: if_cong)
qed

section \<open>The heap at its new place\<close>

definition moved_caches :: "addr \<Rightarrow> addr \<Rightarrow> (nat \<Rightarrow> nat \<Rightarrow> TCacheBin) \<Rightarrow> nat \<Rightarrow> nat \<Rightarrow> TCacheBin" where
  "moved_caches b b' c t sc = \<lparr>tc_block = moved b b' (tc_block (c t sc)), tc_num = tc_num (c t sc)\<rparr>"

lemma remapped_reopened:
  assumes op: "opened b meta_size sz p" and fr: "curr_addr (sb_region (base_md p)) < b SB_IDX + FILESIZE (sb_region (base_md p))"
  shows "remapped (base_md p) ((reopened b' p (files_of p) s)\<lparr>t_cache := moved_caches (b SB_IDX) (b' SB_IDX) (t_cache (base_md p))\<rparr>)"
    (is "remapped ?s ?s'")
proof -
  note o = opened_sb [OF op]
  have "desc_of ?s' i = desc_of ?s i" for i
    by (simp add: desc_of_def dsc_def reopened_def files_of_def o(3,4) add.assoc)
  moreover have "mem ?s' (moved (b SB_IDX) (b' SB_IDX) x) = mem ?s x" if "b SB_IDX \<le> x" "x < curr_addr (sb_region ?s)" for x
  proof -
    have "mem ?s' (b' SB_IDX + (x - b SB_IDX)) = f_sb (files_of p) (x - b SB_IDX)"
      using that fr mem_image_at [of "x - b SB_IDX" "(sb_region ?s)\<lparr>base_addr := b' SB_IDX\<rparr>"] by (simp add: reopened_def)
    then show ?thesis using that o(1) by (simp add: moved_def files_of_def add.commute)
  qed
  ultimately show ?thesis by (simp add: remapped_def Let_def reopened_def o(1) fun_eq_iff moved_caches_def files_of_def)
qed

lemma dvd_moved:
  fixes k :: nat
  assumes "k dvd a" and "b \<le> a" and "b' mod k = b mod k"
  shows "k dvd moved b b' a"
proof -
  have "(moved b b' a + b) mod k = (a + b') mod k" using assms(2) by (simp add: moved_def add.commute)
  also have "\<dots> = b mod k" using assms(1,3) by (metis add.commute dvd_imp_mod_0 mod_add_left_eq add_0)
  finally show ?thesis using mod_eq_dvd_iff_nat [of b "moved b b' a + b" k] by simp
qed

lemma well_placed_reopened:
  assumes rep: "represents (base_md p) H" and op: "opened b meta_size sz p" and gr: "grants_heap os b' meta_size sz"
    and al: "b' SB_IDX mod SBSIZE = b SB_IDX mod SBSIZE"
  shows "well_placed ((reopened b' p fs s)\<lparr>t_cache := c\<rparr>)"
proof -
  note st = start_moved [OF rep op gr] and o = opened_sb [OF op]
  obtain n where g: "geom (base_md p) n" using represents_geom [OF rep] by blast
  have "SBSIZE dvd moved (b SB_IDX) (b' SB_IDX) (sb_start (base_md p))"
    by (rule dvd_moved) (use g st(1) al in \<open>simp_all add: geom_def\<close>)
  moreover have "PAGESIZE dvd b' DESC_IDX" "acp_start (b' DESC_IDX + PAGESIZE)" using gr by (simp_all add: grants_heap_def os_grants_def)
  then have "DESCSIZE dvd b' DESC_IDX + PAGESIZE" using dvd_trans [of DESCSIZE PAGESIZE "b' DESC_IDX"] by (simp add: pm_consts)
  ultimately show ?thesis using st(3) \<open>acp_start (b' DESC_IDX + PAGESIZE)\<close>
    by (simp add: well_placed_def reopened_def o(1)) (simp add: pm_consts)
qed

lemma represents_reopened:
  assumes rep: "represents (base_md p) H" and op: "opened b meta_size sz p" and gr: "grants_heap os b' meta_size sz"
    and al: "b' SB_IDX mod SBSIZE = b SB_IDX mod SBSIZE"
    and fr: "curr_addr (sb_region (base_md p)) < b SB_IDX + FILESIZE (sb_region (base_md p))"
  shows "represents ((reopened b' p (files_of p) s)\<lparr>t_cache := moved_caches (b SB_IDX) (b' SB_IDX) (t_cache (base_md p))\<rparr>)
    (moved_view (b SB_IDX) (b' SB_IDX) H)"
proof -
  let ?s' = "(reopened b' p (files_of p) s)\<lparr>t_cache := moved_caches (b SB_IDX) (b' SB_IDX) (t_cache (base_md p))\<rparr>"
  have "base_addr (sb_region ?s') = b' SB_IDX" by (simp add: reopened_def)
  then show ?thesis using represents_moved [OF rep remapped_reopened [OF op fr, of b' s] well_placed_reopened [OF rep op gr al]] opened_sb(1) [OF op] by simp
qed

text \<open>The roots, read at the new place.\<close>

lemma root_moved:
  assumes rep: "represents (base_md p) H" and op: "opened b meta_size sz p" and gr: "grants_heap os b' meta_size sz"
    and al: "b' SB_IDX mod SBSIZE = b SB_IDX mod SBSIZE"
    and fr: "curr_addr (sb_region (base_md p)) < b SB_IDX + FILESIZE (sb_region (base_md p))"
    and q: "q \<in> dom H" "get_root i (base_md p) = Inr q" and ro: "f_roots fs = roots (base_md p)"
  shows "get_root i (reopened b' p fs s) = Inr (moved (b SB_IDX) (b' SB_IDX) q)"
proof -
  let ?s = "base_md p" and ?q = "moved (b SB_IDX) (b' SB_IDX) q"
  note o = opened_sb [OF op] and h = represents_in_heap [OF rep q(1)] and st = start_moved [OF rep op gr]
  have i: "i < MAX_ROOTS" "CrossPtr_cast (sb_start ?s) (roots ?s i) = q" using q(2) by (auto simp: get_root_def check_def split: if_splits)
  have bq: "b SB_IDX \<le> q" using h(1) st(1) by simp
  have "moved_view (b SB_IDX) (b' SB_IDX) H ?q = H q" using bq by simp
  then have "?q \<in> dom (moved_view (b SB_IDX) (b' SB_IDX) H)" using q(1) by auto
  then have "user_addr ?q" using represents_in_heap(3) [OF represents_reopened [OF rep op gr al fr]] by blast
  moreover have "q \<noteq> 0" using h(1) by simp
  ultimately have "CrossPtr_cast (moved (b SB_IDX) (b' SB_IDX) (sb_start ?s)) (roots ?s i) = ?q"
    by (intro CrossPtr_moved [OF i(2)]) (use bq st(1) in \<open>simp_all add: moved_int\<close>)
  then show ?thesis using i(1) by (simp add: get_root_def check_def reopened_def o(1) ro)
qed

text \<open>
  The frontier stays below the last byte of the file, unless the superblocks fill the file exactly, which takes a file mapped two
  pages below a multiple of the superblock size. Reopening such a file destroys the last byte of the last superblock.
\<close>

lemma frontier_below_end:
  assumes rep: "represents (base_md p) H" and op: "opened b meta_size sz p" and ne: "(b SB_IDX + 2 * PAGESIZE) mod SBSIZE \<noteq> 0"
  shows "curr_addr (sb_region (base_md p)) < b SB_IDX + FILESIZE (sb_region (base_md p))"
proof -
  obtain n where g: "geom (base_md p) n" using represents_geom [OF rep] by blast
  note o = opened_sb [OF op]
  have f: "FILESIZE (sb_region (base_md p)) = 2 * PAGESIZE + sz div SBSIZE * SBSIZE" unfolding o(2) by (simp add: pm_consts)
  have "SBSIZE dvd curr_addr (sb_region (base_md p))" unfolding geom_base(5) [OF g] by (rule geom_bounds(10) [OF g])
  moreover have "(b SB_IDX + FILESIZE (sb_region (base_md p))) mod SBSIZE \<noteq> 0" using ne unfolding f add.assoc [symmetric] by simp
  ultimately have "curr_addr (sb_region (base_md p)) \<noteq> b SB_IDX + FILESIZE (sb_region (base_md p))" by auto
  then show ?thesis using geom_base(4) [OF g] o(1) by simp
qed

lemma reopen_clears_last_byte:
  "0 < FILESIZE (sb_region (base_md p)) \<Longrightarrow> mem (reopened b' p fs s) (b' SB_IDX + FILESIZE (sb_region (base_md p)) - 1) = 0"
  by (auto simp: reopened_def image_at_def)

section \<open>Closing and reopening\<close>

text \<open>The files once the process that used them has ended.\<close>

definition process_exits :: "heap_files \<Rightarrow> heap_files" where
  "process_exits fs = fs\<lparr>f_mtx := process_dies (f_mtx fs)\<rparr>"

text \<open>A thread that does not own the flag cannot clear it: the files it closes look like those of a process that died.\<close>

lemma RP_close_mutex:
  assumes "dirty_mtx p = Locked t"
  shows "f_mtx (process_exits (snd (RP_close t meta_size p))) = Unlocked"
    and "t' \<noteq> t \<Longrightarrow> f_mtx (process_exits (snd (RP_close t' meta_size p))) = OwnerDead"
  using assms by (simp_all add: RP_close_def writeback_def set_clean_def files_of_def process_exits_def Let_def)

lemma RP_close_files: "snd (RP_close t meta_size p) = (files_of p)\<lparr>f_mtx := set_clean t (dirty_mtx p)\<rparr>"
  by (simp add: RP_close_def writeback_def files_of_def Let_def cong: if_cong)



text \<open>Another operating system, which maps the descriptors at \<open>2 ^ 44\<close>, the superblocks \<open>k\<close> bytes behind \<open>2 ^ 41\<close> and the metadata at \<open>2 ^ 45\<close>.\<close>

fun other_base :: "nat \<Rightarrow> RegionIndex \<Rightarrow> addr" where
  "other_base k DESC_IDX = 2 ^ 44"
| "other_base k SB_IDX = 2 ^ 41 + k"
| "other_base k META_IDX = 2 ^ 45"

definition other_os :: "nat \<Rightarrow> RegionIndex \<Rightarrow> os_answers" where
  "other_os k i = \<lparr>os_lseek = True, os_write = True, os_mmap = Some (other_base k i), os_mbind = None\<rparr>"

lemma other_grants:
  assumes "sz < MAX_SB_REGION_SIZE" and "PAGESIZE dvd k" and "k \<le> SBSIZE"
  shows "grants_heap (other_os k) (other_base k) 10240 sz"
proof -
  have n: "sz div SBSIZE \<le> 16777216" using assms(1) by (simp add: pm_consts)
  then have "sz div SBSIZE * 64 div 4096 \<le> 262144" "sz div SBSIZE * 65536 div 4096 \<le> 268435456" by simp_all
  moreover have "4096 dvd k" "k \<le> 65536" using assms(2,3) by (simp_all add: pm_consts)
  ultimately show ?thesis by (simp add: grants_heap_def os_grants_def other_os_def user_addr_def acp_start_def pm_consts)
qed

text \<open>A process that creates a heap, allocates a block and stores it as root 3.\<close>

lemma sample_life:
  "\<exists>p1 q p2 old p3 H. RP_init 0 sample_os (\<lambda>_. 0) 10240 sample_files (2 ^ 32) (process_on (boot_state 0)) = Inr (0, p1) \<and>
    RP_malloc 0 100 p1 = Inr (q, p2) \<and> RP_set_root (\<lambda>_. Inl Exited) q 3 p2 = Inr (old, p3) \<and> represents (base_md p3) H \<and> dom H = {q} \<and>
    opened sample_base 10240 (2 ^ 32) p3 \<and> dirty_mtx p3 = Locked 0 \<and> initialized p3 \<and> get_root 3 (base_md p3) = Inr q \<and> 2 ^ 40 < q"
proof -
  have k: "2 ^ 32 < MAX_SB_REGION_SIZE" "MIN_SB_REGION_SIZE + SBSIZE \<le> 2 ^ 32" "100 \<le> MAX_SZ" "100 + SBSIZE \<le> 2 ^ 32" "3 < MAX_ROOTS"
    by (simp_all add: pm_consts)
  have tc: "tc_num (t_cache (base_md (process_on (boot_state 0))) t sc) = 0" for t sc by (simp add: boot_state_def)
  obtain p1 where p1: "RP_init 0 sample_os (\<lambda>_. 0) 10240 sample_files (2 ^ 32) (process_on (boot_state 0)) = Inr (0, p1)" "initialized p1"
    "represents (base_md p1) Map.empty" "dirty_mtx p1 = Locked 0" "opened sample_base 10240 (2 ^ 32) p1"
    "\<forall>t n. n \<le> MAX_SZ \<longrightarrow> (\<exists>q s'. do_malloc t n (base_md p1) = Inr (q, s'))"
    using RP_init_created [OF sample_grants [OF k(1)] sample_none k(1,2) tc] by blast
  obtain q s2 where m: "do_malloc 0 100 (base_md p1) = Inr (q, s2)" using p1(6) k(3) by blast
  define H where "H = [q \<mapsto> map (mem s2) [q..<q + msize s2 q]]"
  have r2: "represents s2 H" using represents_malloc [OF p1(3) k(4) m] by (simp add: H_def)
  obtain old s3 where r: "set_root q 3 s2 = Inr (old, s3)" "roots s3 3 = CrossPtr_assign (sb_start s3) q"
    using k(5) by (simp add: set_root_def check_def)
  have rep: "represents s3 H" by (rule represents_set_root [OF r2 r(1)])
  have dH: "dom H = {q}" by (simp add: H_def)
  then have h: "sb_start s3 < q" "user_addr q" using represents_in_heap [OF rep] by blast+
  define p3 where "p3 = p1\<lparr>base_md := s3\<rparr>"
  have e: "RP_malloc 0 100 p1 = Inr (q, p1\<lparr>base_md := s2\<rparr>)" "RP_set_root (\<lambda>_. Inl Exited) q 3 (p1\<lparr>base_md := s2\<rparr>) = Inr (old, p3)"
    using m r(1) p1(2) by (simp_all add: RP_malloc_def RP_set_root_def with_meta_def p3_def)
  have op: "opened sample_base 10240 (2 ^ 32) p3"
    by (rule opened_step [OF p1(5)]) (use same_file_trans [OF do_malloc_file [OF m] set_root_file [OF r(1)]] in \<open>simp_all add: p3_def\<close>)
  have b3: "base_md p3 = s3" "dirty_mtx p3 = Locked 0" "initialized p3" using p1(2,4) by (simp_all add: p3_def)
  have "get_root 3 s3 = Inr q" using k(5) CrossPtr_cast_assign [OF h(2,1)] r(2) by (simp add: get_root_def)
  moreover obtain n where "geom s3 n" using represents_geom [OF rep] by blast
  then have "2 ^ 40 < sb_start s3" using geom_base(1) [of s3] opened_sb(1) [OF op] b3(1) by simp
  then have "2 ^ 40 < q" using h(1) by simp
  ultimately show ?thesis using p1(1) e rep dH op b3 by blast
qed


section \<open>Recovery after the death of a process\<close>

text \<open>
  What the death of a process between two operations leaves in the files: the headers, the roots, the persistent fields of the
  descriptors and of the heaps, and the bytes of the blocks of the program are as the process had them, and the owner of the
  mutex is dead. The links, anchors and list heads and the bytes of free blocks may be anything.
\<close>

definition crash_files :: "process \<Rightarrow> heap_view \<Rightarrow> heap_files \<Rightarrow> bool" where
  "crash_files p H fs \<longleftrightarrow> f_hdr fs = f_hdr (files_of p) \<and> f_roots fs = f_roots (files_of p) \<and>
    (\<forall>k. superblock (f_desc fs k) = superblock (f_desc (files_of p) k) \<and> heap (f_desc fs k) = heap (f_desc (files_of p) k) \<and>
      desc_block_size (f_desc fs k) = desc_block_size (f_desc (files_of p) k) \<and> maxcount (f_desc fs k) = maxcount (f_desc (files_of p) k)) \<and>
    (\<forall>h. sc_idx (f_heaps fs h) = sc_idx (f_heaps (files_of p) h)) \<and> f_mtx fs = process_dies (dirty_mtx p) \<and>
    (\<forall>a \<in> dom H. \<forall>x \<in> view_range H a. f_sb fs (x - base_addr (sb_region (base_md p))) = mem (base_md p) x)"

text \<open>
  What the collector needs of the program: every root that is set has a filter, the filters make the marks of the
  pointers \<open>pts\<close> in their blocks, and roots and pointers into the region lead to blocks of the program.
\<close>

definition gc_fits :: "custom_filters \<Rightarrow> (nat \<Rightarrow> root_filter option) \<Rightarrow> ralloc \<Rightarrow> heap_view \<Rightarrow>
    (addr \<Rightarrow> nat \<Rightarrow> filter_fun \<Rightarrow> bool) \<Rightarrow> (addr \<Rightarrow> addr set) \<Rightarrow> bool" where
  "gc_fits custom rff s H typed pts \<longleftrightarrow> filters_fit custom s typed pts \<and>
    (\<forall>i. i < MAX_ROOTS \<longrightarrow> \<not> CrossPtr_is_null (roots s i) \<longrightarrow> rff i \<noteq> None) \<and>
    (\<forall>(q, t, f) \<in> set (all_root_edges custom rff s). typed q t f \<and> (in_sb s q \<longrightarrow> q \<in> dom H)) \<and>
    (\<forall>x \<in> dom H. \<forall>y \<in> pts x. in_sb s y \<longrightarrow> y \<in> dom H)"

definition reached :: "custom_filters \<Rightarrow> (nat \<Rightarrow> root_filter option) \<Rightarrow> ralloc \<Rightarrow> (addr \<Rightarrow> addr set) \<Rightarrow> addr set" where
  "reached custom rff s pts = closure (in_sb s) (fst ` set (all_root_edges custom rff s)) pts"

lemma recovery_fits:
  assumes "represents s H" and "crash_image s H s'" and "gc_fits custom rff s' H typed pts"
  shows "\<exists>s''. gc_run custom rff s' = Inr (card (reached custom rff s' pts), s'') \<and> represents s'' (H |` reached custom rff s' pts)"
  using recovery_ok [OF assms(1,2), of custom typed pts rff] assms(3) unfolding gc_fits_def reached_def by fast

lemma crash_reopened:
  assumes rep: "represents (base_md p) H" and op: "opened b meta_size sz p" and cr: "crash_files p H fs"
    and tc: "\<And>t sc. tc_num (t_cache s t sc) = 0"
  shows "crash_image ((reopened b' p (files_of p) s)\<lparr>t_cache := c\<rparr>) (moved_view (b SB_IDX) (b' SB_IDX) H) (reopened b' p fs s)"
proof -
  let ?H = "moved_view (b SB_IDX) (b' SB_IDX) H"
  note o = opened_sb [OF op]
  have "mem (reopened b' p fs s) x = mem (reopened b' p (files_of p) s) x" if a: "a \<in> dom ?H" "x \<in> view_range ?H a" for a x
  proof -
    let ?origin = "moved (b' SB_IDX) (b SB_IDX)"
    have ax: "b' SB_IDX \<le> a" "b' SB_IDX \<le> x" "?origin a \<in> dom H" "?origin x \<in> view_range H (?origin a)"
      using a by (auto simp: moved_view_def view_range_def moved_def split: if_splits)
    then have "f_sb fs (?origin x - b SB_IDX) = mem (base_md p) (?origin x)" using cr o(1) by (simp add: crash_files_def)
    then have "f_sb fs (x - b' SB_IDX) = f_sb (files_of p) (x - b' SB_IDX)" using ax(2) o(1) by (simp add: moved_def files_of_def add.commute)
    then show ?thesis by (simp add: reopened_def image_at_def)
  qed
  then show ?thesis using cr tc by (simp add: crash_image_def crash_files_def) (simp add: reopened_def files_of_def)
qed

text \<open>C3: recovery after the process died. A process that has the heap open dies between two operations. Another process with empty
  thread caches opens the files, which may be mapped at other addresses \<open>b'\<close>, as long as the file of the superblocks moves by a
  multiple of the superblock size and the superblocks do not reach its last byte, which mapping overwrites. \<^verbatim>\<open>RP_init\<close> reports an existing heap, in whose region the blocks of the program lie, moved with the
  file, and whose roots name the moved blocks. If the program then gives its roots filters that fit, \<^verbatim>\<open>RP_recover\<close> detects the dirty
  heap, collects, and gives the program exactly the blocks that the roots reach, with their bytes; all others are free again.\<close>

theorem crash_recover:
  assumes rep: "represents (base_md p) H" and op: "opened b meta_size sz p" and mtx: "dirty_mtx p = Locked t"
    and cr: "crash_files p H fs" and tc: "\<And>t sc. tc_num (t_cache (base_md p0) t sc) = 0" and gr: "grants_heap os b' meta_size sz"
    and al: "b' SB_IDX mod SBSIZE = b SB_IDX mod SBSIZE" and fr: "curr_addr (sb_region (base_md p)) < b SB_IDX + FILESIZE (sb_region (base_md p))"
    and sz: "sz < MAX_SB_REGION_SIZE" "MIN_SB_REGION_SIZE \<le> sz"
    and H': "H' = moved_view (b SB_IDX) (b' SB_IDX) H"
  shows "\<exists>p'. RP_init t' os u meta_size fs sz p0 = Inr (1, p') \<and> (\<forall>q \<in> dom H'. RP_in_prange q p' = 1) \<and>
    (\<forall>i q. q \<in> dom H \<and> get_root i (base_md p) = Inr q \<longrightarrow> get_root i (base_md p') = Inr (moved (b SB_IDX) (b' SB_IDX) q)) \<and>
    (\<forall>custom rff typed pts. gc_fits custom rff (base_md p') H' typed pts \<longrightarrow>
      (\<exists>p''. RP_recover t' custom (p'\<lparr>roots_filter_func := rff\<rparr>) = Inr (1, p'') \<and>
        represents (base_md p'') (H' |` reached custom rff (base_md p') pts) \<and>
        RP_gc_count p'' = RP_gc_count p0 + card (reached custom rff (base_md p') pts) \<and> dirty_mtx p'' = Locked t'))"
proof -
  let ?s = "reopened b' p fs (base_md p0)"
  let ?s1 = "(reopened b' p (files_of p) (base_md p0))\<lparr>t_cache := moved_caches (b SB_IDX) (b' SB_IDX) (t_cache (base_md p))\<rparr>"
  have fs: "f_hdr fs = f_hdr (files_of p)" "f_mtx fs = OwnerDead" "f_roots fs = roots (base_md p)"
    using cr by (simp_all add: crash_files_def mtx) (simp add: files_of_def)
  obtain p' where p': "RP_init t' os u meta_size fs sz p0 = Inr (1, p')" "base_md p' = ?s" "dirty_mtx p' = OwnerDead" "gc_count p' = gc_count p0"
    using RP_init_reopens [OF gr op rep sz fs(1), of t' u p0] fs(2) by auto
  have rep1: "represents ?s1 H'" unfolding H' by (rule represents_reopened [OF rep op gr al fr])
  have img: "crash_image ?s1 H' ?s" unfolding H' by (rule crash_reopened [OF rep op cr tc])
  have "RP_in_prange q p' = 1" if "q \<in> dom H'" for q
    using represents_in_heap(2) [OF rep1 that] p'(2) by (simp add: RP_in_prange_def reopened_def)
  moreover have "get_root i ?s = Inr (moved (b SB_IDX) (b' SB_IDX) q)" if "q \<in> dom H \<and> get_root i (base_md p) = Inr q" for i q
    using that fs(3) by (intro root_moved [OF rep op gr al fr]) simp_all
  moreover have "\<exists>p''. RP_recover t' custom (p'\<lparr>roots_filter_func := rff\<rparr>) = Inr (1, p'') \<and> represents (base_md p'') (H' |` reached custom rff ?s pts) \<and>
      RP_gc_count p'' = RP_gc_count p0 + card (reached custom rff ?s pts) \<and> dirty_mtx p'' = Locked t'"
    if fit: "gc_fits custom rff ?s H' typed pts" for custom rff typed pts
  proof -
    obtain s'' where "gc_run custom rff ?s = Inr (card (reached custom rff ?s pts), s'')" "represents s'' (H' |` reached custom rff ?s pts)"
      using recovery_fits [OF rep1 img fit] by blast
    then show ?thesis using p'(2-4) by (simp add: RP_recover_def restart_cases RP_gc_count_def)
  qed
  ultimately show ?thesis using p'(1,2) by auto
qed

text \<open>One block hangs off root 3, no pointers inside.\<close>

lemma leaf_fits:
  assumes "get_root 3 s = Inr q" and "q \<noteq> 0" and "in_sb s q" and "dom H = {q}"
  shows "gc_fits leaf_filters leaf_roots s H (\<lambda>_ _ f. f = Custom 1) (\<lambda>_. {})" and "reached leaf_filters leaf_roots s (\<lambda>_. {}) = {q}"
proof -
  have c: "\<not> CrossPtr_is_null (roots s 3)" "CrossPtr_cast (sb_start s) (roots s 3) = q"
    using assms(1,2) by (auto simp: get_root_def CrossPtr_cast_def check_def split: if_splits)
  have "all_root_edges leaf_filters leaf_roots s = root_edges leaf_filters leaf_roots s 3"
    by (rule all_root_edges_one) (auto simp: root_edges_def leaf_roots_def leaf_filters_def pm_consts)
  then have es: "all_root_edges leaf_filters leaf_roots s = [(q, 3, Custom 1)]" using c by (simp add: root_edges_def leaf_roots_def leaf_filters_def)
  show "gc_fits leaf_filters leaf_roots s H (\<lambda>_ _ f. f = Custom 1) (\<lambda>_. {})"
    using assms(4) by (auto simp: gc_fits_def es filters_fit_def filter_edges_def leaf_filters_def leaf_roots_def)
  show "reached leaf_filters leaf_roots s (\<lambda>_. {}) = {q}"
    using assms(3) by (auto simp: reached_def es elim: closure.cases intro: closure.root)
qed

theorem crash_recover_witness:
  "\<exists>p1 q p2 old p3 p' p'' H''. RP_init 0 sample_os (\<lambda>_. 0) 10240 sample_files (2 ^ 32) (process_on (boot_state 0)) = Inr (0, p1) \<and>
    RP_malloc 0 100 p1 = Inr (q, p2) \<and> RP_set_root (\<lambda>_. Inl Exited) q 3 p2 = Inr (old, p3) \<and>
    RP_init 7 (other_os 0) (\<lambda>_. 0) 10240 (process_exits (files_of p3)) (2 ^ 32) (process_on (boot_state 0)) = Inr (1, p') \<and>
    RP_recover 7 leaf_filters (p'\<lparr>roots_filter_func := leaf_roots\<rparr>) = Inr (1, p'') \<and> represents (base_md p'') H'' \<and>
    dom H'' = {moved (2 ^ 40) (2 ^ 41) q}"
proof -
  obtain p1 q p2 old p3 H where l: "RP_init 0 sample_os (\<lambda>_. 0) 10240 sample_files (2 ^ 32) (process_on (boot_state 0)) = Inr (0, p1)"
    "RP_malloc 0 100 p1 = Inr (q, p2)" "RP_set_root (\<lambda>_. Inl Exited) q 3 p2 = Inr (old, p3)" "represents (base_md p3) H" "dom H = {q}"
    "opened sample_base 10240 (2 ^ 32) p3" "dirty_mtx p3 = Locked 0" "get_root 3 (base_md p3) = Inr q" "2 ^ 40 < q"
    using sample_life by blast
  have k: "2 ^ 32 < MAX_SB_REGION_SIZE" "MIN_SB_REGION_SIZE \<le> 2 ^ 32" "other_base 0 SB_IDX mod SBSIZE = sample_base SB_IDX mod SBSIZE"
    by (simp_all add: pm_consts)
  have tc: "tc_num (t_cache (base_md (process_on (boot_state 0))) t sc) = 0" for t sc by (simp add: boot_state_def)
  have gr: "grants_heap (other_os 0) (other_base 0) 10240 (2 ^ 32)" by (rule other_grants [OF k(1)]) simp_all
  have fr: "curr_addr (sb_region (base_md p3)) < sample_base SB_IDX + FILESIZE (sb_region (base_md p3))"
    by (rule frontier_below_end [OF l(4,6)]) (simp add: pm_consts)
  let ?H = "moved_view (sample_base SB_IDX) (other_base 0 SB_IDX) H" and ?q = "moved (2 ^ 40) (2 ^ 41) q"
  have cr: "crash_files p3 H (process_exits (files_of p3))"
  proof -
    have "base_addr (sb_region (base_md p3)) \<le> x" if "a \<in> dom H" "x \<in> view_range H a" for a x
      using that l(5) l(9) opened_sb(1) [OF l(6)] by (auto simp: view_range_def)
    then show ?thesis by (simp add: crash_files_def process_exits_def files_of_def cong: if_cong)
  qed
  obtain p' where x: "RP_init 7 (other_os 0) (\<lambda>_. 0) 10240 (process_exits (files_of p3)) (2 ^ 32) (process_on (boot_state 0)) = Inr (1, p')"
    "\<forall>q \<in> dom ?H. RP_in_prange q p' = 1"
    "\<forall>i q. q \<in> dom H \<and> get_root i (base_md p3) = Inr q \<longrightarrow> get_root i (base_md p') = Inr (moved (sample_base SB_IDX) (other_base 0 SB_IDX) q)"
    "\<forall>custom rff typed pts. gc_fits custom rff (base_md p') ?H typed pts \<longrightarrow>
      (\<exists>p''. RP_recover 7 custom (p'\<lparr>roots_filter_func := rff\<rparr>) = Inr (1, p'') \<and> represents (base_md p'') (?H |` reached custom rff (base_md p') pts) \<and>
        RP_gc_count p'' = RP_gc_count (process_on (boot_state 0)) + card (reached custom rff (base_md p') pts) \<and> dirty_mtx p'' = Locked 7)"
    using crash_recover [OF l(4,6,7) cr tc gr k(3) fr k(1,2) refl, of 7 "\<lambda>_. 0"] by blast
  have dH: "dom ?H = {?q}"
  proof (intro set_eqI)
    fix a
    have "a \<in> dom ?H \<longleftrightarrow> 2 ^ 41 \<le> a \<and> moved (2 ^ 41) (2 ^ 40) a \<in> dom H" by (simp add: moved_view_def dom_def)
    then show "a \<in> dom ?H \<longleftrightarrow> a \<in> {?q}" unfolding l(5) using l(9) by (auto simp: moved_def)
  qed
  have "get_root 3 (base_md p') = Inr ?q" "in_sb (base_md p') ?q" "?q \<noteq> 0"
    using x(2,3) l(5,8) dH by (auto simp: RP_in_prange_def moved_def split: if_splits)
  note fit = leaf_fits [OF this(1,3,2) dH]
  obtain p'' where "RP_recover 7 leaf_filters (p'\<lparr>roots_filter_func := leaf_roots\<rparr>) = Inr (1, p'')" "represents (base_md p'') (?H |` {?q})"
    using x(4) fit by metis
  moreover have "dom (?H |` {?q}) = {?q}" unfolding dom_restrict dH by simp
  ultimately show ?thesis using l(1-3) x(1) by blast
qed

section \<open>What does not survive a move\<close>

lemma desc_lookup_misaligned:
  assumes "sb_start s = a * SBSIZE + k" and "k < SBSIZE" and "x = sb_start s + i * SBSIZE + r" and "r < SBSIZE" and "SBSIZE \<le> k + r"
    and "user_addr x" and "user_addr (dsc s (i + 1))"
  shows "desc_lookup s x = dsc s (i + 1)"
proof -
  have sz: "SBSIZE = 65536" and sh: "SB_SHIFT = 16" by (simp_all add: pm_consts)
  have u: "x < 2 ^ 64" "sb_start s < 2 ^ 64" using assms(3,6) by (auto simp: user_addr_def)
  have "x div 65536 = a + i + 1" "sb_start s div 65536 = a" using assms(1-5) unfolding sz by simp_all
  then have "drop_bit 16 (of_nat x :: u64) = of_nat (a + i + 1)" "drop_bit 16 (of_nat (sb_start s) :: u64) = of_nat a"
    using drop_bit_of_nat [OF u(1), of 16] drop_bit_of_nat [OF u(2), of 16] by simp_all
  then have "drop_bit 16 (of_nat x :: u64) - drop_bit 16 (of_nat (sb_start s)) = of_nat (i + 1)" by simp
  then have "desc_lookup s x = unat (of_nat (dsc s (i + 1)) :: u64)"
    by (simp add: desc_lookup_def sh dsc_def mult.commute algebra_simps)
  then show ?thesis using assms(7) by (simp add: unat_of_nat_user)
qed

text \<open>The start of the superblocks when the file moves by \<open>k\<close> bytes more than a multiple of the superblock size.\<close>

lemma start_misaligned:
  assumes "SBSIZE dvd a" and "b \<le> a" and "b' mod SBSIZE = (b + k) mod SBSIZE" and "0 < k" and "k < SBSIZE"
  shows "\<exists>m. moved b b' a = m * SBSIZE + k"
proof -
  have "(b' + (SBSIZE - k)) mod SBSIZE = (b + k + (SBSIZE - k)) mod SBSIZE" using assms(3) by (metis mod_add_left_eq)
  also have "\<dots> = b mod SBSIZE" using assms(5) by simp
  finally have "SBSIZE dvd moved b (b' + (SBSIZE - k)) a" by (rule dvd_moved [OF assms(1,2)])
  then obtain m where m: "moved b b' a + (SBSIZE - k) = SBSIZE * m" by (auto simp: moved_def dvd_def add.assoc)
  have "m \<noteq> 0" using m assms(5) by (intro notI) simp
  then obtain m' where "m = Suc m'" by (cases m) simp_all
  then have "moved b b' a = m' * SBSIZE + k" using m assms(5) by (simp add: algebra_simps)
  then show ?thesis by blast
qed

text \<open>C30: a file of superblocks that is mapped at a page which is not a whole number of superblocks away from the old place is
  accepted by \<^verbatim>\<open>RP_init\<close>, but the lookup of descriptors no longer works: if the file moves by \<open>k\<close> bytes more than a multiple of the
  superblock size, then for each address in the last \<open>k\<close> bytes of a superblock \<^verbatim>\<open>desc_lookup\<close> returns the descriptor behind the right one.\<close>

theorem remap_misaligned:
  assumes rep: "represents (base_md p) H" and op: "opened b meta_size sz p" and fs: "f_hdr fs = f_hdr (files_of p)"
    and gr: "grants_heap os b' meta_size sz" and sz: "sz < MAX_SB_REGION_SIZE" "MIN_SB_REGION_SIZE \<le> sz"
    and k: "b' SB_IDX mod SBSIZE = (b SB_IDX + k) mod SBSIZE" "0 < k" "k < SBSIZE"
  shows "\<exists>p'. RP_init t os u meta_size fs sz p0 = Inr (1, p') \<and>
    (\<forall>x. in_sb (base_md p) x \<and> SBSIZE \<le> x mod SBSIZE + k \<longrightarrow>
      desc_lookup (base_md p') (moved (b SB_IDX) (b' SB_IDX) x) = moved (b DESC_IDX) (b' DESC_IDX) (desc_lookup (base_md p) x) + DESCSIZE)"
proof -
  let ?s = "base_md p" and ?s' = "reopened b' p fs (base_md p0)"
  obtain p' where p': "RP_init t os u meta_size fs sz p0 = Inr (1, p')" "base_md p' = ?s'"
    using RP_init_reopens [OF gr op rep sz fs] by blast
  note o = opened_sb [OF op] and st = start_moved [OF rep op gr]
  obtain n where g: "geom ?s n" using represents_geom [OF rep] by blast
  have s': "sb_start ?s' = moved (b SB_IDX) (b' SB_IDX) (sb_start ?s)" "desc_start ?s' = b' DESC_IDX + PAGESIZE"
    by (simp_all add: reopened_def o(1))
  obtain a where a: "sb_start ?s' = a * SBSIZE + k"
    using start_misaligned [OF _ _ k, of "sb_start ?s"] g st(1) unfolding s'(1) by (auto simp: geom_def)
  have "desc_lookup ?s' (moved (b SB_IDX) (b' SB_IDX) x) = moved (b DESC_IDX) (b' DESC_IDX) (desc_lookup ?s x) + DESCSIZE"
    if x: "in_sb ?s x" "SBSIZE \<le> x mod SBSIZE + k" for x
  proof -
    define i where "i = (x - sb_start ?s) div SBSIZE"
    define r where "r = (x - sb_start ?s) mod SBSIZE"
    have c: "curr_addr (sb_region ?s) = sb_start ?s + n * SBSIZE" using g region_at_curr by (auto simp: geom_def)
    have ge: "sb_start ?s \<le> x" and lt: "x - sb_start ?s < n * SBSIZE" using x(1) c by (auto simp: in_range_def)
    have xe: "x = sbk ?s i + r" and r: "r < SBSIZE" using ge by (simp_all add: sbk_def i_def r_def pm_consts)
    have i: "i < n" using lt unfolding i_def by (simp add: less_mult_imp_div_less)
    have "SBSIZE dvd sbk ?s i" by (rule geom_bounds(10) [OF g])
    then have xr: "x mod SBSIZE = r" unfolding xe using r by (metis dvd_imp_mod_0 mod_add_left_eq add_0 mod_less)
    have dl: "desc_lookup ?s x = dsc ?s i" by (rule desc_lookup_in [OF g i]) (use xe r in \<open>simp add: sb_range_def\<close>)
    have x': "moved (b SB_IDX) (b' SB_IDX) x = sb_start ?s' + i * SBSIZE + r"
      unfolding s'(1) xe sbk_def using st(1) by (simp add: moved_def)
    have "x < b SB_IDX + FILESIZE (sb_region ?s)" using geom_base(3) [OF g i] geom_base(4) [OF g] xe r o(1) by simp
    then have ux: "user_addr (moved (b SB_IDX) (b' SB_IDX) x)" using st(1,3) ge by (simp add: moved_def user_addr_def)
    have "(i + 1) * DESCSIZE \<le> 2 ^ 30" using i geom_bounds(1) [OF g] by (simp add: pm_consts)
    moreover have "b' DESC_IDX + PAGESIZE + 2 ^ 30 < 2 ^ 47" using gr by (simp add: grants_heap_def acp_start_def user_addr_def desc_bits)
    ultimately have ud: "user_addr (dsc ?s' (i + 1))" unfolding user_addr_def dsc_def s'(2) by linarith
    have "desc_lookup ?s' (moved (b SB_IDX) (b' SB_IDX) x) = dsc ?s' (i + 1)"
      by (rule desc_lookup_misaligned [OF a k(3) x' r _ ux ud]) (use x(2) xr in simp)
    then show ?thesis by (simp add: dl dsc_def s'(2) o(3) moved_def)
  qed
  then show ?thesis using p' by auto
qed

theorem remap_misaligned_witness:
  "\<exists>p1 q p2 old p3 p'. RP_init 0 sample_os (\<lambda>_. 0) 10240 sample_files (2 ^ 32) (process_on (boot_state 0)) = Inr (0, p1) \<and>
    RP_malloc 0 100 p1 = Inr (q, p2) \<and> RP_set_root (\<lambda>_. Inl Exited) q 3 p2 = Inr (old, p3) \<and>
    RP_init 7 (other_os 4096) (\<lambda>_. 0) 10240 (files_of p3) (2 ^ 32) (process_on (boot_state 0)) = Inr (1, p') \<and>
    desc_lookup (base_md p') (moved (2 ^ 40) (2 ^ 41 + 4096) (sb_start (base_md p3) + 65535)) =
      moved (2 ^ 42) (2 ^ 44) (desc_lookup (base_md p3) (sb_start (base_md p3) + 65535)) + DESCSIZE"
proof -
  obtain p1 q p2 old p3 H where l: "RP_init 0 sample_os (\<lambda>_. 0) 10240 sample_files (2 ^ 32) (process_on (boot_state 0)) = Inr (0, p1)"
    "RP_malloc 0 100 p1 = Inr (q, p2)" "RP_set_root (\<lambda>_. Inl Exited) q 3 p2 = Inr (old, p3)" "represents (base_md p3) H" "dom H = {q}"
    "opened sample_base 10240 (2 ^ 32) p3"
    using sample_life by blast
  have k: "2 ^ 32 < MAX_SB_REGION_SIZE" "MIN_SB_REGION_SIZE \<le> 2 ^ 32" "other_base 4096 SB_IDX mod SBSIZE = (sample_base SB_IDX + 4096) mod SBSIZE"
    "0 < (4096 :: nat)" "4096 < SBSIZE" "PAGESIZE dvd 4096" "4096 \<le> SBSIZE"
    by (simp_all add: pm_consts)
  obtain p' where x: "RP_init 7 (other_os 4096) (\<lambda>_. 0) 10240 (files_of p3) (2 ^ 32) (process_on (boot_state 0)) = Inr (1, p')"
    "\<forall>x. in_sb (base_md p3) x \<and> SBSIZE \<le> x mod SBSIZE + 4096 \<longrightarrow> desc_lookup (base_md p') (moved (sample_base SB_IDX) (other_base 4096 SB_IDX) x) =
      moved (sample_base DESC_IDX) (other_base 4096 DESC_IDX) (desc_lookup (base_md p3) x) + DESCSIZE"
    using remap_misaligned [OF l(4,6) refl other_grants [OF k(1,6,7)] k(1-5)] by blast
  let ?x = "sb_start (base_md p3) + 65535"
  obtain g where g: "heap_inv (base_md p3) g" "1 \<le> nsb g" using l(4) by (auto simp: represents_def)
  note gm = heap_invD(1) [OF g(1)]
  have "curr_addr (sb_region (base_md p3)) = sb_start (base_md p3) + nsb g * SBSIZE" using gm region_at_curr by (auto simp: geom_def)
  then have "in_sb (base_md p3) ?x" using g(2) by (simp add: in_range_def pm_consts)
  moreover have "SBSIZE dvd sb_start (base_md p3)" using gm by (simp add: geom_def)
  then have "SBSIZE \<le> ?x mod SBSIZE + 4096" by (auto simp: dvd_def pm_consts)
  ultimately show ?thesis using x l(1-3) by auto
qed

text \<open>C31: a root that was set to the null pointer is not null after a move. The stored word is the distance from the start of the
  superblocks to address 0, so that in a process in which the file is mapped further up the root reads as the distance of the two
  places.\<close>

theorem null_root_dangles:
  assumes rep: "represents (base_md p) H" and op: "opened b meta_size sz p" and init: "initialized p"
    and set: "RP_set_root auto_init 0 i p = Inr (old, p1)" and gr: "grants_heap os b' meta_size sz" and up: "b SB_IDX < b' SB_IDX"
    and sz: "sz < MAX_SB_REGION_SIZE" "MIN_SB_REGION_SIZE \<le> sz"
  shows "get_root i (base_md p1) = Inr 0 \<and>
    (\<exists>p'. RP_init t' os u meta_size (process_exits (snd (RP_close t meta_size p1))) sz p0 = Inr (1, p') \<and>
      get_root i (base_md p') = Inr (b' SB_IDX - b SB_IDX))"
proof -
  let ?s = "base_md p" and ?fs = "process_exits (snd (RP_close t meta_size p1))"
  define w where "w = untranslate (sb_start ?s) 0"
  have i: "i < MAX_ROOTS" and p1: "p1 = p\<lparr>base_md := ?s\<lparr>roots := (roots ?s)(i := w)\<rparr>\<rparr>"
    using set init by (auto simp: RP_set_root_def with_meta_def set_root_def check_def CrossPtr_assign_def w_def split: if_splits)
  note o = opened_sb [OF op] and st = start_moved [OF rep op gr]
  have rep1: "represents (base_md p1) H" by (rule represents_set_root [OF rep, of 0 i old]) (use set init i p1 in \<open>auto simp: RP_set_root_def with_meta_def set_root_def check_def CrossPtr_assign_def w_def split: if_splits\<close>)
  have op1: "opened b meta_size sz p1" using op by (simp add: opened_def p1)
  have fs: "f_hdr ?fs = f_hdr (files_of p1)" "f_roots ?fs = roots (base_md p1)" by (simp_all add: process_exits_def RP_close_files) (simp add: files_of_def)
  obtain p' where p': "RP_init t' os u meta_size ?fs sz p0 = Inr (1, p')" "base_md p' = reopened b' p1 ?fs (base_md p0)"
    using RP_init_reopens [OF gr op1 rep1 sz fs(1)] by blast
  have u: "user_addr (sb_start ?s)" "0 < sb_start ?s" using st(1) represents_geom [OF rep] geom_bounds(3) [of ?s _ 0] by (auto simp: sbk_def)
  have nz: "w \<noteq> 0"
  proof
    assume "w = 0"
    then have "unat (of_nat (sb_start ?s) :: u64) = 0" by (simp add: w_def untranslate_def)
    then show False using u by (simp add: unat_of_nat_user)
  qed
  let ?st = "moved (b SB_IDX) (b' SB_IDX) (sb_start ?s)"
  have "(of_nat ?st :: u64) = of_nat (sb_start ?s + (b' SB_IDX - b SB_IDX))" using st(1) up by (simp add: moved_def)
  then have "translate ?st w = unat (of_nat (b' SB_IDX - b SB_IDX) :: u64)" by (simp add: translate_def w_def untranslate_def)
  also have "\<dots> = b' SB_IDX - b SB_IDX" using st(3) by (intro unat_of_nat_user) (simp add: user_addr_def)
  finally have "get_root i (base_md p') = Inr (b' SB_IDX - b SB_IDX)"
    using i nz o(1) fs(2) by (simp add: get_root_def check_def p'(2) reopened_def p1 CrossPtr_cast_def CrossPtr_is_null_def)
  moreover have "get_root i (base_md p1) = Inr 0"
    using i nz by (simp add: get_root_def check_def p1 CrossPtr_cast_def CrossPtr_is_null_def w_def translate_def untranslate_def)
  ultimately show ?thesis using p'(1) by blast
qed

theorem null_root_dangles_witness:
  "\<exists>p1 q p2 old p3 old' p4 p'. RP_init 0 sample_os (\<lambda>_. 0) 10240 sample_files (2 ^ 32) (process_on (boot_state 0)) = Inr (0, p1) \<and>
    RP_malloc 0 100 p1 = Inr (q, p2) \<and> RP_set_root (\<lambda>_. Inl Exited) q 3 p2 = Inr (old, p3) \<and>
    RP_set_root (\<lambda>_. Inl Exited) 0 3 p3 = Inr (old', p4) \<and> get_root 3 (base_md p4) = Inr 0 \<and>
    RP_init 7 (other_os 0) (\<lambda>_. 0) 10240 (process_exits (snd (RP_close 0 10240 p4))) (2 ^ 32) (process_on (boot_state 0)) = Inr (1, p') \<and>
    get_root 3 (base_md p') = Inr (2 ^ 40)"
proof -
  obtain p1 q p2 old p3 H where l: "RP_init 0 sample_os (\<lambda>_. 0) 10240 sample_files (2 ^ 32) (process_on (boot_state 0)) = Inr (0, p1)"
    "RP_malloc 0 100 p1 = Inr (q, p2)" "RP_set_root (\<lambda>_. Inl Exited) q 3 p2 = Inr (old, p3)" "represents (base_md p3) H"
    "opened sample_base 10240 (2 ^ 32) p3" "initialized p3"
    using sample_life by blast
  obtain old' p4 where p4: "RP_set_root (\<lambda>_. Inl Exited) 0 3 p3 = Inr (old', p4)"
    using l(6) by (simp add: RP_set_root_def with_meta_def set_root_def check_def pm_consts)
  have k: "2 ^ 32 < MAX_SB_REGION_SIZE" "MIN_SB_REGION_SIZE \<le> 2 ^ 32" "sample_base SB_IDX < other_base 0 SB_IDX" by (simp_all add: pm_consts)
  have gr: "grants_heap (other_os 0) (other_base 0) 10240 (2 ^ 32)" by (rule other_grants [OF k(1)]) simp_all
  show ?thesis using null_root_dangles [OF l(4-6) p4 gr k(3,1,2), of 7 "\<lambda>_. 0" 0 "process_on (boot_state 0)"] l(1-3) p4 by auto
qed

end
