(* ===== verification/HashFunctions.thy ===== *)
theory HashFunctions
  imports ByteMemory
begin

text \<open>
  The hash functions of the hash table benchmarks (\<^verbatim>\<open>hash/hash/common/hash.h\<close>): the function that
  libstdc++ uses, Jenkins' function, MurmurHash2 and xxHash, on the bytes of a memory. Every
  arithmetic operation is the one of the C type: \<^verbatim>\<open>size_t\<close> and \<^verbatim>\<open>uint64_t\<close> are 64-bit words, \<^verbatim>\<open>unsigned int\<close> is a
  32-bit word, and \<^verbatim>\<open>char\<close> is signed.
\<close>

type_synonym u32 = "32 word"

section \<open>Hash_bytes\<close>

definition unaligned_load :: "memory \<Rightarrow> addr \<Rightarrow> u64" where
  "unaligned_load m p = load64 m p"

text \<open>The loop counts \<^verbatim>\<open>n\<close> down; callers pass \<open>1 \<le> n < 8\<close>.\<close>

definition load_bytes :: "memory \<Rightarrow> addr \<Rightarrow> nat \<Rightarrow> u64" where
  "load_bytes m p n = fold (\<lambda>i result. push_bit 8 result + ucast (m (p + i))) (rev [0..<n]) 0"

definition shift_mix :: "u64 \<Rightarrow> u64" where
  "shift_mix v = v XOR drop_bit 47 v"

definition Hash_mul :: u64 where
  "Hash_mul = push_bit 32 0xc6a4a793 + 0x5bd1e995"

fun Hash_bytes_loop :: "memory \<Rightarrow> addr \<Rightarrow> nat \<Rightarrow> u64 \<Rightarrow> u64" where
  "Hash_bytes_loop m p 0 hash = hash"
| "Hash_bytes_loop m p (Suc n) hash =
    (let data = shift_mix (unaligned_load m p * Hash_mul) * Hash_mul
     in Hash_bytes_loop m (p + 8) n ((hash XOR data) * Hash_mul))"

text \<open>
  The aligned length is an \<^verbatim>\<open>int\<close>. If it is negative the loop misses its end.
\<close>

definition Hash_bytes :: "memory \<Rightarrow> addr \<Rightarrow> nat \<Rightarrow> u64 \<Rightarrow> u64 outcome" where
  "Hash_bytes m buf len seed =
    (let len_aligned = sint (ucast (of_nat len AND NOT 7 :: u64) :: u32);
         hash = seed XOR (of_nat len * Hash_mul)
     in if len_aligned < 0 then Inl Diverges
        else
          (let hash = Hash_bytes_loop m buf (nat len_aligned div 8) hash;
               hash = (if len mod 8 \<noteq> 0
                       then (hash XOR load_bytes m (buf + nat len_aligned) (len mod 8)) * Hash_mul else hash);
               hash = shift_mix hash * Hash_mul
           in Inr (shift_mix hash)))"

section \<open>Jenkins' function\<close>

definition jenkins_step :: "memory \<Rightarrow> addr \<Rightarrow> u64 \<Rightarrow> u64" where
  "jenkins_step m a hash =
    (let hash = hash + scast (m a);
         hash = hash + push_bit 10 hash
     in hash XOR drop_bit 6 hash)"

definition jenkins :: "memory \<Rightarrow> addr \<Rightarrow> nat \<Rightarrow> u64 \<Rightarrow> u64" where
  "jenkins m key len seed =
    (let hash = fold (\<lambda>i. jenkins_step m (key + i)) [0..<len] 0;
         hash = hash + push_bit 3 hash;
         hash = hash XOR drop_bit 11 hash
     in hash + push_bit 15 hash)"

section \<open>MurmurHash2\<close>

definition load32 :: "memory \<Rightarrow> addr \<Rightarrow> u32" where
  "load32 m a = ucast (m a) OR push_bit 8 (ucast (m (a + 1))) OR push_bit 16 (ucast (m (a + 2))) OR push_bit 24 (ucast (m (a + 3)))"

definition murmur2_m :: u32 where
  "murmur2_m = 0x5bd1e995"

fun murmur2_loop :: "memory \<Rightarrow> addr \<Rightarrow> nat \<Rightarrow> u32 \<Rightarrow> addr \<times> nat \<times> u32" where
  "murmur2_loop m data len h =
    (if len \<ge> 4 then
       (let k = load32 m data;
            k = k * murmur2_m;
            k = k XOR drop_bit 24 k;
            k = k * murmur2_m;
            h = h * murmur2_m;
            h = h XOR k
        in murmur2_loop m (data + 4) (len - 4) h)
     else (data, len, h))"

declare murmur2_loop.simps [simp del]

definition murmur2 :: "memory \<Rightarrow> addr \<Rightarrow> nat \<Rightarrow> u64 \<Rightarrow> u64" where
  "murmur2 m key len seed =
    (let (data, rest, h) = murmur2_loop m key len (ucast (seed XOR of_nat len));
         h = (if rest = 3 then h XOR push_bit 16 (ucast (m (data + 2))) else h);
         h = (if rest \<ge> 2 then h XOR push_bit 8 (ucast (m (data + 1))) else h);
         h = (if rest \<ge> 1 then (h XOR ucast (m data)) * murmur2_m else h);
         h = h XOR drop_bit 13 h;
         h = h * murmur2_m;
         h = h XOR drop_bit 15 h
     in ucast h)"

section \<open>xxHash\<close>

definition NUMBER64_1 :: u64 where "NUMBER64_1 = 11400714785074694791"
definition NUMBER64_2 :: u64 where "NUMBER64_2 = 14029467366897019727"
definition NUMBER64_3 :: u64 where "NUMBER64_3 = 1609587929392839161"
definition NUMBER64_4 :: u64 where "NUMBER64_4 = 9650029242287828579"
definition NUMBER64_5 :: u64 where "NUMBER64_5 = 2870177450012600261"

definition shifting_hash :: "u64 \<Rightarrow> nat \<Rightarrow> u64" where
  "shifting_hash x r = push_bit r x OR drop_bit (64 - r) x"

text \<open>Both branches read the same eight, or four, bytes.\<close>

definition hash_read64_align :: "memory \<Rightarrow> addr \<Rightarrow> nat \<Rightarrow> u64" where
  "hash_read64_align m ptr align = (if align = 0 then load64 m ptr else load64 m ptr)"

definition hash_read32_align :: "memory \<Rightarrow> addr \<Rightarrow> nat \<Rightarrow> u32" where
  "hash_read32_align m ptr align = (if align = 0 then load32 m ptr else load32 m ptr)"

definition xx_round :: "u64 \<Rightarrow> u64 \<Rightarrow> u64" where
  "xx_round v input = shifting_hash (v + input * NUMBER64_2) 31 * NUMBER64_1"

text \<open>The loop over 32 byte stripes, a \<^verbatim>\<open>do\<close> loop that is entered with at least 32 bytes left.\<close>

function xx_stripes :: "memory \<Rightarrow> nat \<Rightarrow> addr \<Rightarrow> addr \<Rightarrow> u64 \<times> u64 \<times> u64 \<times> u64 \<Rightarrow> addr \<times> u64 \<times> u64 \<times> u64 \<times> u64" where
  "xx_stripes m align limitation p (v1, v2, v3, v4) =
    (let v1 = xx_round v1 (hash_read64_align m p align);
         v2 = xx_round v2 (hash_read64_align m (p + 8) align);
         v3 = xx_round v3 (hash_read64_align m (p + 16) align);
         v4 = xx_round v4 (hash_read64_align m (p + 24) align);
         p = p + 32
     in if p \<le> limitation then xx_stripes m align limitation p (v1, v2, v3, v4) else (p, v1, v2, v3, v4))"
  by pat_completeness auto
termination
  by (relation "measure (\<lambda>(m, align, limitation, p, v). Suc limitation - p)") auto

declare xx_stripes.simps [simp del]

definition xx_merge :: "u64 \<Rightarrow> u64 \<Rightarrow> u64" where
  "xx_merge hash v =
    (let v = shifting_hash (v * NUMBER64_2) 31 * NUMBER64_1
     in (hash XOR v) * NUMBER64_1 + NUMBER64_4)"

text \<open>The head: all full stripes of a long input, or nothing.\<close>

definition xx_head :: "memory \<Rightarrow> nat \<Rightarrow> addr \<Rightarrow> nat \<Rightarrow> u64 \<Rightarrow> addr \<times> u64" where
  "xx_head m align p len seed =
    (if len \<ge> 32 then
       (let (p, v1, v2, v3, v4) = xx_stripes m align (p + len - 32) p
              (seed + NUMBER64_1 + NUMBER64_2, seed + NUMBER64_2, seed + 0, seed - NUMBER64_1);
            hash = shifting_hash v1 1 + shifting_hash v2 7 + shifting_hash v3 12 + shifting_hash v4 18
        in (p, xx_merge (xx_merge (xx_merge (xx_merge hash v1) v2) v3) v4))
     else (p, seed + NUMBER64_5))"

function xx_words :: "memory \<Rightarrow> nat \<Rightarrow> addr \<Rightarrow> addr \<Rightarrow> u64 \<Rightarrow> addr \<times> u64" where
  "xx_words m align ending p hash =
    (if p + 8 \<le> ending then
       (let k1 = hash_read64_align m p align;
            k1 = shifting_hash (k1 * NUMBER64_2) 31 * NUMBER64_1
        in xx_words m align ending (p + 8) (shifting_hash (hash XOR k1) 27 * NUMBER64_1 + NUMBER64_4))
     else (p, hash))"
  by pat_completeness auto
termination
  by (relation "measure (\<lambda>(m, align, ending, p, hash). ending - p)") auto

declare xx_words.simps [simp del]

function xx_tail :: "memory \<Rightarrow> addr \<Rightarrow> addr \<Rightarrow> u64 \<Rightarrow> u64" where
  "xx_tail m ending p hash =
    (if p < ending then xx_tail m ending (p + 1) (shifting_hash (hash XOR ucast (m p) * NUMBER64_5) 11 * NUMBER64_1) else hash)"
  by pat_completeness auto
termination
  by (relation "measure (\<lambda>(m, ending, p, hash). ending - p)") auto

declare xx_tail.simps [simp del]

definition xx_avalanche :: "u64 \<Rightarrow> u64" where
  "xx_avalanche hash =
    (let hash = hash XOR drop_bit 33 hash;
         hash = hash * NUMBER64_2;
         hash = hash XOR drop_bit 29 hash;
         hash = hash * NUMBER64_3
     in hash XOR drop_bit 32 hash)"

definition hash_compute :: "memory \<Rightarrow> addr \<Rightarrow> nat \<Rightarrow> u64 \<Rightarrow> nat \<Rightarrow> u64" where
  "hash_compute m input len seed align =
    (let ending = input + len;
         (p, hash) = xx_head m align input len seed;
         hash = hash + of_nat len;
         (p, hash) = xx_words m align ending p hash;
         (p, hash) = (if p + 4 \<le> ending
           then (p + 4, shifting_hash (hash XOR ucast (hash_read32_align m p align) * NUMBER64_1) 23 * NUMBER64_2 + NUMBER64_3)
           else (p, hash));
         hash = xx_tail m ending p hash
     in xx_avalanche hash)"

definition xxhash :: "memory \<Rightarrow> addr \<Rightarrow> nat \<Rightarrow> u64 \<Rightarrow> u64" where
  "xxhash m data len seed =
    (if data mod 8 = 0 then hash_compute m data len seed 1 else hash_compute m data len seed 0)"

section \<open>The table of functions\<close>

text \<open>The first entry is a function of the C++ library, an argument here.\<close>

definition hash_funcs :: "(memory \<Rightarrow> addr \<Rightarrow> nat \<Rightarrow> u64 \<Rightarrow> u64) \<Rightarrow> (memory \<Rightarrow> addr \<Rightarrow> nat \<Rightarrow> u64 \<Rightarrow> u64) list" where
  "hash_funcs standard = [standard, murmur2, jenkins, xxhash]"

definition h :: "(memory \<Rightarrow> addr \<Rightarrow> nat \<Rightarrow> u64 \<Rightarrow> u64) \<Rightarrow> memory \<Rightarrow> addr \<Rightarrow> nat \<Rightarrow> u64 \<Rightarrow> u64" where
  "h standard m key len seed = (hash_funcs standard ! 0) m key len seed"

section \<open>A hash depends on the bytes of the key only\<close>

text \<open>
  The contract that a hash table relies on: keys with the same bytes have the same hash, wherever they
  are stored and whatever lies around them.
\<close>

locale byte_hash =
  fixes H :: "memory \<Rightarrow> addr \<Rightarrow> nat \<Rightarrow> u64 \<Rightarrow> 'h"
  assumes same_bytes: "(\<And>i. i < len \<Longrightarrow> m (p + i) = m' (p' + i)) \<Longrightarrow> H m p len seed = H m' p' len seed"
begin

lemma outside: "(\<And>x. p \<le> x \<Longrightarrow> x < p + len \<Longrightarrow> m' x = m x) \<Longrightarrow> H m' p len seed = H m p len seed"
  by (rule same_bytes) simp

lemma copied: "q + len \<le> p \<or> p + len \<le> q \<Longrightarrow> H (memcpy q p len m) q len seed = H m p len seed"
  by (rule same_bytes) (simp add: memcpy_def)

end

text \<open>Loads, relative to a base address.\<close>

lemma load64_same: "(\<And>i. i < 8 \<Longrightarrow> m (p + i) = m' (p' + i)) \<Longrightarrow> load64 m p = load64 m' p'"
proof -
  assume a: "\<And>i. i < 8 \<Longrightarrow> m (p + i) = m' (p' + i)"
  have "m p = m' p'" "m (p + 1) = m' (p' + 1)" "m (p + 2) = m' (p' + 2)" "m (p + 3) = m' (p' + 3)"
    "m (p + 4) = m' (p' + 4)" "m (p + 5) = m' (p' + 5)" "m (p + 6) = m' (p' + 6)" "m (p + 7) = m' (p' + 7)"
    using a [of 0] a [of 1] a [of 2] a [of 3] a [of 4] a [of 5] a [of 6] a [of 7] by simp_all
  then show ?thesis by (simp add: load64_def)
qed

lemma load32_same: "(\<And>i. i < 4 \<Longrightarrow> m (p + i) = m' (p' + i)) \<Longrightarrow> load32 m p = load32 m' p'"
proof -
  assume a: "\<And>i. i < 4 \<Longrightarrow> m (p + i) = m' (p' + i)"
  have "m p = m' p'" "m (p + 1) = m' (p' + 1)" "m (p + 2) = m' (p' + 2)" "m (p + 3) = m' (p' + 3)"
    using a [of 0] a [of 1] a [of 2] a [of 3] by simp_all
  then show ?thesis by (simp add: load32_def)
qed

lemma load_bytes_same: "(\<And>i. i < n \<Longrightarrow> m (p + i) = m' (p' + i)) \<Longrightarrow> load_bytes m p n = load_bytes m' p' n"
  unfolding load_bytes_def by (rule fold_cong) auto

lemma Hash_bytes_loop_same:
  "(\<And>i. i < 8 * n \<Longrightarrow> m (p + i) = m' (p' + i)) \<Longrightarrow> Hash_bytes_loop m p n hash = Hash_bytes_loop m' p' n hash"
proof (induction n arbitrary: p p' hash)
  case (Suc n)
  have "unaligned_load m p = unaligned_load m' p'" unfolding unaligned_load_def by (rule load64_same) (use Suc.prems in simp)
  moreover have "m (p + 8 + i) = m' (p' + 8 + i)" if "i < 8 * n" for i using Suc.prems [of "8 + i"] that by (simp add: algebra_simps)
  ultimately show ?case using Suc.IH [of "p + 8" "p' + 8"] by (simp add: Let_def)
qed simp

lemma sint_nonneg:
  fixes w :: u32
  assumes "0 \<le> sint w"
  shows "nat (sint w) = unat w"
proof -
  have si: "sint w = signed_take_bit 31 (uint w)" unfolding sint_uint by simp
  have b: "\<not> bit (uint w) 31" using assms unfolding si signed_take_bit_nonnegative_iff .
  have "take_bit 31 (uint w) = uint w"
  proof (rule bit_eqI)
    fix n
    have "n < 32" if "bit (uint w) n" using that bit_imp_le_length [of w n] by (simp add: bit_uint_iff)
    then show "bit (take_bit 31 (uint w)) n \<longleftrightarrow> bit (uint w) n"
      using b unfolding bit_take_bit_iff by (cases "n = 31") auto
  qed
  then have "sint w = uint w" unfolding si signed_take_bit_eq_if_positive [OF b] .
  then show ?thesis by simp
qed

lemma len_aligned:
  fixes len :: nat
  defines "L \<equiv> sint (ucast (of_nat len AND NOT 7 :: u64) :: u32)"
  assumes "0 \<le> L"
  shows "nat L + len mod 8 \<le> len" and "8 * (nat L div 8) = nat L"
proof -
  let ?w = "of_nat len AND NOT 7 :: u64"
  have seven: "7 = (mask 3 :: u64)" by (simp add: mask_eq_exp_minus_1)
  have u: "unat ?w = len mod 2 ^ 64 div 8 * 8" unfolding seven and_not_mask_unat by (simp add: unat_of_nat)
  have "nat L = unat (ucast ?w :: u32)" using sint_nonneg [of "ucast ?w :: u32"] assms(2) unfolding L_def by simp
  also have "\<dots> = unat ?w mod 2 ^ 32" by (simp add: unsigned_ucast_eq take_bit_eq_mod)
  finally have L: "nat L = (len mod 2 ^ 64 div 8 * 8) mod 2 ^ 32" using u by simp
  have "8 dvd (len mod 2 ^ 64 div 8 * 8) mod 2 ^ 32" by (rule dvd_mod) simp_all
  then show "8 * (nat L div 8) = nat L" using L by simp
  have "nat L \<le> len mod 2 ^ 64 div 8 * 8" unfolding L by simp
  also have "\<dots> \<le> len div 8 * 8" by (intro mult_le_mono1 div_le_mono) simp
  finally show "nat L + len mod 8 \<le> len" using div_mult_mod_eq [of len 8] by linarith
qed

lemma Hash_bytes_same:
  assumes "\<And>i. i < len \<Longrightarrow> m (p + i) = m' (p' + i)"
  shows "Hash_bytes m p len seed = Hash_bytes m' p' len seed"
proof -
  let ?L = "sint (ucast (of_nat len AND NOT 7 :: u64) :: u32)"
  show ?thesis
  proof (cases "?L < 0")
    case False
    then have le: "nat ?L + len mod 8 \<le> len" "8 * (nat ?L div 8) = nat ?L" using len_aligned [of len] by simp_all
    have "Hash_bytes_loop m p (nat ?L div 8) x = Hash_bytes_loop m' p' (nat ?L div 8) x" for x
      by (rule Hash_bytes_loop_same) (use assms le in simp)
    moreover have "load_bytes m (p + nat ?L) (len mod 8) = load_bytes m' (p' + nat ?L) (len mod 8)"
      by (rule load_bytes_same) (use assms [of "nat ?L + _"] le in \<open>simp add: add.assoc\<close>)
    ultimately show ?thesis unfolding Hash_bytes_def Let_def by (simp only:)
  qed (simp add: Hash_bytes_def)
qed

lemma jenkins_same:
  assumes "\<And>i. i < len \<Longrightarrow> m (p + i) = m' (p' + i)"
  shows "jenkins m p len seed = jenkins m' p' len seed"
proof -
  have "fold (\<lambda>i. jenkins_step m (p + i)) [0..<len] 0 = fold (\<lambda>i. jenkins_step m' (p' + i)) [0..<len] 0"
    by (rule fold_cong) (use assms in \<open>auto simp: jenkins_step_def\<close>)
  then show ?thesis by (simp add: jenkins_def)
qed

lemma murmur2_loop_rest: "fst (snd (murmur2_loop m p len x)) = len mod 4 \<and> fst (murmur2_loop m p len x) + len mod 4 = p + len"
proof (induction m p len x rule: murmur2_loop.induct)
  case (1 m p len x)
  show ?case
  proof (cases "4 \<le> len")
    case True
    then have "(len - 4) mod 4 = len mod 4" by (simp add: le_mod_geq)
    then show ?thesis using 1 [OF True] True by (subst (1 2) murmur2_loop.simps) (simp add: Let_def)
  qed (simp add: murmur2_loop.simps)
qed

lemma murmur2_loop_same:
  "(\<And>i. i < len \<Longrightarrow> m (p + i) = m' (p' + i)) \<Longrightarrow> snd (murmur2_loop m p len x) = snd (murmur2_loop m' p' len x)"
proof (induction m p len x arbitrary: p' rule: murmur2_loop.induct)
  case (1 m p len x)
  show ?case
  proof (cases "4 \<le> len")
    case True
    have l: "load32 m p = load32 m' p'" by (rule load32_same) (use "1.prems" True in simp)
    have "m (p + 4 + i) = m' (p' + 4 + i)" if "i < len - 4" for i using "1.prems" [of "4 + i"] that by (simp add: algebra_simps)
    then show ?thesis using "1.IH" [OF True refl refl refl refl refl refl, of "p' + 4"] True l
      by (subst (1 2) murmur2_loop.simps) (simp add: Let_def)
  qed (simp add: murmur2_loop.simps)
qed

lemma murmur2_same:
  assumes "\<And>i. i < len \<Longrightarrow> m (p + i) = m' (p' + i)"
  shows "murmur2 m p len seed = murmur2 m' p' len seed"
proof -
  let ?x = "ucast (seed XOR of_nat len) :: u32"
  obtain d r y where l: "murmur2_loop m p len ?x = (d, r, y)" by (cases "murmur2_loop m p len ?x")
  obtain d' r' y' where l': "murmur2_loop m' p' len ?x = (d', r', y')" by (cases "murmur2_loop m' p' len ?x")
  have e: "r' = r" "y' = y" using murmur2_loop_same [of len m p m' p' ?x] assms l l' by simp_all
  have r: "r = len mod 4" "d + len mod 4 = p + len" "d' + len mod 4 = p' + len"
    using murmur2_loop_rest [of m p len ?x] murmur2_loop_rest [of m' p' len ?x] l l' by simp_all
  have dd: "d = p + (len - len mod 4)" "d' = p' + (len - len mod 4)"
    using r(2,3) mod_less_eq_dividend [of len 4] by linarith+
  have "m (d + i) = m' (d' + i)" if "i < r" for i
  proof -
    have "len - len mod 4 + i < len" using that r(1) mod_less_eq_dividend [of len 4] by linarith
    then show ?thesis using assms [of "len - len mod 4 + i"] unfolding dd add.assoc by blast
  qed
  then have b: "2 < r \<Longrightarrow> m (d + 2) = m' (d' + 2)" "1 < r \<Longrightarrow> m (d + 1) = m' (d' + 1)" "0 < r \<Longrightarrow> m d = m' d'"
    using add.right_neutral by metis+
  show ?thesis unfolding murmur2_def l l' e using b by (auto simp: Let_def)
qed

text \<open>The three loops of xxHash, from offset \<open>k\<close> of the key on.\<close>

definition agree :: "nat \<Rightarrow> memory \<Rightarrow> addr \<Rightarrow> memory \<Rightarrow> addr \<Rightarrow> bool" where
  "agree len m b m' b' \<longleftrightarrow> (\<forall>i < len. m (b + i) = m' (b' + i))"

lemma agreeD: "agree len m b m' b' \<Longrightarrow> i < len \<Longrightarrow> m (b + i) = m' (b' + i)"
  by (simp add: agree_def)

lemma read64_same:
  assumes "agree len m b m' b'" and "k + 8 \<le> len"
  shows "hash_read64_align m (b + k) a = hash_read64_align m' (b' + k) a'"
proof -
  have "load64 m (b + k) = load64 m' (b' + k)"
    by (rule load64_same) (use assms in \<open>simp add: agree_def add.assoc\<close>)
  then show ?thesis by (simp add: hash_read64_align_def)
qed

lemma read32_same:
  assumes "agree len m b m' b'" and "k + 4 \<le> len"
  shows "hash_read32_align m (b + k) a = hash_read32_align m' (b' + k) a'"
proof -
  have "load32 m (b + k) = load32 m' (b' + k)"
    by (rule load32_same) (use assms in \<open>simp add: agree_def add.assoc\<close>)
  then show ?thesis by (simp add: hash_read32_align_def)
qed

lemma xx_stripes_same:
  assumes eq: "agree len m b m' b'" and "k + 32 \<le> len"
  shows "\<exists>k' vs. xx_stripes m a (b + len - 32) (b + k) v = (b + k', vs) \<and> xx_stripes m' a' (b' + len - 32) (b' + k) v = (b' + k', vs) \<and> k' \<le> len"
  using assms(2)
proof (induction "len - k" arbitrary: k v rule: less_induct)
  case less
  obtain v1 v2 v3 v4 where v: "v = (v1, v2, v3, v4)" by (cases v)
  have r: "hash_read64_align m (b + k + j) a = hash_read64_align m' (b' + k + j) a'" if "j + 8 \<le> 32" for j
    using read64_same [OF eq, of "k + j"] less.prems that by (simp add: add.assoc)
  have r0: "hash_read64_align m (b + k) a = hash_read64_align m' (b' + k) a'" using r [of 0] by simp
  let ?v = "(xx_round v1 (hash_read64_align m (b + k) a), xx_round v2 (hash_read64_align m (b + k + 8) a),
    xx_round v3 (hash_read64_align m (b + k + 16) a), xx_round v4 (hash_read64_align m (b + k + 24) a))"
  show ?case
  proof (cases "k + 64 \<le> len")
    case True
    have c: "b + k + 32 \<le> b + len - 32" "b' + k + 32 \<le> b' + len - 32" using True by simp_all
    have d: "len - (k + 32) < len - k" "k + 32 + 32 \<le> len" using True by simp_all
    obtain k' vs where i: "xx_stripes m a (b + len - 32) (b + (k + 32)) ?v = (b + k', vs)"
      "xx_stripes m' a' (b' + len - 32) (b' + (k + 32)) ?v = (b' + k', vs)" "k' \<le> len"
      using less.hyps [OF d(1,2), of ?v] by blast
    show ?thesis unfolding v using i c r [of 8] r [of 16] r [of 24] r0
      by (subst (1 2) xx_stripes.simps) (simp add: Let_def add.assoc)
  next
    case False
    then have "\<not> b + k + 32 \<le> b + len - 32" "\<not> b' + k + 32 \<le> b' + len - 32" using less.prems by simp_all
    then show ?thesis unfolding v using r [of 8] r [of 16] r [of 24] r0 less.prems
      by (subst (1 2) xx_stripes.simps) (simp add: Let_def add.assoc)
  qed
qed

lemma xx_head_same:
  assumes "agree len m b m' b'"
  shows "\<exists>k x. xx_head m a b len seed = (b + k, x) \<and> xx_head m' a' b' len seed = (b' + k, x) \<and> k \<le> len"
proof (cases "32 \<le> len")
  case True
  let ?v = "(seed + NUMBER64_1 + NUMBER64_2, seed + NUMBER64_2, seed + 0, seed - NUMBER64_1)"
  obtain k' vs where s: "xx_stripes m a (b + len - 32) b ?v = (b + k', vs)" "xx_stripes m' a' (b' + len - 32) b' ?v = (b' + k', vs)" "k' \<le> len"
    using xx_stripes_same [of len m b m' b' 0 a ?v a'] assms True by auto
  show ?thesis unfolding xx_head_def using True s by (cases vs) (simp add: Let_def)
qed (auto simp: xx_head_def)

lemma xx_words_same:
  assumes eq: "agree len m b m' b'" and "k \<le> len"
  shows "\<exists>k' y. xx_words m a (b + len) (b + k) x = (b + k', y) \<and> xx_words m' a' (b' + len) (b' + k) x = (b' + k', y) \<and> k' \<le> len"
  using assms(2)
proof (induction "len - k" arbitrary: k x rule: less_induct)
  case less
  show ?case
  proof (cases "k + 8 \<le> len")
    case True
    have r: "hash_read64_align m (b + k) a = hash_read64_align m' (b' + k) a'" by (rule read64_same [OF eq True])
    let ?x = "shifting_hash (x XOR (shifting_hash (hash_read64_align m (b + k) a * NUMBER64_2) 31 * NUMBER64_1)) 27 * NUMBER64_1 + NUMBER64_4"
    have d: "len - (k + 8) < len - k" using True by simp
    obtain k' y where i: "xx_words m a (b + len) (b + (k + 8)) ?x = (b + k', y)" "xx_words m' a' (b' + len) (b' + (k + 8)) ?x = (b' + k', y)" "k' \<le> len"
      using less.hyps [OF d(1) True, of ?x] by blast
    then show ?thesis using True r by (subst (1 2) xx_words.simps) (simp add: Let_def add.assoc)
  next
    case False
    then show ?thesis using less.prems by (subst (1 2) xx_words.simps) simp
  qed
qed

lemma xx_tail_same:
  assumes eq: "agree len m b m' b'" and "k \<le> len"
  shows "xx_tail m (b + len) (b + k) x = xx_tail m' (b' + len) (b' + k) x"
  using assms(2)
proof (induction "len - k" arbitrary: k x rule: less_induct)
  case less
  show ?case
  proof (cases "k < len")
    case True
    then show ?thesis using less.hyps [of "k + 1"] agreeD [OF eq True] by (subst (1 2) xx_tail.simps) (simp add: add.assoc)
  next
    case False
    then show ?thesis using less.prems by (subst (1 2) xx_tail.simps) simp
  qed
qed

lemma hash_compute_same:
  assumes eq: "agree len m b m' b'"
  shows "hash_compute m b len seed a = hash_compute m' b' len seed a'"
proof -
  obtain k x where h: "xx_head m a b len seed = (b + k, x)" "xx_head m' a' b' len seed = (b' + k, x)" "k \<le> len"
    using xx_head_same [of len m b m' b' a seed a'] eq by blast
  obtain k' y where w: "xx_words m a (b + len) (b + k) (x + of_nat len) = (b + k', y)"
      "xx_words m' a' (b' + len) (b' + k) (x + of_nat len) = (b' + k', y)" "k' \<le> len"
    using xx_words_same [of len m b m' b' k a _ a'] eq h(3) by blast
  have t: "xx_tail m (b + len) (b + j) z = xx_tail m' (b' + len) (b' + j) z" if "j \<le> len" for j z by (rule xx_tail_same [OF eq that])
  show ?thesis
  proof (cases "k' + 4 \<le> len")
    case True
    then show ?thesis unfolding hash_compute_def using h w read32_same [OF eq True, of a a'] t [OF True] by (simp add: Let_def add.assoc)
  next
    case False
    then show ?thesis unfolding hash_compute_def using h w t [OF w(3)] by (simp add: Let_def add.assoc)
  qed
qed

lemma xxhash_same:
  assumes "\<And>i. i < len \<Longrightarrow> m (b + i) = m' (b' + i)"
  shows "xxhash m b len seed = xxhash m' b' len seed"
  using hash_compute_same [of len m b m' b' seed] assms by (simp add: xxhash_def agree_def)

interpretation libstdcxx: byte_hash Hash_bytes
  by unfold_locales (rule Hash_bytes_same)

interpretation jenkins: byte_hash jenkins
  by unfold_locales (rule jenkins_same)

interpretation murmur: byte_hash murmur2
  by unfold_locales (rule murmur2_same)

interpretation xx: byte_hash xxhash
  by unfold_locales (rule xxhash_same)

section \<open>Mixing steps lose nothing\<close>

lemma xor_shift_inj:
  assumes "0 < k" and "v XOR drop_bit k v = w XOR drop_bit k (w :: u64)"
  shows "v = w"
proof -
  define u where "u = v XOR w"
  have "bit u n \<longleftrightarrow> bit u (k + n)" if "n < 64" for n
    using arg_cong [OF assms(2), of "\<lambda>x. bit x n"] that by (auto simp: u_def bit_simps)
  then have step: "bit u n \<longleftrightarrow> bit u (k + n)" for n
    using bit_imp_le_length [of u n] bit_imp_le_length [of u "k + n"] by (cases "n < 64") auto
  have "\<not> bit u n" for n
  proof (induction "64 - n" arbitrary: n rule: less_induct)
    case less
    show ?case
    proof (cases "n < 64")
      case True
      then have "\<not> bit u (k + n)" using assms(1) by (intro less) simp
      then show ?thesis using step by blast
    next
      case False
      then show ?thesis using bit_imp_le_length [of u n] by auto
    qed
  qed
  then have "bit v n \<longleftrightarrow> bit w n" for n unfolding u_def by (simp add: bit_xor_iff)
  then show ?thesis by (simp add: bit_eq_iff)
qed

lemma odd_mult_inj:
  assumes "c * d = 1" and "a * c = b * c"
  shows "a = (b :: u64)"
proof -
  have "a * (c * d) = b * (c * d)" unfolding mult.assoc [symmetric] assms(2) ..
  then show ?thesis by (simp add: assms(1))
qed

lemma inverses:
  "Hash_mul * 6879827495036328381 = 1" "NUMBER64_1 * 614540362697595703 = 1"
  "NUMBER64_2 * 839798700976720815 = 1" "NUMBER64_3 * 16855272203555305545 = 1"
  by (simp_all add: Hash_mul_def NUMBER64_1_def NUMBER64_2_def NUMBER64_3_def)

lemmas mult_inj = odd_mult_inj [OF inverses(1)] odd_mult_inj [OF inverses(2)] odd_mult_inj [OF inverses(3)] odd_mult_inj [OF inverses(4)]

lemma bit_shifting_hash:
  assumes "0 < r" "r < 64" "j < 64"
  shows "bit (shifting_hash x r) ((j + r) mod 64) = bit x j"
proof (cases "j + r < 64")
  case True
  then show ?thesis using assms bit_imp_le_length [of x "64 + j"] by (auto simp: shifting_hash_def bit_simps)
next
  case False
  then have "(j + r) mod 64 = j + r - 64" using assms by (simp add: le_mod_geq)
  then show ?thesis using False assms by (auto simp: shifting_hash_def bit_simps)
qed

lemma shifting_hash_inj:
  assumes "0 < r" "r < 64" and "shifting_hash x r = shifting_hash y r"
  shows "x = y"
proof (rule bit_word_eqI)
  fix n assume "n < LENGTH(64)"
  then show "bit x n \<longleftrightarrow> bit y n"
    using bit_shifting_hash [OF assms(1,2), of n x] bit_shifting_hash [OF assms(1,2), of n y] assms(3) by simp
qed

lemma load64_inj:
  assumes "load64 m p = load64 m' p'" and "i < 8"
  shows "m (p + i) = m' (p' + i)"
proof (rule bit_word_eqI)
  fix n assume "n < LENGTH(8)"
  then show "bit (m (p + i)) n \<longleftrightarrow> bit (m' (p' + i)) n"
    using bit_load64 [OF assms(2), of n m p] bit_load64 [OF assms(2), of n m' p'] assms(1) by simp
qed

lemma shift_mix_inj: "shift_mix v = shift_mix w \<Longrightarrow> v = w"
  unfolding shift_mix_def by (rule xor_shift_inj) simp_all

lemma xor_left_inj: "a XOR v = a XOR w \<longleftrightarrow> v = (w :: u64)"
proof
  assume e: "a XOR v = a XOR w"
  have "v = a XOR (a XOR v)" by (simp add: xor.assoc [symmetric])
  also have "\<dots> = a XOR (a XOR w)" unfolding e ..
  also have "\<dots> = w" by (simp add: xor.assoc [symmetric])
  finally show "v = w" .
qed simp

lemma xx_avalanche_inj: "xx_avalanche v = xx_avalanche w \<Longrightarrow> v = w"
  unfolding xx_avalanche_def Let_def by (drule xor_shift_inj [rotated], simp, drule mult_inj(4), drule xor_shift_inj [rotated], simp,
      drule mult_inj(3), drule xor_shift_inj [rotated], simp, assumption)

lemma Hash_bytes_8:
  "Hash_bytes m p 8 seed = Inr (shift_mix (shift_mix (((seed XOR (8 * Hash_mul)) XOR (shift_mix (load64 m p * Hash_mul) * Hash_mul)) * Hash_mul) * Hash_mul))"
proof -
  have l: "sint (ucast (of_nat 8 AND NOT 7 :: u64) :: u32) = 8" by simp
  show ?thesis unfolding Hash_bytes_def l by (simp add: unaligned_load_def)
qed

lemma xxhash_8:
  "xxhash m p 8 seed = xx_avalanche (shifting_hash ((seed + NUMBER64_5 + 8) XOR (shifting_hash (load64 m p * NUMBER64_2) 31 * NUMBER64_1)) 27 * NUMBER64_1 + NUMBER64_4)"
  by (simp add: xxhash_def hash_compute_def xx_head_def xx_words.simps xx_tail.simps hash_read64_align_def Let_def)

lemma Hash_bytes_8_inj: "Hash_bytes m p 8 seed = Hash_bytes m' p' 8 seed \<Longrightarrow> load64 m p = load64 m' p'"
  unfolding Hash_bytes_8 sum.inject
  by (drule shift_mix_inj, drule mult_inj(1), drule shift_mix_inj, drule mult_inj(1)) (simp add: xor_left_inj, drule mult_inj(1), drule shift_mix_inj, erule mult_inj(1))

lemma xxhash_8_inj:
  assumes "xxhash m p 8 seed = xxhash m' p' 8 seed"
  shows "load64 m p = load64 m' p'"
proof -
  let ?a = "seed + NUMBER64_5 + 8" and ?k = "shifting_hash (load64 m p * NUMBER64_2) 31" and ?k' = "shifting_hash (load64 m' p' * NUMBER64_2) 31"
  have "shifting_hash (?a XOR (?k * NUMBER64_1)) 27 * NUMBER64_1 = shifting_hash (?a XOR (?k' * NUMBER64_1)) 27 * NUMBER64_1"
    using xx_avalanche_inj [OF assms [unfolded xxhash_8]] by simp
  then have "shifting_hash (?a XOR (?k * NUMBER64_1)) 27 = shifting_hash (?a XOR (?k' * NUMBER64_1)) 27" by (rule mult_inj(2))
  then have "?a XOR (?k * NUMBER64_1) = ?a XOR (?k' * NUMBER64_1)" by (rule shifting_hash_inj [rotated 2]) simp_all
  then have "?k * NUMBER64_1 = ?k' * NUMBER64_1" unfolding xor_left_inj .
  then have "?k = ?k'" by (rule mult_inj(2))
  then have "load64 m p * NUMBER64_2 = load64 m' p' * NUMBER64_2" by (rule shifting_hash_inj [rotated 2]) simp_all
  then show ?thesis by (rule mult_inj(3))
qed

section \<open>Properties of the hash functions\<close>

text \<open>C35: all four hash functions depend only on the bytes of the key: a copy of the key elsewhere in memory has the same hash,
  whatever its alignment.\<close>

theorem copies_hash_alike:
  assumes "q + len \<le> p \<or> p + len \<le> q"
  shows "Hash_bytes (memcpy q p len m) q len seed = Hash_bytes m p len seed \<and>
    jenkins (memcpy q p len m) q len seed = jenkins m p len seed \<and>
    murmur2 (memcpy q p len m) q len seed = murmur2 m p len seed \<and>
    xxhash (memcpy q p len m) q len seed = xxhash m p len seed"
  by (intro conjI libstdcxx.copied jenkins.copied murmur.copied xx.copied assms)

theorem copies_hash_alike_witness:
  "xxhash (memcpy 101 8 40 (\<lambda>x. of_nat x)) 101 40 7 = xxhash (\<lambda>x. of_nat x) 8 40 7"
  using copies_hash_alike [of 101 40 8 "\<lambda>x. of_nat x" 7] by simp

text \<open>C36: on keys of eight bytes, the size of the keys of the benchmarks, \<^verbatim>\<open>Hash_bytes\<close> and \<^verbatim>\<open>xxhash\<close> are free of collisions: two keys have
  the same hash if and only if their bytes are the same.\<close>

theorem hash8_injective:
  "(Hash_bytes m p 8 seed = Hash_bytes m' p' 8 seed \<longleftrightarrow> agree 8 m p m' p') \<and>
   (xxhash m p 8 seed = xxhash m' p' 8 seed \<longleftrightarrow> agree 8 m p m' p')"
proof -
  have "load64 m p = load64 m' p' \<longleftrightarrow> agree 8 m p m' p'"
    using load64_inj [of m p m' p'] load64_same [of m p m' p'] unfolding agree_def by blast
  then show ?thesis using Hash_bytes_8_inj [of m p seed m' p'] xxhash_8_inj [of m p seed m' p'] Hash_bytes_8 [of _ _ seed] xxhash_8 [of _ _ seed] by metis
qed

end
