(* ===== verification/ClobberQueue.thy ===== *)
theory ClobberQueue
  imports Prelude
begin

text \<open>
  The queue of the Clobber-NVM benchmarks (\<^verbatim>\<open>clobber-nvm/apps/queue/queue.c\<close>): a linked list with a sentinel
  node. The nodes live in a store from addresses to nodes. \<^verbatim>\<open>malloc\<close> is a function of the store, with
  \<open>None\<close> for the null pointer; an access through an address without a node is \<open>NullDeref\<close>.
\<close>

section \<open>The code\<close>

record queuenode =
  qn_value :: u64
  qn_next :: addr

type_synonym queue_store = "addr \<rightharpoonup> queuenode"
type_synonym queue_malloc = "queue_store \<Rightarrow> addr option"

record queue =
  q_locked :: bool
  q_head :: addr
  q_tail :: addr
  q_store :: queue_store

definition queuenode_new :: "queue_malloc \<Rightarrow> u64 \<Rightarrow> queue_store \<Rightarrow> addr \<times> queue_store" where
  "queuenode_new malloc val st =
    (case malloc st of None \<Rightarrow> (0, st) | Some node \<Rightarrow> (node, st(node \<mapsto> \<lparr>qn_value = val, qn_next = 0\<rparr>)))"

definition queuenode_delete :: "addr \<Rightarrow> queue_store \<Rightarrow> queue_store" where
  "queuenode_delete node st = st(node := None)"

text \<open>\<open>got\<close> tells if the queue itself was allocated; the lock of a null queue is initialised all the same.\<close>

definition queue_new :: "queue_malloc \<Rightarrow> bool \<Rightarrow> queue_store \<Rightarrow> queue outcome" where
  "queue_new malloc got st =
    (if got then (let (node, st1) = queuenode_new malloc 0 st in Inr \<lparr>q_locked = False, q_head = node, q_tail = node, q_store = st1\<rparr>)
     else Inl NullDeref)"

definition queue_enqueue :: "queue_malloc \<Rightarrow> u64 \<Rightarrow> queue \<Rightarrow> queue outcome" where
  "queue_enqueue malloc val q =
    (let (node, st) = queuenode_new malloc val (q_store q)
     in case st (q_tail q) of None \<Rightarrow> Inl NullDeref
        | Some t \<Rightarrow> Inr (q\<lparr>q_store := st(q_tail q \<mapsto> t\<lparr>qn_next := node\<rparr>), q_tail := node\<rparr>))"

definition queue_dequeue :: "queue \<Rightarrow> (u64 \<times> queue) outcome" where
  "queue_dequeue q =
    (case q_store q (q_head q) of None \<Rightarrow> Inl NullDeref
     | Some hd_node \<Rightarrow>
        if qn_next hd_node = 0 then Inr (0, q)
        else
          (let nxt = qn_next hd_node;
               q1 = q\<lparr>q_head := nxt, q_store := queuenode_delete (q_head q) (q_store q)\<rparr>
           in case q_store q1 nxt of None \<Rightarrow> Inl NullDeref | Some n \<Rightarrow> Inr (qn_value n, q1)))"

text \<open>
  The entry points hold the lock of the queue during the call; the lock is not recursive, so a holder waits for ever.
  The field is a \<^verbatim>\<open>pthread_rwlock_t\<close> and is locked as a \<^verbatim>\<open>pthread_mutex_t\<close>; the model takes it for the latter.
\<close>

definition doEnqueue :: "queue_malloc \<Rightarrow> u64 \<Rightarrow> queue \<Rightarrow> queue outcome" where
  "doEnqueue malloc val q =
    (if q_locked q then Inl Diverges
     else and_then (queue_enqueue malloc val (q\<lparr>q_locked := True\<rparr>)) (\<lambda>q. Inr (q\<lparr>q_locked := False\<rparr>)))"

definition doDequeue :: "queue \<Rightarrow> (u64 \<times> queue) outcome" where
  "doDequeue q =
    (if q_locked q then Inl Diverges
     else and_then (queue_dequeue (q\<lparr>q_locked := True\<rparr>)) (\<lambda>(v, q). Inr (v, q\<lparr>q_locked := False\<rparr>)))"

definition queueCreate :: "queue_malloc \<Rightarrow> bool \<Rightarrow> queue_store \<Rightarrow> queue outcome" where
  "queueCreate malloc got st = queue_new malloc got st"

text \<open>The body of \<^verbatim>\<open>queue_delete\<close> is commented out.\<close>

definition queue_delete :: "queue \<Rightarrow> queue" where
  "queue_delete q = q"

definition queueDestroy :: "queue \<Rightarrow> queue" where
  "queueDestroy q = queue_delete q"

section \<open>First in, first out\<close>

text \<open>A client's sequence of operations: what the dequeues answer and the queue at the end, and the same on a list.\<close>

datatype queue_op = Enq u64 | Deq

fun run_ops :: "(u64 \<Rightarrow> 'q \<Rightarrow> 'q outcome) \<Rightarrow> ('q \<Rightarrow> (u64 \<times> 'q) outcome) \<Rightarrow> queue_op list \<Rightarrow> 'q \<Rightarrow> (u64 list \<times> 'q) outcome" where
  "run_ops enq deq [] q = Inr ([], q)"
| "run_ops enq deq (Enq v # ops) q = and_then (enq v q) (run_ops enq deq ops)"
| "run_ops enq deq (Deq # ops) q =
    and_then (deq q) (\<lambda>(x, q'). and_then (run_ops enq deq ops q') (\<lambda>(ys, q''). Inr (x # ys, q'')))"

fun spec_ops :: "queue_op list \<Rightarrow> u64 list \<Rightarrow> u64 list \<times> u64 list" where
  "spec_ops [] xs = ([], xs)"
| "spec_ops (Enq v # ops) xs = spec_ops ops (xs @ [v])"
| "spec_ops (Deq # ops) [] = (let (ys, zs) = spec_ops ops [] in (0 # ys, zs))"
| "spec_ops (Deq # ops) (x # xs) = (let (ys, zs) = spec_ops ops xs in (x # ys, zs))"

text \<open>
  The contract of a queue: \<open>rep\<close> relates its states to the lists they stand for. Enqueueing appends;
  dequeueing takes the first element and answers 0 for an empty queue.
\<close>

locale fifo =
  fixes rep :: "'q \<Rightarrow> u64 list \<Rightarrow> bool"
    and enq :: "u64 \<Rightarrow> 'q \<Rightarrow> 'q outcome"
    and deq :: "'q \<Rightarrow> (u64 \<times> 'q) outcome"
  assumes enq_rep: "rep q xs \<Longrightarrow> \<exists>q'. enq v q = Inr q' \<and> rep q' (xs @ [v])"
    and deq_nil: "rep q [] \<Longrightarrow> deq q = Inr (0, q)"
    and deq_cons: "rep q (x # xs) \<Longrightarrow> \<exists>q'. deq q = Inr (x, q') \<and> rep q' xs"
begin

lemma run_refines:
  "rep q xs \<Longrightarrow> \<exists>q'. run_ops enq deq ops q = Inr (fst (spec_ops ops xs), q') \<and> rep q' (snd (spec_ops ops xs))"
proof (induction ops xs arbitrary: q rule: spec_ops.induct)
  case (1 xs)
  then show ?case by simp
next
  case (2 v ops xs)
  then show ?case using enq_rep [of q xs v] by fastforce
next
  case (3 ops)
  then show ?case using deq_nil [of q] by (fastforce split: prod.splits)
next
  case (4 ops x xs)
  then show ?case using deq_cons [of q x xs] by (fastforce split: prod.splits)
qed

end

section \<open>The linked list stands for a list\<close>

definition nextp :: "queue_store \<Rightarrow> addr \<Rightarrow> addr" where
  "nextp st a = (case st a of None \<Rightarrow> 0 | Some n \<Rightarrow> qn_next n)"

definition vals :: "queue_store \<Rightarrow> addr list \<Rightarrow> u64 list" where
  "vals st as = map (\<lambda>a. case st a of None \<Rightarrow> 0 | Some n \<Rightarrow> qn_value n) as"

text \<open>The sentinel is the head; the nodes after it carry the values, and the tail is the last of them all.\<close>

definition linked :: "queue \<Rightarrow> addr list \<Rightarrow> bool" where
  "linked q as \<longleftrightarrow>
    (let ns = q_head q # as
     in chain (nextp (q_store q)) (q_head q) ns 0 \<and> distinct ns \<and> 0 \<notin> set ns \<and> set ns \<subseteq> dom (q_store q) \<and>
        q_tail q = last ns \<and> finite (dom (q_store q)) \<and> \<not> q_locked q)"

definition queue_rep :: "queue \<Rightarrow> u64 list \<Rightarrow> bool" where
  "queue_rep q xs \<longleftrightarrow> (\<exists>as. linked q as \<and> xs = vals (q_store q) as)"

text \<open>What the queue needs of the allocator: a fresh block other than null, as long as the store is finite.\<close>

definition malloc_ok :: "queue_malloc \<Rightarrow> bool" where
  "malloc_ok malloc \<longleftrightarrow> (\<forall>st. finite (dom st) \<longrightarrow> (\<exists>a. malloc st = Some a \<and> a \<noteq> 0 \<and> a \<notin> dom st))"

definition malloc_above :: queue_malloc where
  "malloc_above st = Some (Suc (Max (insert 0 (dom st))))"

lemma malloc_above_ok: "malloc_ok malloc_above"
  by (simp add: malloc_ok_def malloc_above_def Suc_Max_fresh)

lemma vals_upd: "a \<notin> set as \<Longrightarrow> vals (st(a := x)) as = vals st as"
  by (auto simp: vals_def)

lemma chain_nextp_upd: "a \<notin> set as \<Longrightarrow> chain (nextp (st(a := x))) p as q = chain (nextp st) p as q"
  by (rule chain_cong) (auto simp: nextp_def)

lemma queuenode_new_ok:
  assumes "malloc_ok malloc" "finite (dom st)"
  obtains a where "queuenode_new malloc v st = (a, st(a \<mapsto> \<lparr>qn_value = v, qn_next = 0\<rparr>))" "a \<noteq> 0" "a \<notin> dom st"
  using assms by (force simp: malloc_ok_def queuenode_new_def)

lemma chain_extend:
  assumes ch: "chain (nextp st) p ns 0" and ne: "ns \<noteq> []" and d: "distinct ns" and t: "st (last ns) = Some t"
    and a: "a \<notin> set ns"
  shows "chain (nextp (st(a \<mapsto> \<lparr>qn_value = v, qn_next = 0\<rparr>, last ns \<mapsto> t\<lparr>qn_next := a\<rparr>))) p (ns @ [a]) 0"
proof -
  let ?st = "st(a \<mapsto> \<lparr>qn_value = v, qn_next = 0\<rparr>, last ns \<mapsto> t\<lparr>qn_next := a\<rparr>)"
  obtain ms l where ns: "ns = ms @ [l]" using ne by (cases ns rule: rev_cases) auto
  have la: "l \<noteq> a" "a \<notin> set ms" "l \<notin> set ms" using a d ns by auto
  have "chain (nextp st) p ms l" using ch ns by (auto simp: chain_append)
  then have "chain (nextp ?st) p ms l" using la ns by (simp add: chain_nextp_upd)
  then show ?thesis using la ns by (auto simp: chain_append nextp_def)
qed

lemma unlock:
  "\<not> q_locked q \<Longrightarrow> q\<lparr>q_locked := False, q_tail := a, q_store := st\<rparr> = q\<lparr>q_tail := a, q_store := st\<rparr>"
  by (cases q) simp

lemma doEnqueue_rep:
  assumes m: "malloc_ok malloc" and rep: "queue_rep q xs"
  shows "\<exists>q'. doEnqueue malloc v q = Inr q' \<and> queue_rep q' (xs @ [v])"
proof -
  obtain as where l: "linked q as" and xs: "xs = vals (q_store q) as" using rep by (auto simp: queue_rep_def)
  let ?ns = "q_head q # as"
  have fin: "finite (dom (q_store q))" using l by (simp add: linked_def Let_def)
  obtain a where new: "queuenode_new malloc v (q_store q) = (a, (q_store q)(a \<mapsto> \<lparr>qn_value = v, qn_next = 0\<rparr>))"
    and a: "a \<noteq> 0" "a \<notin> dom (q_store q)" by (rule queuenode_new_ok [OF m fin])
  have tail: "q_tail q = last ?ns" and tin: "last ?ns \<in> set ?ns" using l by (simp_all add: linked_def Let_def)
  then obtain t where t: "q_store q (last ?ns) = Some t" using l by (auto simp: linked_def Let_def)
  have an: "a \<notin> set ?ns" using l a by (auto simp: linked_def Let_def)
  define st where "st = (q_store q)(a \<mapsto> \<lparr>qn_value = v, qn_next = 0\<rparr>, last ?ns \<mapsto> t\<lparr>qn_next := a\<rparr>)"
  have ta: "last ?ns \<noteq> a" using an tin by metis
  have run: "doEnqueue malloc v q = Inr (q\<lparr>q_store := st, q_tail := a\<rparr>)"
  proof -
    have "((q_store q)(a \<mapsto> \<lparr>qn_value = v, qn_next = 0\<rparr>)) (q_tail q) = Some t" using tail t ta by simp
    then show ?thesis using l unlock [of q] by (simp add: doEnqueue_def queue_enqueue_def new tail st_def linked_def Let_def)
  qed
  have "chain (nextp st) (q_head q) (?ns @ [a]) 0"
    unfolding st_def by (rule chain_extend) (use l t an in \<open>simp_all add: linked_def Let_def\<close>)
  then have "linked (q\<lparr>q_store := st, q_tail := a\<rparr>) (as @ [a])"
    using l a an by (auto simp: linked_def Let_def st_def)
  moreover have "vals st (as @ [a]) = vals (q_store q) as @ [v]"
  proof -
    have "vals st as = vals (q_store q) as" using an t by (auto simp: vals_def st_def)
    then show ?thesis using ta by (simp add: vals_def st_def)
  qed
  ultimately show ?thesis using run xs by (auto simp: queue_rep_def)
qed

lemma doDequeue_empty: "queue_rep q [] \<Longrightarrow> doDequeue q = Inr (0, q)"
  by (cases q) (auto simp: queue_rep_def linked_def vals_def Let_def doDequeue_def queue_dequeue_def nextp_def)

lemma doDequeue_rep:
  assumes "queue_rep q (x # xs)"
  shows "\<exists>q'. doDequeue q = Inr (x, q') \<and> queue_rep q' xs"
proof -
  obtain a as where l: "linked q (a # as)" and x: "x # xs = vals (q_store q) (a # as)"
    using assms by (auto simp: queue_rep_def vals_def)
  obtain h n where h: "q_store q (q_head q) = Some h" "qn_next h = a" "a \<noteq> 0" and n: "q_store q a = Some n"
    and ha: "q_head q \<noteq> a" using l by (auto simp: linked_def Let_def nextp_def)
  let ?q = "q\<lparr>q_head := a, q_store := (q_store q)(q_head q := None)\<rparr>"
  have run: "doDequeue q = Inr (x, ?q)"
    using l h n x ha by (cases q) (auto simp: linked_def vals_def Let_def doDequeue_def queue_dequeue_def queuenode_delete_def)
  have "linked ?q as" using l ha by (auto simp: linked_def Let_def chain_nextp_upd nextp_def)
  moreover have "vals (q_store ?q) as = xs" using x l by (auto simp: vals_def linked_def Let_def)
  ultimately show ?thesis using run by (auto simp: queue_rep_def)
qed

lemma queueCreate_rep:
  assumes "malloc_ok malloc" "finite (dom st)"
  shows "\<exists>q. queueCreate malloc True st = Inr q \<and> queue_rep q []"
proof -
  obtain a where "queuenode_new malloc 0 st = (a, st(a \<mapsto> \<lparr>qn_value = 0, qn_next = 0\<rparr>))" "a \<noteq> 0"
    using queuenode_new_ok [OF assms] by metis
  then show ?thesis
    using assms by (auto simp: queueCreate_def queue_new_def queue_rep_def linked_def vals_def nextp_def intro!: exI [of _ "[]"])
qed

lemma queue_fifo: "malloc_ok malloc \<Longrightarrow> fifo queue_rep (doEnqueue malloc) doDequeue"
  by unfold_locales (use doEnqueue_rep doDequeue_empty doDequeue_rep in blast)+

locale queue_env =
  fixes malloc :: queue_malloc
  assumes malloc: "malloc_ok malloc"

sublocale queue_env \<subseteq> fifo queue_rep "doEnqueue malloc" doDequeue
  by (rule queue_fifo [OF malloc])

interpretation above: queue_env malloc_above
  by unfold_locales (rule malloc_above_ok)

text \<open>C17: Over any allocator that returns fresh blocks, every sequence of enqueues and dequeues on a new queue succeeds,
  and the dequeues answer what they answer on a list: first in, first out, and 0 when the queue is empty.
\<close>

theorem queue_is_fifo:
  assumes "malloc_ok malloc" "finite (dom st)"
  shows "\<exists>q q'. queueCreate malloc True st = Inr q \<and>
    run_ops (doEnqueue malloc) doDequeue ops q = Inr (fst (spec_ops ops []), q') \<and> queue_rep q' (snd (spec_ops ops []))"
proof -
  obtain q where q: "queueCreate malloc True st = Inr q" "queue_rep q []" using queueCreate_rep [OF assms] by auto
  from fifo.run_refines [OF queue_fifo [OF assms(1)] q(2), of ops] show ?thesis using q(1) by auto
qed

theorem queue_is_fifo_witness:
  "\<exists>q q'. queueCreate malloc_above True Map.empty = Inr q \<and>
    run_ops (doEnqueue malloc_above) doDequeue [Deq, Enq 7, Enq 8, Deq, Enq 9, Deq] q = Inr ([0, 7, 8], q') \<and> queue_rep q' [9]"
  using queue_is_fifo [of malloc_above Map.empty "[Deq, Enq 7, Enq 8, Deq, Enq 9, Deq]"] malloc_above_ok by simp

text \<open>C40: An enqueue whose allocation fails is not refused: it returns normally with the elements still in the queue
  and the tail null, and the next enqueue writes through the null tail.
\<close>

theorem enqueue_out_of_memory:
  assumes rep: "queue_rep q xs" and null: "q_store q 0 = None"
    and fails: "malloc (q_store q) = None" and again: "malloc_ok malloc'"
  shows "doEnqueue malloc v q = Inr (q\<lparr>q_tail := 0\<rparr>) \<and> doEnqueue malloc' w (q\<lparr>q_tail := 0\<rparr>) = Inl NullDeref"
proof -
  obtain as where l: "linked q as" using rep by (auto simp: queue_rep_def)
  let ?ns = "q_head q # as"
  have tail: "q_tail q = last ?ns" and u: "\<not> q_locked q" and fin: "finite (dom (q_store q))"
    using l by (auto simp: linked_def Let_def)
  have "last ?ns \<in> dom (q_store q)" using l last_in_set [of ?ns] by (simp only: linked_def Let_def) blast
  then obtain t where t: "q_store q (q_tail q) = Some t" using tail by auto
  have "chain (nextp (q_store q)) (q_head q) (butlast ?ns @ [last ?ns]) 0"
    using l append_butlast_last_id [of ?ns] by (simp only: linked_def Let_def) simp
  then have "nextp (q_store q) (q_tail q) = 0" using tail by (simp only: chain_append) auto
  then have "qn_next t = 0" using t by (simp add: nextp_def)
  then have "(q_store q)(q_tail q \<mapsto> t\<lparr>qn_next := 0\<rparr>) = q_store q" using t by (cases t) (auto simp: fun_eq_iff)
  moreover have "queuenode_new malloc v (q_store q) = (0, q_store q)" by (simp add: queuenode_new_def fails)
  moreover have "q\<lparr>q_locked := False, q_tail := 0, q_store := q_store q\<rparr> = q\<lparr>q_tail := 0\<rparr>" using u by (cases q) simp
  ultimately have one: "doEnqueue malloc v q = Inr (q\<lparr>q_tail := 0\<rparr>)"
    using t u by (simp add: doEnqueue_def queue_enqueue_def)
  obtain a where "queuenode_new malloc' w (q_store q) = (a, (q_store q)(a \<mapsto> \<lparr>qn_value = w, qn_next = 0\<rparr>))" "a \<noteq> 0"
    using queuenode_new_ok [OF again fin] by metis
  then show ?thesis
    using one u null by (simp add: doEnqueue_def queue_enqueue_def)
qed

definition queue_one :: queue where
  "queue_one = \<lparr>q_locked = False, q_head = 1, q_tail = 2,
    q_store = [1 \<mapsto> \<lparr>qn_value = 0, qn_next = 2\<rparr>, 2 \<mapsto> \<lparr>qn_value = 5, qn_next = 0\<rparr>]\<rparr>"

lemma queue_one_rep: "queue_rep queue_one [5]"
  unfolding queue_rep_def
  by (rule exI [of _ "[2]"]) (simp add: queue_one_def linked_def nextp_def vals_def)

theorem enqueue_out_of_memory_witness:
  "doEnqueue (\<lambda>st. None) 6 queue_one = Inr (queue_one\<lparr>q_tail := 0\<rparr>) \<and>
    doEnqueue malloc_above 7 (queue_one\<lparr>q_tail := 0\<rparr>) = Inl NullDeref"
  using enqueue_out_of_memory [where malloc = "\<lambda>st. None" and v = 6 and w = 7, OF queue_one_rep _ _ malloc_above_ok] by (simp add: queue_one_def)

end
