(* ===== verification/MapContract.thy ===== *)
theory MapContract
  imports Prelude
begin

text \<open>
  What the benchmark maps promise their clients: an insertion binds a key that has no value and leaves one that has,
  and a lookup answers what is bound. The lemmas on loading a list of pairs are proved here once.
\<close>

text \<open>A C string is the bytes before the first 0.\<close>

definition strlen :: "byte list \<Rightarrow> nat" where
  "strlen s = length (takeWhile (\<lambda>c. c \<noteq> 0) s)"

fun put_all :: "(u64 \<Rightarrow> 'v \<Rightarrow> 's \<Rightarrow> 's outcome) \<Rightarrow> (u64 \<times> 'v) list \<Rightarrow> 's \<Rightarrow> 's outcome" where
  "put_all put [] s = Inr s"
| "put_all put ((k, v) # kvs) s = and_then (put k v s) (put_all put kvs)"

text \<open>
  \<open>rep s m\<close>: the state \<open>s\<close> stands for the map \<open>m\<close>. \<open>may n\<close>: there is room for a key beside \<open>n\<close> others. \<open>fits v\<close>: the
  value can be stored. \<open>got s k r\<close>: a lookup of \<open>k\<close> in \<open>s\<close> answers \<open>r\<close>.
\<close>

locale write_once =
  fixes rep :: "'s \<Rightarrow> (u64 \<rightharpoonup> 'v) \<Rightarrow> bool"
    and may :: "nat \<Rightarrow> bool"
    and fits :: "'v \<Rightarrow> bool"
    and put :: "u64 \<Rightarrow> 'v \<Rightarrow> 's \<Rightarrow> 's outcome"
    and got :: "'s \<Rightarrow> u64 \<Rightarrow> 'v option \<Rightarrow> bool"
  assumes finite_rep: "rep s m \<Longrightarrow> finite (dom m)"
    and may_less: "may n \<Longrightarrow> j \<le> n \<Longrightarrow> may j"
    and put_new: "rep s m \<Longrightarrow> k \<notin> dom m \<Longrightarrow> may (card (dom m)) \<Longrightarrow> fits v \<Longrightarrow> \<exists>s'. put k v s = Inr s' \<and> rep s' (m(k \<mapsto> v))"
    and put_old: "rep s m \<Longrightarrow> k \<in> dom m \<Longrightarrow> fits v \<Longrightarrow> \<exists>s'. put k v s = Inr s' \<and> rep s' m"
    and get_rep: "rep s m \<Longrightarrow> got s k (m k)"
begin

lemma put_all_rep:
  assumes "rep s m" "\<And>k v. (k, v) \<in> set kvs \<Longrightarrow> fits v" "kvs \<noteq> [] \<Longrightarrow> may (card (dom m) + length kvs - 1)"
  shows "\<exists>s'. put_all put kvs s = Inr s' \<and> rep s' (map_of kvs ++ m)"
  using assms
proof (induction kvs arbitrary: s m)
  case Nil
  then show ?case by simp
next
  case (Cons kv kvs)
  obtain k v where kv: "kv = (k, v)" by (cases kv)
  have v: "fits v" using Cons.prems(2) kv by auto
  have may: "may (card (dom m) + length kvs)" using Cons.prems(3) by simp
  show ?case
  proof (cases "k \<in> dom m")
    case True
    obtain s1 where s1: "put k v s = Inr s1" "rep s1 m" using put_old [OF Cons.prems(1) True v] by auto
    have "\<exists>s'. put_all put kvs s1 = Inr s' \<and> rep s' (map_of kvs ++ m)"
      using Cons.IH [OF s1(2)] Cons.prems(2) may_less [OF may] by auto
    moreover have "map_of ((k, v) # kvs) ++ m = map_of kvs ++ m"
      using True by (auto simp: fun_eq_iff map_add_def split: option.split)
    ultimately show ?thesis using s1(1) by (simp only: kv put_all.simps and_then_simps)
  next
    case False
    obtain s1 where s1: "put k v s = Inr s1" "rep s1 (m(k \<mapsto> v))"
      using put_new [OF Cons.prems(1) False may_less [OF may] v] by auto
    have c: "card (dom (m(k \<mapsto> v))) = Suc (card (dom m))" using finite_rep [OF Cons.prems(1)] False by simp
    have "\<exists>s'. put_all put kvs s1 = Inr s' \<and> rep s' (map_of kvs ++ m(k \<mapsto> v))"
    proof (rule Cons.IH [OF s1(2)])
      show "may (card (dom (m(k \<mapsto> v))) + length kvs - 1)" unfolding c using may by simp
    qed (use Cons.prems(2) in auto)
    moreover have "map_of ((k, v) # kvs) ++ m = map_of kvs ++ m(k \<mapsto> v)"
      using False by (auto simp: fun_eq_iff map_add_def domIff split: option.split)
    ultimately show ?thesis using s1(1) by (simp only: kv put_all.simps and_then_simps)
  qed
qed

text \<open>Loading an empty map: of the values given for a key the first is found, and no other key is.\<close>

lemma put_all_got:
  assumes "rep s Map.empty" "\<And>k v. (k, v) \<in> set kvs \<Longrightarrow> fits v" "kvs \<noteq> [] \<Longrightarrow> may (length kvs - 1)"
  shows "\<exists>s'. put_all put kvs s = Inr s' \<and> rep s' (map_of kvs) \<and> (\<forall>k. got s' k (map_of kvs k))"
proof -
  have "\<exists>s'. put_all put kvs s = Inr s' \<and> rep s' (map_of kvs ++ Map.empty)"
    by (rule put_all_rep [OF assms(1)]) (use assms in auto)
  then show ?thesis using get_rep by auto
qed

end

end
