(* ===== verification/ClobberHashmap.thy ===== *)
theory ClobberHashmap
  imports MapContract
begin

text \<open>
  The hash map of the Clobber-NVM benchmarks (\<^verbatim>\<open>clobber-nvm/apps/hashmap/hashmap_v.c\<close>): chained buckets, the
  entries in one array and the values in another, each filled from the front. Entries live in a store from
  addresses to entries whose domain is the allocated array; an access outside an allocated object is \<open>BadCall\<close>.
\<close>

section \<open>The data\<close>

type_synonym u32 = "32 word"

definition HASH_FUNC_COEFF_P :: u64 where "HASH_FUNC_COEFF_P = 32212254719"
definition INIT_BUCKETS_NUM :: u64 where "INIT_BUCKETS_NUM = 1024 * 4"
definition VALUE_SIZE :: nat where "VALUE_SIZE = 256"
definition VALUE_COUNT :: nat where "VALUE_COUNT = 600 * 8"
definition sizeof_entry :: nat where "sizeof_entry = 24"

record entry =
  e_key :: u64
  e_value :: addr
  e_next :: addr

type_synonym entry_store = "addr \<rightharpoonup> entry"

text \<open>The array of a \<^verbatim>\<open>struct buckets\<close> is as long as its block has room for, which \<open>nbuckets\<close> need not tell.\<close>

record buckets =
  nbuckets :: u64
  bucket :: "addr list"

record hashmap_tx =
  hm_seed :: u32
  hash_fun_a :: u32
  hash_fun_b :: u32
  hash_fun_p :: u64
  hm_count :: u64
  hm_buckets :: buckets
  valueaddr :: addr
  entryaddr :: addr
  hm_entries :: entry_store
  value_room :: nat
  hm_bytes :: memory

section \<open>Creation\<close>

text \<open>\<open>rand n\<close> is the answer of the \<open>n\<close>th call of \<^verbatim>\<open>rand\<close>. The loop draws until an answer is not 0.\<close>

partial_function (option) draw_nonzero :: "(nat \<Rightarrow> u32) \<Rightarrow> nat \<Rightarrow> (u32 \<times> nat) option" where
  "draw_nonzero rand n = (if rand n = 0 then draw_nonzero rand (n + 1) else Some (rand n, n + 1))"

text \<open>
  A zeroed block of \<^verbatim>\<open>sizeof(struct buckets) + len * sizeof(struct entry*)\<close> bytes, a size computed in 64 bits.
  Its first word receives \<open>len\<close>.
\<close>

definition buckets_alloc :: "bool \<Rightarrow> u64 \<Rightarrow> buckets outcome" where
  "buckets_alloc got len =
    (let sz = 8 + len * 8
     in if \<not> got then Inl NullDeref
        else if sz < 8 then Inl BadCall
        else Inr \<lparr>nbuckets = len, bucket = replicate (unat sz div 8 - 1) 0\<rparr>)"

definition entry_slots :: "addr \<Rightarrow> addr set" where
  "entry_slots a = (\<lambda>i. a + i * sizeof_entry) ` {..<VALUE_COUNT}"

text \<open>
  The arguments are the answers of \<^verbatim>\<open>rand\<close>, whether the bucket array was allocated, and the blocks of the entries
  and the values with what they held before; \<open>None\<close> is a null pointer, which the code stores unseen.
\<close>

definition create_hashmap ::
  "(nat \<Rightarrow> u32) \<Rightarrow> bool \<Rightarrow> (addr \<times> (addr \<Rightarrow> entry)) option \<Rightarrow> (addr \<times> memory) option \<Rightarrow> u32 \<Rightarrow> hashmap_tx outcome" where
  "create_hashmap rand got es vs seed =
    (case draw_nonzero rand 0 of
       None \<Rightarrow> Inl Diverges
     | Some (a, n) \<Rightarrow>
         and_then (buckets_alloc got INIT_BUCKETS_NUM) (\<lambda>bk.
           Inr \<lparr>hm_seed = seed, hash_fun_a = a, hash_fun_b = rand n, hash_fun_p = HASH_FUNC_COEFF_P, hm_count = 0,
                 hm_buckets = bk,
                 valueaddr = (case vs of None \<Rightarrow> 0 | Some (v, _) \<Rightarrow> v),
                 entryaddr = (case es of None \<Rightarrow> 0 | Some (e, _) \<Rightarrow> e),
                 hm_entries = (case es of None \<Rightarrow> Map.empty
                               | Some (e, old) \<Rightarrow> (\<lambda>x. if x \<in> entry_slots e then Some (old x) else None)),
                 value_room = (case vs of None \<Rightarrow> 0 | Some _ \<Rightarrow> VALUE_COUNT * VALUE_SIZE),
                 hm_bytes = (case vs of None \<Rightarrow> (\<lambda>_. 0) | Some (_, old) \<Rightarrow> old)\<rparr>))"

definition hm_v_create ::
  "(nat \<Rightarrow> u32) \<Rightarrow> bool \<Rightarrow> bool \<Rightarrow> (addr \<times> (addr \<Rightarrow> entry)) option \<Rightarrow> (addr \<times> memory) option \<Rightarrow> u32 option
   \<Rightarrow> hashmap_tx outcome" where
  "hm_v_create rand got_map got es vs args =
    (if got_map then create_hashmap rand got es vs (case args of None \<Rightarrow> 0 | Some seed \<Rightarrow> seed) else Inl NullDeref)"

text \<open>The answer and the seed handed to \<^verbatim>\<open>srand\<close>.\<close>

definition hm_v_init :: "hashmap_tx \<Rightarrow> int \<times> u32" where
  "hm_v_init hm = (0, hm_seed hm)"

section \<open>Hashing and walking a bucket\<close>

definition hm_hash :: "hashmap_tx \<Rightarrow> buckets \<Rightarrow> u64 \<Rightarrow> u64 outcome" where
  "hm_hash hm bk val =
    (if hash_fun_p hm = 0 \<or> nbuckets bk = 0 then Inl BadCall
     else Inr (((ucast (hash_fun_a hm) * val + ucast (hash_fun_b hm)) mod hash_fun_p hm) mod nbuckets bk))"

definition bucket_at :: "buckets \<Rightarrow> nat \<Rightarrow> addr outcome" where
  "bucket_at bk i = (if i < length (bucket bk) then Inr (bucket bk ! i) else Inl BadCall)"

text \<open>
  The loop of insert, remove, get and lookup: it stops at the entry with the key or at the end, and remembers the
  entry before. The array has \<open>VALUE_COUNT\<close> entries, so a walk of more steps is in a cycle.
\<close>

fun bucket_walk :: "entry_store \<Rightarrow> u64 \<Rightarrow> nat \<Rightarrow> addr \<Rightarrow> addr \<Rightarrow> (addr \<times> addr) outcome" where
  "bucket_walk es key 0 prev var = Inl OutOfFuel"
| "bucket_walk es key (Suc n) prev var =
    (if var = 0 then Inr (prev, 0)
     else case es var of None \<Rightarrow> Inl BadCall
          | Some e \<Rightarrow> if e_key e = key then Inr (prev, var) else bucket_walk es key n var (e_next e))"

definition walk_fuel :: nat where "walk_fuel = Suc VALUE_COUNT"

text \<open>Where the walk for a key ends: the bucket, its first entry, the entry before and the entry found.\<close>

definition hm_locate :: "hashmap_tx \<Rightarrow> u64 \<Rightarrow> (nat \<times> addr \<times> addr \<times> addr) outcome" where
  "hm_locate hm key =
    and_then (hm_hash hm (hm_buckets hm) key) (\<lambda>h.
    and_then (bucket_at (hm_buckets hm) (unat h)) (\<lambda>first.
    and_then (bucket_walk (hm_entries hm) key walk_fuel 0 first) (\<lambda>(prev, var). Inr (unat h, first, prev, var))))"

section \<open>The operations\<close>

definition put_bytes :: "addr \<Rightarrow> byte list \<Rightarrow> memory \<Rightarrow> memory" where
  "put_bytes p bs m = (\<lambda>x. if p \<le> x \<and> x < p + length bs then bs ! (x - p) else m x)"

text \<open>\<open>ve\<close> is the scratch entry of the caller, which the code fills and copies into the array.\<close>

definition hm_v_insert :: "hashmap_tx \<Rightarrow> entry \<Rightarrow> u64 \<Rightarrow> byte list \<Rightarrow> (int \<times> hashmap_tx \<times> entry) outcome" where
  "hm_v_insert hm ve key val =
    and_then (hm_locate hm key) (\<lambda>(h, first, prev, var).
      if var \<noteq> 0 then Inr (1, hm, ve)
      else
        (let off = unat (hm_count hm * of_nat VALUE_SIZE);
             e = entryaddr hm + unat (hm_count hm * of_nat sizeof_entry);
             ve = \<lparr>e_key = key, e_value = valueaddr hm + off, e_next = first\<rparr>
         in if hm_entries hm e = None \<or> value_room hm < off + strlen val then Inl BadCall
            else Inr (0, hm\<lparr>hm_entries := (hm_entries hm)(e \<mapsto> ve),
                            hm_bytes := put_bytes (e_value ve) (take (strlen val) val) (hm_bytes hm),
                            hm_buckets := (hm_buckets hm)\<lparr>bucket := (bucket (hm_buckets hm))[h := e]\<rparr>,
                            hm_count := hm_count hm + 1\<rparr>, ve)))"

text \<open>
  \<^verbatim>\<open>free\<close> of an entry: only the first entry is the start of an allocated block, and that block is the whole array.
\<close>

definition free_entry :: "addr \<Rightarrow> hashmap_tx \<Rightarrow> hashmap_tx outcome" where
  "free_entry var hm = (if var = entryaddr hm then Inr (hm\<lparr>hm_entries := Map.empty\<rparr>) else Inl BadCall)"

definition hm_v_remove :: "hashmap_tx \<Rightarrow> u64 \<Rightarrow> (addr \<times> hashmap_tx) outcome" where
  "hm_v_remove hm key =
    and_then (hm_locate hm key) (\<lambda>(h, first, prev, var).
      if var = 0 then Inr (0, hm)
      else case hm_entries hm var of
        None \<Rightarrow> Inl BadCall
      | Some e \<Rightarrow>
          and_then
            (if prev = 0
             then Inr (hm\<lparr>hm_buckets := (hm_buckets hm)\<lparr>bucket := (bucket (hm_buckets hm))[h := e_next e]\<rparr>\<rparr>)
             else case hm_entries hm prev of
                 None \<Rightarrow> Inl BadCall
               | Some pe \<Rightarrow> Inr (hm\<lparr>hm_entries := (hm_entries hm)(prev \<mapsto> pe\<lparr>e_next := e_next e\<rparr>)\<rparr>))
            (\<lambda>hm1. and_then (free_entry var (hm1\<lparr>hm_count := hm_count hm1 - 1\<rparr>)) (\<lambda>hm2. Inr (e_value e, hm2))))"

definition hm_v_get :: "hashmap_tx \<Rightarrow> u64 \<Rightarrow> addr outcome" where
  "hm_v_get hm key =
    and_then (hm_locate hm key) (\<lambda>(h, first, prev, var).
      if var = 0 then Inr 0
      else case hm_entries hm var of None \<Rightarrow> Inl BadCall | Some e \<Rightarrow> Inr (e_value e))"

definition hm_v_lookup :: "hashmap_tx \<Rightarrow> u64 \<Rightarrow> int outcome" where
  "hm_v_lookup hm key = and_then (hm_locate hm key) (\<lambda>(h, first, prev, var). Inr (if var = 0 then 0 else 1))"

definition hm_v_count :: "hashmap_tx \<Rightarrow> u64" where
  "hm_v_count hm = hm_count hm"

definition hm_v_check :: "hashmap_tx \<Rightarrow> int" where
  "hm_v_check hm = 1"

text \<open>The inner and the outer loop of \<^verbatim>\<open>hm_v_foreach\<close>; a callback that answers other than 0 ends the inner loop only.\<close>

fun foreach_bucket ::
  "entry_store \<Rightarrow> (u64 \<Rightarrow> addr \<Rightarrow> 'a \<Rightarrow> int \<times> 'a) \<Rightarrow> nat \<Rightarrow> addr \<Rightarrow> int \<times> 'a \<Rightarrow> (int \<times> 'a) outcome" where
  "foreach_bucket es cb 0 var (ret, arg) = Inl OutOfFuel"
| "foreach_bucket es cb (Suc n) var (ret, arg) =
    (if var = 0 then Inr (ret, arg)
     else case es var of None \<Rightarrow> Inl BadCall
          | Some e \<Rightarrow>
              (let (ret, arg) = cb (e_key e) (e_value e) arg
               in if ret \<noteq> 0 then Inr (ret, arg) else foreach_bucket es cb n (e_next e) (ret, arg)))"

fun foreach_from ::
  "hashmap_tx \<Rightarrow> (u64 \<Rightarrow> addr \<Rightarrow> 'a \<Rightarrow> int \<times> 'a) \<Rightarrow> nat list \<Rightarrow> int \<times> 'a \<Rightarrow> (int \<times> 'a) outcome" where
  "foreach_from hm cb [] r = Inr r"
| "foreach_from hm cb (i # is) r =
    and_then (bucket_at (hm_buckets hm) i) (\<lambda>var.
    and_then (foreach_bucket (hm_entries hm) cb walk_fuel var r) (foreach_from hm cb is))"

definition hm_v_foreach :: "hashmap_tx \<Rightarrow> (u64 \<Rightarrow> addr \<Rightarrow> 'a \<Rightarrow> int \<times> 'a) \<Rightarrow> 'a \<Rightarrow> (int \<times> 'a) outcome" where
  "hm_v_foreach hm cb arg = foreach_from hm cb [0..<unat (nbuckets (hm_buckets hm))] (0, arg)"

text \<open>
  Rebuilding: the entries of each old bucket, from its head on, are pushed onto the new bucket of their key. The old
  array is freed at the end.
\<close>

fun rebuild_bucket :: "hashmap_tx \<Rightarrow> nat \<Rightarrow> addr \<Rightarrow> buckets \<times> entry_store \<Rightarrow> (buckets \<times> entry_store) outcome" where
  "rebuild_bucket hm 0 en (new, es) = Inl OutOfFuel"
| "rebuild_bucket hm (Suc n) en (new, es) =
    (if en = 0 then Inr (new, es)
     else case es en of None \<Rightarrow> Inl BadCall
          | Some e \<Rightarrow>
              and_then (hm_hash hm new (e_key e)) (\<lambda>h.
              and_then (bucket_at new (unat h)) (\<lambda>first.
                rebuild_bucket hm n (e_next e)
                  (new\<lparr>bucket := (bucket new)[unat h := en]\<rparr>, es(en \<mapsto> e\<lparr>e_next := first\<rparr>)))))"

fun rebuild_from :: "hashmap_tx \<Rightarrow> nat list \<Rightarrow> buckets \<times> entry_store \<Rightarrow> (buckets \<times> entry_store) outcome" where
  "rebuild_from hm [] r = Inr r"
| "rebuild_from hm (i # is) r =
    and_then (bucket_at (hm_buckets hm) i) (\<lambda>en. and_then (rebuild_bucket hm walk_fuel en r) (rebuild_from hm is))"

definition hm_v_rebuild :: "bool \<Rightarrow> hashmap_tx \<Rightarrow> u64 \<Rightarrow> hashmap_tx outcome" where
  "hm_v_rebuild got hm new_len =
    (let new_len = (if new_len = 0 then nbuckets (hm_buckets hm) else new_len)
     in and_then (buckets_alloc got new_len) (\<lambda>new.
        and_then (rebuild_from hm [0..<unat (nbuckets (hm_buckets hm))] (new, hm_entries hm)) (\<lambda>(new, es).
        Inr (hm\<lparr>hm_buckets := new, hm_entries := es\<rparr>))))"

text \<open>What \<^verbatim>\<open>hm_v_debug\<close> prints: the parameters, the counts, and the number, the keys and the length of each bucket in use.\<close>

fun debug_bucket :: "entry_store \<Rightarrow> nat \<Rightarrow> addr \<Rightarrow> u64 list outcome" where
  "debug_bucket es 0 var = Inl OutOfFuel"
| "debug_bucket es (Suc n) var =
    (if var = 0 then Inr []
     else case es var of None \<Rightarrow> Inl BadCall
          | Some e \<Rightarrow> and_then (debug_bucket es n (e_next e)) (\<lambda>ks. Inr (e_key e # ks)))"

fun debug_from :: "hashmap_tx \<Rightarrow> nat list \<Rightarrow> (nat \<times> u64 list \<times> nat) list outcome" where
  "debug_from hm [] = Inr []"
| "debug_from hm (i # is) =
    and_then (bucket_at (hm_buckets hm) i) (\<lambda>var.
      if var = 0 then debug_from hm is
      else and_then (debug_bucket (hm_entries hm) walk_fuel var) (\<lambda>ks.
           and_then (debug_from hm is) (\<lambda>ls. Inr ((i, ks, length ks) # ls))))"

record hm_dump =
  d_params :: "u32 \<times> u32 \<times> u64"
  d_counts :: "u64 \<times> u64"
  d_buckets :: "(nat \<times> u64 list \<times> nat) list"

definition hm_v_debug :: "hashmap_tx \<Rightarrow> hm_dump outcome" where
  "hm_v_debug hm =
    and_then (debug_from hm [0..<unat (nbuckets (hm_buckets hm))]) (\<lambda>ls.
      Inr \<lparr>d_params = (hash_fun_a hm, hash_fun_b hm, hash_fun_p hm),
            d_counts = (hm_count hm, nbuckets (hm_buckets hm)), d_buckets = ls\<rparr>)"

definition EINVAL :: int where "EINVAL = 22"

datatype hashmap_cmd = HASHMAP_CMD_REBUILD | HASHMAP_CMD_DEBUG

definition cmd_of :: "u32 \<Rightarrow> hashmap_cmd option" where
  "cmd_of c = (if c = 0 then Some HASHMAP_CMD_REBUILD else if c = 1 then Some HASHMAP_CMD_DEBUG else None)"

definition hm_v_cmd :: "bool \<Rightarrow> hashmap_tx \<Rightarrow> u32 \<Rightarrow> u64 \<Rightarrow> (int \<times> hashmap_tx \<times> hm_dump option) outcome" where
  "hm_v_cmd got hm cmd arg =
    (case cmd_of cmd of
       Some HASHMAP_CMD_REBUILD \<Rightarrow> and_then (hm_v_rebuild got hm arg) (\<lambda>hm. Inr (0, hm, None))
     | Some HASHMAP_CMD_DEBUG \<Rightarrow>
         if arg = 0 then Inr (- EINVAL, hm, None) else and_then (hm_v_debug hm) (\<lambda>d. Inr (0, hm, Some d))
     | None \<Rightarrow> Inr (- EINVAL, hm, None))"

section \<open>What a table stands for\<close>

definition enext :: "entry_store \<Rightarrow> addr \<Rightarrow> addr" where
  "enext es a = (case es a of None \<Rightarrow> 0 | Some e \<Rightarrow> e_next e)"

definition ekey :: "entry_store \<Rightarrow> addr \<Rightarrow> u64" where
  "ekey es a = (case es a of None \<Rightarrow> 0 | Some e \<Rightarrow> e_key e)"

definition evalue :: "entry_store \<Rightarrow> addr \<Rightarrow> addr" where
  "evalue es a = (case es a of None \<Rightarrow> 0 | Some e \<Rightarrow> e_value e)"

definition members :: "addr list list \<Rightarrow> addr set" where
  "members ls = \<Union> (set ` set ls)"

definition hidx :: "hashmap_tx \<Rightarrow> buckets \<Rightarrow> u64 \<Rightarrow> nat" where
  "hidx hm bk key =
    unat (((ucast (hash_fun_a hm) * key + ucast (hash_fun_b hm)) mod hash_fun_p hm) mod nbuckets bk)"

text \<open>Bucket \<open>i\<close> of the array \<open>bs\<close> holds the entries \<open>ls ! i\<close>, each in the bucket its key hashes to.\<close>

definition placed :: "(u64 \<Rightarrow> nat) \<Rightarrow> addr list \<Rightarrow> entry_store \<Rightarrow> addr list list \<Rightarrow> bool" where
  "placed h bs es ls \<longleftrightarrow> length bs = length ls \<and>
    (\<forall>i<length ls. chain (enext es) (bs ! i) (ls ! i) 0 \<and> distinct (ls ! i) \<and>
      (\<forall>a\<in>set (ls ! i). h (ekey es a) = i \<and> a \<noteq> 0 \<and> a \<in> dom es))"

definition slot :: "hashmap_tx \<Rightarrow> nat \<Rightarrow> addr" where
  "slot hm i = entryaddr hm + i * sizeof_entry"

definition table_ok :: "hashmap_tx \<Rightarrow> addr list list \<Rightarrow> bool" where
  "table_ok hm ls \<longleftrightarrow> hash_fun_p hm \<noteq> 0 \<and> nbuckets (hm_buckets hm) \<noteq> 0 \<and>
    unat (nbuckets (hm_buckets hm)) < 2 ^ 61 - 1 \<and> length ls = unat (nbuckets (hm_buckets hm)) \<and>
    placed (hidx hm (hm_buckets hm)) (bucket (hm_buckets hm)) (hm_entries hm) ls \<and>
    inj_on (ekey (hm_entries hm)) (members ls)"

definition arrays_ok :: "hashmap_tx \<Rightarrow> bool" where
  "arrays_ok hm \<longleftrightarrow> entryaddr hm \<noteq> 0 \<and> dom (hm_entries hm) = entry_slots (entryaddr hm) \<and>
    unat (hm_count hm) \<le> VALUE_COUNT \<and> valueaddr hm \<noteq> 0 \<and> value_room hm = VALUE_COUNT * VALUE_SIZE \<and>
    (\<forall>i<unat (hm_count hm). evalue (hm_entries hm) (slot hm i) = valueaddr hm + i * VALUE_SIZE)"

definition hm_ok :: "hashmap_tx \<Rightarrow> addr list list \<Rightarrow> bool" where
  "hm_ok hm ls \<longleftrightarrow> table_ok hm ls \<and> arrays_ok hm \<and> members ls = slot hm ` {..<unat (hm_count hm)}"

text \<open>
  A value area of \<open>VALUE_SIZE\<close> bytes at \<open>p\<close>: the string, without a terminator, and behind it what the block of the values held
  when it was allocated, \<open>old\<close>.
\<close>

definition holds_bytes :: "memory \<Rightarrow> memory \<Rightarrow> addr \<Rightarrow> byte list \<Rightarrow> bool" where
  "holds_bytes old m p v \<longleftrightarrow> length v \<le> VALUE_SIZE \<and>
    (\<forall>j<VALUE_SIZE. m (p + j) = (if j < length v then v ! j else old (p + j)))"

text \<open>The map a table stands for: to each key the string in its value area. The areas that are not in use are as they were.\<close>

definition hm_rep :: "memory \<Rightarrow> hashmap_tx \<Rightarrow> (u64 \<rightharpoonup> byte list) \<Rightarrow> bool" where
  "hm_rep old hm m \<longleftrightarrow> (\<exists>ls. hm_ok hm ls \<and> dom m = ekey (hm_entries hm) ` members ls \<and>
    (\<forall>a\<in>members ls. \<forall>v. m (ekey (hm_entries hm) a) = Some v \<longrightarrow>
      holds_bytes old (hm_bytes hm) (evalue (hm_entries hm) a) v) \<and>
    (\<forall>x. valueaddr hm + unat (hm_count hm) * VALUE_SIZE \<le> x \<longrightarrow> hm_bytes hm x = old x))"

section \<open>Walking\<close>

lemma members_nth: "members ls = (\<Union>i<length ls. set (ls ! i))"
  by (simp add: members_def set_conv_nth [of ls]) blast

lemma slot_inj: "slot hm i = slot hm j \<longleftrightarrow> i = j"
  by (simp add: slot_def sizeof_entry_def)

lemma card_entry_slots: "card (entry_slots a) = VALUE_COUNT" "finite (entry_slots a)"
  by (simp_all add: entry_slots_def card_image inj_on_def sizeof_entry_def)

lemma chain_length_fuel:
  assumes "distinct as" "set as \<subseteq> dom es" "dom es = entry_slots a"
  shows "length as < walk_fuel"
  using card_mono [of "entry_slots a" "set as"] assms
  by (simp add: card_entry_slots distinct_card walk_fuel_def)

lemma bucket_walk_chain:
  assumes "chain (enext es) var as 0" "length as < n" "set as \<subseteq> dom es" "0 \<notin> set as"
  shows "\<exists>p. bucket_walk es key n prev var = Inr (p, case find (\<lambda>a. ekey es a = key) as of None \<Rightarrow> 0 | Some a \<Rightarrow> a) \<and>
    p \<in> insert prev (set as)"
  using assms
proof (induction as arbitrary: var prev n)
  case Nil
  then show ?case by (cases n) auto
next
  case (Cons a as)
  then obtain k where n: "n = Suc k" by (cases n) auto
  obtain e where e: "es a = Some e" using Cons.prems by auto
  show ?case
    using Cons.prems Cons.IH [of "e_next e" k a] e by (auto simp: n ekey_def enext_def)
qed

lemma hidx_less: "nbuckets bk \<noteq> 0 \<Longrightarrow> hidx hm bk key < unat (nbuckets bk)"
  by (simp add: hidx_def unat_mod unat_gt_0)

lemma hm_hash_eq:
  "hash_fun_p hm \<noteq> 0 \<Longrightarrow> nbuckets bk \<noteq> 0 \<Longrightarrow> \<exists>h. hm_hash hm bk key = Inr h \<and> unat h = hidx hm bk key"
  by (simp add: hm_hash_def hidx_def)

lemma placedD:
  assumes "placed h bs es ls" "i < length ls"
  shows "chain (enext es) (bs ! i) (ls ! i) 0" "distinct (ls ! i)" "set (ls ! i) \<subseteq> dom es" "0 \<notin> set (ls ! i)"
    "\<And>a. a \<in> set (ls ! i) \<Longrightarrow> h (ekey es a) = i" "length bs = length ls"
  using assms by (auto simp: placed_def)

lemma members_at_hash:
  assumes "placed h bs es ls" "a \<in> members ls"
  shows "a \<in> set (ls ! h (ekey es a))"
  using assms by (auto simp: members_nth dest: placedD(5))

lemma hm_locate_ok:
  fixes key :: u64
  assumes ok: "hm_ok hm ls"
  defines "h \<equiv> hidx hm (hm_buckets hm) key" and "es \<equiv> hm_entries hm"
  shows "\<exists>p v. hm_locate hm key = Inr (h, bucket (hm_buckets hm) ! h, p, v) \<and> p \<in> insert 0 (members ls) \<and>
    (if key \<in> ekey es ` members ls then v \<in> members ls \<and> ekey es v = key \<and> v \<noteq> 0 else v = 0)"
proof -
  let ?bk = "hm_buckets hm"
  have t: "hash_fun_p hm \<noteq> 0" "nbuckets ?bk \<noteq> 0" "length ls = unat (nbuckets ?bk)"
    and pl: "placed (hidx hm ?bk) (bucket ?bk) es ls"
    using ok by (auto simp: hm_ok_def table_ok_def es_def)
  have h: "h < length ls" using hidx_less [OF t(2)] t(3) by (simp add: h_def)
  obtain w where w: "hm_hash hm ?bk key = Inr w" "unat w = h" using hm_hash_eq [OF t(1,2)] h_def by metis
  note P = placedD [OF pl h]
  have "length (ls ! h) < walk_fuel"
    using chain_length_fuel [OF P(2,3)] ok by (auto simp: hm_ok_def arrays_ok_def es_def)
  from bucket_walk_chain [OF P(1) this P(3,4), of key 0] obtain p where
    p: "bucket_walk es key walk_fuel 0 (bucket ?bk ! h) =
      Inr (p, case find (\<lambda>a. ekey es a = key) (ls ! h) of None \<Rightarrow> 0 | Some a \<Rightarrow> a)" and pm: "p \<in> insert 0 (set (ls ! h))" by blast
  have "p \<in> insert 0 (members ls)" using pm h by (auto simp: members_nth)
  moreover have run: "hm_locate hm key =
      Inr (h, bucket ?bk ! h, p, case find (\<lambda>a. ekey es a = key) (ls ! h) of None \<Rightarrow> 0 | Some a \<Rightarrow> a)"
    using w p h P(6) by (simp add: hm_locate_def bucket_at_def es_def)
  moreover have "if key \<in> ekey es ` members ls then v \<in> members ls \<and> ekey es v = key \<and> v \<noteq> 0 else v = 0"
    if v: "v = (case find (\<lambda>a. ekey es a = key) (ls ! h) of None \<Rightarrow> 0 | Some a \<Rightarrow> a)" for v
  proof (cases "find (\<lambda>a. ekey es a = key) (ls ! h)")
    case None
    then have "key \<notin> ekey es ` members ls" using members_at_hash [OF pl] by (auto simp: find_None_iff h_def)
    then show ?thesis using v None by simp
  next
    case (Some a)
    then have "a \<in> set (ls ! h)" "ekey es a = key" by (auto simp: find_Some_iff)
    moreover from this have "a \<noteq> 0" using P(4) by metis
    ultimately show ?thesis using v Some h by (auto simp: members_nth)
  qed
  ultimately show ?thesis by blast
qed

section \<open>Reading\<close>

lemma hm_v_get_rep:
  assumes "hm_rep old hm m"
  shows "\<exists>p. hm_v_get hm key = Inr p \<and>
    (case m key of None \<Rightarrow> p = 0 | Some v \<Rightarrow> p \<noteq> 0 \<and> holds_bytes old (hm_bytes hm) p v)"
proof -
  obtain ls where ok: "hm_ok hm ls" and d: "dom m = ekey (hm_entries hm) ` members ls"
    and b: "\<And>a v. a \<in> members ls \<Longrightarrow> m (ekey (hm_entries hm) a) = Some v \<Longrightarrow>
      holds_bytes old (hm_bytes hm) (evalue (hm_entries hm) a) v"
    using assms by (auto simp: hm_rep_def)
  obtain p v where loc: "hm_locate hm key = Inr (hidx hm (hm_buckets hm) key, bucket (hm_buckets hm) ! hidx hm (hm_buckets hm) key, p, v)"
    and v: "if key \<in> ekey (hm_entries hm) ` members ls then v \<in> members ls \<and> ekey (hm_entries hm) v = key \<and> v \<noteq> 0 else v = 0"
    using hm_locate_ok [OF ok] by blast
  show ?thesis
  proof (cases "key \<in> dom m")
    case True
    then have vm: "v \<in> members ls" "ekey (hm_entries hm) v = key" "v \<noteq> 0" using v d by (simp_all split: if_splits)
    then obtain i where i: "i < unat (hm_count hm)" "v = slot hm i" using ok by (auto simp: hm_ok_def)
    then have val: "evalue (hm_entries hm) v = valueaddr hm + i * VALUE_SIZE" "valueaddr hm \<noteq> 0"
      using ok by (auto simp: hm_ok_def arrays_ok_def)
    obtain e where e: "hm_entries hm v = Some e" using val by (cases "hm_entries hm v") (auto simp: evalue_def)
    obtain w where "m key = Some w" using True by auto
    then show ?thesis using loc vm val e b [OF vm(1)] by (auto simp: hm_v_get_def evalue_def)
  next
    case False
    then have "v = 0" using v d by (simp split: if_splits)
    then show ?thesis using loc False by (auto simp: hm_v_get_def domIff)
  qed
qed

lemma hm_v_lookup_rep:
  assumes "hm_rep old hm m"
  shows "hm_v_lookup hm key = Inr (if key \<in> dom m then 1 else 0)"
proof -
  obtain ls where ok: "hm_ok hm ls" and d: "dom m = ekey (hm_entries hm) ` members ls"
    using assms by (auto simp: hm_rep_def)
  show ?thesis using hm_locate_ok [OF ok, of key] by (auto simp: hm_v_lookup_def d)
qed

section \<open>Pushing an entry\<close>

lemma placed_push:
  assumes pl: "placed h bs es ls" and e: "e \<notin> members ls" "e \<noteq> 0" and i: "i = h k" "i < length ls"
  shows "placed h (bs[i := e]) (es(e \<mapsto> \<lparr>e_key = k, e_value = v, e_next = bs ! i\<rparr>)) (ls[i := e # ls ! i])"
proof -
  let ?es = "es(e \<mapsto> \<lparr>e_key = k, e_value = v, e_next = bs ! i\<rparr>)"
  have out: "e \<notin> set (ls ! j)" if j: "j < length ls" for j using e j by (auto simp: members_nth)
  have ch: "chain (enext ?es) p (ls ! j) 0 \<longleftrightarrow> chain (enext es) p (ls ! j) 0" if j: "j < length ls" for j p
    using out [OF j] by (intro chain_cong) (auto simp: enext_def)
  have ke: "ekey ?es a = ekey es a" if a: "a \<noteq> e" for a using a by (simp add: ekey_def)
  have "chain (enext ?es) (bs[i := e] ! j) (ls[i := e # ls ! i] ! j) 0 \<and> distinct (ls[i := e # ls ! i] ! j) \<and>
      (\<forall>a\<in>set (ls[i := e # ls ! i] ! j). h (ekey ?es a) = j \<and> a \<noteq> 0 \<and> a \<in> dom ?es)" if j: "j < length ls" for j
  proof (cases "j = i")
    case True
    have "enext ?es e = bs ! i" "ekey ?es e = k" by (simp_all add: enext_def ekey_def)
    moreover have "\<forall>a\<in>set (ls ! i). h (ekey ?es a) = i \<and> a \<noteq> 0 \<and> a \<in> dom ?es"
      using placedD(3-5) [OF pl i(2)] out [OF i(2)] by (metis domI domIff fun_upd_def ke subset_iff)
    moreover have "chain (enext ?es) (bs ! i) (ls ! i) 0" using placedD(1) [OF pl i(2)] by (simp add: ch [OF i(2)])
    ultimately show ?thesis
      using True i e(2) placedD(2,6) [OF pl i(2)] out [OF i(2)] by simp
  next
    case False
    have "\<forall>a\<in>set (ls ! j). h (ekey ?es a) = j \<and> a \<noteq> 0 \<and> a \<in> dom ?es"
      using placedD(3-5) [OF pl j] out [OF j] by (metis domI domIff fun_upd_def ke subset_iff)
    then show ?thesis using False placedD(1,2) [OF pl j] by (simp add: ch [OF j])
  qed
  then show ?thesis using pl by (simp add: placed_def)
qed

lemma members_push: "i < length ls \<Longrightarrow> members (ls[i := e # ls ! i]) = insert e (members ls)"
  by (auto simp: members_nth nth_list_update split: if_splits)

section \<open>Insertion\<close>

lemma hm_v_insert_present:
  assumes "hm_rep old hm m" "key \<in> dom m"
  shows "hm_v_insert hm ve key val = Inr (1, hm, ve)"
proof -
  obtain ls where ok: "hm_ok hm ls" and d: "dom m = ekey (hm_entries hm) ` members ls"
    using assms by (auto simp: hm_rep_def)
  show ?thesis using hm_locate_ok [OF ok, of key] assms(2) by (auto simp: hm_v_insert_def d)
qed

text \<open>The entry an insertion fills and the table after it.\<close>

definition entry_of :: "hashmap_tx \<Rightarrow> u64 \<Rightarrow> entry" where
  "entry_of hm key = \<lparr>e_key = key, e_value = valueaddr hm + unat (hm_count hm) * VALUE_SIZE,
    e_next = bucket (hm_buckets hm) ! hidx hm (hm_buckets hm) key\<rparr>"

definition inserted :: "hashmap_tx \<Rightarrow> u64 \<Rightarrow> byte list \<Rightarrow> hashmap_tx" where
  "inserted hm key w =
    (let e = slot hm (unat (hm_count hm))
     in hm\<lparr>hm_entries := (hm_entries hm)(e \<mapsto> entry_of hm key),
           hm_bytes := put_bytes (e_value (entry_of hm key)) w (hm_bytes hm),
           hm_buckets := (hm_buckets hm)\<lparr>bucket := (bucket (hm_buckets hm))[hidx hm (hm_buckets hm) key := e]\<rparr>,
           hm_count := hm_count hm + 1\<rparr>)"

lemma hm_v_insert_run:
  assumes ok: "hm_ok hm ls" and new: "key \<notin> ekey (hm_entries hm) ` members ls"
    and room: "unat (hm_count hm) < VALUE_COUNT" and len: "strlen val \<le> VALUE_SIZE"
  shows "hm_v_insert hm ve key val = Inr (0, inserted hm key (take (strlen val) val), entry_of hm key)"
proof -
  have off: "unat (hm_count hm * of_nat VALUE_SIZE) = unat (hm_count hm) * VALUE_SIZE"
    "unat (hm_count hm * of_nat sizeof_entry) = unat (hm_count hm) * sizeof_entry"
    using room by (simp_all add: unat_word_ariths VALUE_COUNT_def VALUE_SIZE_def sizeof_entry_def)
  have "slot hm (unat (hm_count hm)) \<in> dom (hm_entries hm)"
    using ok room by (auto simp: hm_ok_def arrays_ok_def entry_slots_def slot_def)
  then have 1: "hm_entries hm (entryaddr hm + unat (hm_count hm) * sizeof_entry) \<noteq> None" by (auto simp: slot_def)
  have "Suc (unat (hm_count hm)) * VALUE_SIZE \<le> VALUE_COUNT * VALUE_SIZE" using room by (intro mult_le_mono1) simp
  then have 2: "\<not> value_room hm < unat (hm_count hm) * VALUE_SIZE + strlen val"
    using ok len by (simp add: hm_ok_def arrays_ok_def)
  obtain p where "hm_locate hm key = Inr (hidx hm (hm_buckets hm) key, bucket (hm_buckets hm) ! hidx hm (hm_buckets hm) key, p, 0)"
    using hm_locate_ok [OF ok, of key] new by auto
  then show ?thesis using 1 2 by (simp add: hm_v_insert_def inserted_def entry_of_def slot_def Let_def off)
qed

lemma holds_put_same:
  assumes "length v \<le> VALUE_SIZE" "\<And>x. p \<le> x \<Longrightarrow> m x = old x"
  shows "holds_bytes old (put_bytes p v m) p v"
  using assms by (simp add: holds_bytes_def put_bytes_def)

lemma holds_put_other:
  assumes "holds_bytes old m p v" "p + VALUE_SIZE \<le> q \<or> q + VALUE_SIZE \<le> p" "length w \<le> VALUE_SIZE"
  shows "holds_bytes old (put_bytes q w m) p v"
  using assms by (auto simp: holds_bytes_def put_bytes_def)

lemma areas_apart:
  assumes "i < n" shows "(a::nat) + i * VALUE_SIZE + VALUE_SIZE \<le> a + n * VALUE_SIZE"
proof -
  have "Suc i * VALUE_SIZE \<le> n * VALUE_SIZE" using assms by (intro mult_le_mono1) simp
  then show ?thesis by simp
qed

text \<open>The new entry, the old ones, and the lists of the buckets after an insertion.\<close>

lemma slot_new: "hm_ok hm ls \<Longrightarrow> slot hm (unat (hm_count hm)) \<notin> members ls"
  by (auto simp: hm_ok_def slot_inj)

lemma inserted_entries:
  assumes ok: "hm_ok hm ls"
  defines "e \<equiv> slot hm (unat (hm_count hm))"
  shows "ekey (hm_entries (inserted hm key w)) e = key"
    "evalue (hm_entries (inserted hm key w)) e = valueaddr hm + unat (hm_count hm) * VALUE_SIZE"
    "\<And>a. a \<in> members ls \<Longrightarrow> ekey (hm_entries (inserted hm key w)) a = ekey (hm_entries hm) a"
    "\<And>a. a \<in> members ls \<Longrightarrow> evalue (hm_entries (inserted hm key w)) a = evalue (hm_entries hm) a"
  using ok by (auto simp: hm_ok_def e_def slot_inj inserted_def entry_of_def ekey_def evalue_def Let_def)

lemma inserted_table:
  assumes ok: "hm_ok hm ls" and new: "key \<notin> ekey (hm_entries hm) ` members ls"
  defines "e \<equiv> slot hm (unat (hm_count hm))" and "h \<equiv> hidx hm (hm_buckets hm) key"
  shows "table_ok (inserted hm key w) (ls[h := e # ls ! h])" "members (ls[h := e # ls ! h]) = insert e (members ls)"
proof -
  note E = slot_new [OF ok, folded e_def] inserted_entries [OF ok, where key = key and w = w, folded e_def]
  have t: "hash_fun_p hm \<noteq> 0" "nbuckets (hm_buckets hm) \<noteq> 0" "length ls = unat (nbuckets (hm_buckets hm))"
    and pl: "placed (hidx hm (hm_buckets hm)) (bucket (hm_buckets hm)) (hm_entries hm) ls"
    and inj: "inj_on (ekey (hm_entries hm)) (members ls)" and sz: "unat (nbuckets (hm_buckets hm)) < 2 ^ 61 - 1"
    using ok by (auto simp: hm_ok_def table_ok_def)
  have h: "h < length ls" using hidx_less [OF t(2)] t(3) by (simp add: h_def)
  show mem: "members (ls[h := e # ls ! h]) = insert e (members ls)" by (rule members_push [OF h])
  have "e \<noteq> 0" using ok by (simp add: e_def slot_def hm_ok_def arrays_ok_def)
  from placed_push [OF pl E(1) this, of h key] h
  have "placed (hidx hm (hm_buckets hm)) ((bucket (hm_buckets hm))[h := e]) (hm_entries (inserted hm key w)) (ls[h := e # ls ! h])"
    by (simp add: h_def e_def inserted_def entry_of_def Let_def)
  moreover have "hidx (inserted hm key w) (hm_buckets (inserted hm key w)) = hidx hm (hm_buckets hm)"
    by (simp add: hidx_def inserted_def Let_def fun_eq_iff)
  moreover have "inj_on (ekey (hm_entries (inserted hm key w))) (members (ls[h := e # ls ! h]))"
    using inj new E unfolding mem by (auto simp: inj_on_def image_iff)
  ultimately show "table_ok (inserted hm key w) (ls[h := e # ls ! h])"
    using t sz by (simp add: table_ok_def) (simp add: inserted_def Let_def h_def e_def)
qed

lemma inserted_arrays:
  assumes ok: "hm_ok hm ls" and room: "unat (hm_count hm) < VALUE_COUNT"
  shows "arrays_ok (inserted hm key w)" "unat (hm_count (inserted hm key w)) = Suc (unat (hm_count hm))"
    "slot (inserted hm key w) = slot hm"
proof -
  have "unat (hm_count hm + 1) = Suc (unat (hm_count hm))" using room by (simp add: VALUE_COUNT_def unat_word_ariths)
  then show c: "unat (hm_count (inserted hm key w)) = Suc (unat (hm_count hm))" by (simp add: inserted_def Let_def)
  show sl: "slot (inserted hm key w) = slot hm" by (simp add: slot_def inserted_def Let_def fun_eq_iff)
  have ar: "dom (hm_entries hm) = entry_slots (entryaddr hm)"
    and vals: "\<And>i. i < unat (hm_count hm) \<Longrightarrow> evalue (hm_entries hm) (slot hm i) = valueaddr hm + i * VALUE_SIZE"
    using ok by (auto simp: hm_ok_def arrays_ok_def)
  have "slot hm (unat (hm_count hm)) \<in> dom (hm_entries hm)" using ar room by (auto simp: slot_def entry_slots_def)
  then have "dom (hm_entries (inserted hm key w)) = entry_slots (entryaddr hm)" using ar by (auto simp: inserted_def Let_def)
  moreover have "evalue (hm_entries (inserted hm key w)) (slot hm i) = valueaddr hm + i * VALUE_SIZE"
    if i: "i < Suc (unat (hm_count hm))" for i
    using i inserted_entries(2,4) [OF ok, where key = key and w = w] vals ok by (cases "i = unat (hm_count hm)") (auto simp: hm_ok_def)
  moreover have "entryaddr (inserted hm key w) = entryaddr hm" "valueaddr (inserted hm key w) = valueaddr hm"
    "value_room (inserted hm key w) = value_room hm" by (simp_all add: inserted_def Let_def)
  ultimately show "arrays_ok (inserted hm key w)" using ok room c sl by (simp add: arrays_ok_def hm_ok_def)
qed

lemma inserted_rep:
  assumes rep: "hm_rep old hm m" and new: "key \<notin> dom m"
    and room: "unat (hm_count hm) < VALUE_COUNT" and len: "length w \<le> VALUE_SIZE"
  shows "hm_rep old (inserted hm key w) (m(key \<mapsto> w))"
proof -
  obtain ls where ok: "hm_ok hm ls" and d: "dom m = ekey (hm_entries hm) ` members ls"
    and b: "\<And>a v. a \<in> members ls \<Longrightarrow> m (ekey (hm_entries hm) a) = Some v \<Longrightarrow>
      holds_bytes old (hm_bytes hm) (evalue (hm_entries hm) a) v"
    and free: "\<And>x. valueaddr hm + unat (hm_count hm) * VALUE_SIZE \<le> x \<Longrightarrow> hm_bytes hm x = old x"
    using rep by (auto simp: hm_rep_def)
  let ?n = "unat (hm_count hm)" and ?hm = "inserted hm key w"
  define ls' where "ls' = ls[hidx hm (hm_buckets hm) key := slot hm ?n # ls ! hidx hm (hm_buckets hm) key]"
  note E = slot_new [OF ok] inserted_entries [OF ok, where key = key and w = w]
  note A = inserted_arrays [OF ok room, of key w]
  note T = inserted_table(1) [OF ok new [unfolded d], of w, folded ls'_def] inserted_table(2) [OF ok new [unfolded d], folded ls'_def]
  have mem: "members ls = slot hm ` {..<?n}" using ok by (simp add: hm_ok_def)
  have ok': "hm_ok ?hm ls'" using T A mem by (simp add: hm_ok_def lessThan_Suc)
  have ki: "ekey (hm_entries ?hm) ` members ls' = insert key (dom m)" using T(2) E d by (auto simp: image_iff)
  have bytes: "hm_bytes ?hm = put_bytes (valueaddr hm + ?n * VALUE_SIZE) w (hm_bytes hm)"
    by (simp add: inserted_def entry_of_def Let_def)
  have "holds_bytes old (hm_bytes ?hm) (evalue (hm_entries ?hm) a) v"
    if a: "a \<in> members ls'" and v: "(m(key \<mapsto> w)) (ekey (hm_entries ?hm) a) = Some v" for a v
  proof (cases "a = slot hm ?n")
    case True
    then have "v = w" using v E(2) by simp
    then show ?thesis using True holds_put_same [OF len free] E(3) by (simp only: bytes)
  next
    case False
    then have am: "a \<in> members ls" using a T(2) by simp
    then obtain i where i: "i < ?n" "a = slot hm i" using mem by auto
    have ev: "evalue (hm_entries ?hm) a = valueaddr hm + i * VALUE_SIZE"
      using E(5) [OF am] ok i by (simp add: hm_ok_def arrays_ok_def)
    have "ekey (hm_entries hm) a \<noteq> key" using am new d by auto
    then have "holds_bytes old (hm_bytes hm) (valueaddr hm + i * VALUE_SIZE) v"
      using v am E(4) [OF am] b [OF am] E(5) [OF am] ev by simp
    then show ?thesis using areas_apart [OF i(1)] len by (simp add: ev bytes holds_put_other)
  qed
  moreover have "hm_bytes ?hm x = old x" if "valueaddr ?hm + unat (hm_count ?hm) * VALUE_SIZE \<le> x" for x
  proof -
    have "valueaddr ?hm = valueaddr hm" by (simp add: inserted_def Let_def)
    then have "valueaddr hm + ?n * VALUE_SIZE + length w \<le> x" using that A(2) len by simp
    then show ?thesis using free [of x] by (simp add: bytes put_bytes_def)
  qed
  ultimately show ?thesis unfolding hm_rep_def using ok' ki by (intro exI [of _ ls']) simp
qed

lemma hm_v_insert_new:
  assumes rep: "hm_rep old hm m" and new: "key \<notin> dom m"
    and room: "unat (hm_count hm) < VALUE_COUNT" and len: "strlen val \<le> VALUE_SIZE"
  shows "\<exists>hm' ve'. hm_v_insert hm ve key val = Inr (0, hm', ve') \<and> hm_rep old hm' (m(key \<mapsto> take (strlen val) val)) \<and>
    unat (hm_v_count hm') = Suc (unat (hm_v_count hm))"
proof -
  obtain ls where ok: "hm_ok hm ls" and d: "dom m = ekey (hm_entries hm) ` members ls" using rep by (auto simp: hm_rep_def)
  show ?thesis
    using hm_v_insert_run [OF ok new [unfolded d] room len] inserted_rep [OF rep new room, of "take (strlen val) val"]
      inserted_arrays(2) [OF ok room] len by (simp add: hm_v_count_def)
qed

section \<open>Creation\<close>

lemma draw_nonzero_returns:
  assumes "n \<le> k" "rand k \<noteq> 0"
  shows "\<exists>a j. draw_nonzero rand n = Some (a, j) \<and> a \<noteq> 0"
  using assms
proof (induction "k - n" arbitrary: n)
  case 0
  then have "n = k" by simp
  then show ?case using 0 by (subst draw_nonzero.simps) simp
next
  case (Suc d)
  show ?case
  proof (cases "rand n = 0")
    case True
    then have "Suc n \<le> k" using Suc.hyps(2) Suc.prems by auto
    then show ?thesis using Suc.hyps(1) [of "Suc n"] Suc.hyps(2) Suc.prems True by (simp add: draw_nonzero.simps [of rand n])
  next
    case False
    then show ?thesis by (simp add: draw_nonzero.simps [of rand n])
  qed
qed

lemma placed_empty: "placed h (replicate n 0) es (replicate n [])"
  by (simp add: placed_def)

lemma members_empty: "members (replicate n []) = {}"
  by (auto simp: members_def)

lemma hm_v_create_rep:
  assumes "rand k \<noteq> 0" "ea \<noteq> 0" "va \<noteq> 0"
  shows "\<exists>hm. hm_v_create rand True True (Some (ea, old)) (Some (va, oldb)) args = Inr hm \<and> hm_rep oldb hm Map.empty \<and>
    hm_v_count hm = 0 \<and> hash_fun_a hm \<noteq> 0"
proof -
  obtain a j where d: "draw_nonzero rand 0 = Some (a, j)" "a \<noteq> 0" using draw_nonzero_returns [of 0 k rand] assms by auto
  have b: "buckets_alloc True INIT_BUCKETS_NUM = Inr \<lparr>nbuckets = 4096, bucket = replicate 4096 0\<rparr>"
    by (simp add: buckets_alloc_def INIT_BUCKETS_NUM_def)
  obtain hm where hm: "hm_v_create rand True True (Some (ea, old)) (Some (va, oldb)) args = Inr hm"
    and f: "hash_fun_p hm = HASH_FUNC_COEFF_P" "hm_buckets hm = \<lparr>nbuckets = 4096, bucket = replicate 4096 0\<rparr>" "hm_count hm = 0"
      "entryaddr hm = ea" "valueaddr hm = va" "value_room hm = VALUE_COUNT * VALUE_SIZE" "hash_fun_a hm = a"
      "hm_entries hm = (\<lambda>x. if x \<in> entry_slots ea then Some (old x) else None)" "hm_bytes hm = oldb"
    using d b by (simp add: hm_v_create_def create_hashmap_def)
  have "hm_ok hm (replicate 4096 [])"
    using f assms placed_empty [of _ 4096]
    by (simp add: hm_ok_def table_ok_def arrays_ok_def members_empty HASH_FUNC_COEFF_P_def dom_def)
  then have "hm_rep oldb hm Map.empty" unfolding hm_rep_def by (intro exI [of _ "replicate 4096 []"]) (simp add: members_empty f)
  then show ?thesis using hm f d by (auto simp: hm_v_count_def)
qed

section \<open>Rebuilding\<close>

text \<open>Two stores that differ in the links of their entries only.\<close>

definition same_kv :: "entry_store \<Rightarrow> entry_store \<Rightarrow> bool" where
  "same_kv es es' \<longleftrightarrow> dom es' = dom es \<and> ekey es' = ekey es \<and> evalue es' = evalue es"

lemma same_kv_refl: "same_kv es es"
  by (simp add: same_kv_def)

lemma same_kv_trans: "same_kv a b \<Longrightarrow> same_kv b c \<Longrightarrow> same_kv a c"
  by (simp add: same_kv_def)

lemma same_kv_link: "es a = Some e \<Longrightarrow> same_kv es (es(a \<mapsto> e\<lparr>e_next := x\<rparr>))"
  by (auto simp: same_kv_def ekey_def evalue_def fun_eq_iff)

text \<open>The state of a rebuild: the new table so far, and nothing else changed.\<close>

definition rebuilt :: "hashmap_tx \<Rightarrow> buckets \<Rightarrow> addr set \<Rightarrow> entry_store \<Rightarrow> buckets \<times> entry_store \<Rightarrow> addr list list \<Rightarrow> bool" where
  "rebuilt hm new A es r ls \<longleftrightarrow> (case r of (new', es') \<Rightarrow>
    nbuckets new' = nbuckets new \<and> length ls = unat (nbuckets new) \<and>
    placed (hidx hm new) (bucket new') es' ls \<and> members ls = A \<and> same_kv es es' \<and> (\<forall>a. a \<notin> A \<longrightarrow> es' a = es a))"

lemma rebuild_step:
  assumes r: "rebuilt hm new A es0 (bk, es) ls" and nz: "hash_fun_p hm \<noteq> 0" "nbuckets new \<noteq> 0"
    and en: "en \<notin> A" "en \<noteq> 0" and e: "es en = Some e"
  shows "\<exists>h ls'. hm_hash hm bk (e_key e) = Inr h \<and> unat h < length (bucket bk) \<and>
    rebuilt hm new (insert en A) es0
      (bk\<lparr>bucket := (bucket bk)[unat h := en]\<rparr>, es(en \<mapsto> e\<lparr>e_next := bucket bk ! unat h\<rparr>)) ls'"
proof -
  have R: "nbuckets bk = nbuckets new" "length ls = unat (nbuckets new)" "placed (hidx hm new) (bucket bk) es ls"
    "members ls = A" "same_kv es0 es" "\<And>a. a \<notin> A \<Longrightarrow> es a = es0 a"
    using r by (auto simp: rebuilt_def)
  have hx: "hidx hm bk = hidx hm new" by (simp add: hidx_def R(1) fun_eq_iff)
  obtain h where h: "hm_hash hm bk (e_key e) = Inr h" "unat h = hidx hm new (e_key e)"
    using hm_hash_eq [of hm bk "e_key e"] nz hx R(1) by auto
  have hl: "unat h < length ls" using hidx_less [OF nz(2)] h(2) R(2) by simp
  have ent: "e\<lparr>e_next := x\<rparr> = \<lparr>e_key = e_key e, e_value = e_value e, e_next = x\<rparr>" for x by (cases e) simp
  have "placed (hidx hm new) ((bucket bk)[unat h := en]) (es(en \<mapsto> e\<lparr>e_next := bucket bk ! unat h\<rparr>)) (ls[unat h := en # ls ! unat h])"
    unfolding ent by (rule placed_push [OF R(3)]) (use en R(4) h hl in auto)
  moreover have "members (ls[unat h := en # ls ! unat h]) = insert en A" using members_push [OF hl] R(4) by simp
  moreover have "same_kv es0 (es(en \<mapsto> e\<lparr>e_next := bucket bk ! unat h\<rparr>))"
    by (rule same_kv_trans [OF R(5) same_kv_link]) (rule e)
  ultimately show ?thesis
    using h(1) hl R placedD(6) [OF R(3) hl] by (intro exI [of _ h] exI [of _ "ls[unat h := en # ls ! unat h]"]) (auto simp: rebuilt_def)
qed

lemma rebuild_bucket_ok:
  assumes "rebuilt hm new A es0 (bk, es) ls" "hash_fun_p hm \<noteq> 0" "nbuckets new \<noteq> 0"
    "chain (enext es) en as 0" "distinct as" "set as \<inter> A = {}" "0 \<notin> set as" "set as \<subseteq> dom es" "length as < n"
  shows "\<exists>r ls'. rebuild_bucket hm n en (bk, es) = Inr r \<and> rebuilt hm new (A \<union> set as) es0 r ls'"
  using assms
proof (induction as arbitrary: A bk es ls en n)
  case Nil
  then show ?case by (cases n) auto
next
  case (Cons a as)
  obtain k where n: "n = Suc k" using Cons.prems(9) by (cases n) auto
  obtain e where e: "es a = Some e" using Cons.prems(8) by auto
  have "enext es a = e_next e" using e by (simp add: enext_def)
  then have en: "en = a" and nx: "chain (enext es) (e_next e) as 0" using Cons.prems(4) by simp_all
  obtain h ls' where st: "hm_hash hm bk (e_key e) = Inr h" "unat h < length (bucket bk)"
    "rebuilt hm new (insert a A) es0
      (bk\<lparr>bucket := (bucket bk)[unat h := a]\<rparr>, es(a \<mapsto> e\<lparr>e_next := bucket bk ! unat h\<rparr>)) ls'"
    using rebuild_step [OF Cons.prems(1-3) _ _ e] Cons.prems(6,7) by auto
  let ?es = "es(a \<mapsto> e\<lparr>e_next := bucket bk ! unat h\<rparr>)"
  have "chain (enext ?es) (e_next e) as 0"
    using nx Cons.prems(5) by (subst chain_cong [of as "enext ?es" "enext es"]) (auto simp: enext_def)
  then have "\<exists>r ls'. rebuild_bucket hm k (e_next e) (bk\<lparr>bucket := (bucket bk)[unat h := a]\<rparr>, ?es) = Inr r \<and>
      rebuilt hm new (insert a A \<union> set as) es0 r ls'"
    by (rule Cons.IH [OF st(3) Cons.prems(2,3)]) (use Cons.prems in \<open>auto simp: n\<close>)
  then show ?case using st e en Cons.prems(7) by (simp add: n bucket_at_def)
qed


lemma rebuild_from_ok:
  assumes "rebuilt hm new A es0 r ls" "hash_fun_p hm \<noteq> 0" "nbuckets new \<noteq> 0"
    and old: "placed h (bucket (hm_buckets hm)) es0 old" and arr: "dom es0 = entry_slots ea"
    and "distinct is" "\<And>i. i \<in> set is \<Longrightarrow> i < length old \<and> set (old ! i) \<inter> A = {}"
  shows "\<exists>r' ls'. rebuild_from hm is r = Inr r' \<and> rebuilt hm new (A \<union> (\<Union>i\<in>set is. set (old ! i))) es0 r' ls'"
  using assms(1-3,6-)
proof (induction "is" arbitrary: A r ls)
  case Nil
  then show ?case by auto
next
  case (Cons i "is")
  obtain bk es where r: "r = (bk, es)" by (cases r)
  have i: "i < length old" "set (old ! i) \<inter> A = {}" using Cons.prems(5) by auto
  note P = placedD [OF old i(1)]
  have same: "es a = es0 a" if a: "a \<in> set (old ! i)" for a using Cons.prems(1) i(2) a by (auto simp: rebuilt_def r)
  have "chain (enext es) (bucket (hm_buckets hm) ! i) (old ! i) 0"
    using P(1) same by (subst chain_cong [of "old ! i" "enext es" "enext es0"]) (auto simp: enext_def)
  moreover have "set (old ! i) \<subseteq> dom es" using P(3) Cons.prems(1) by (auto simp: rebuilt_def r same_kv_def)
  moreover have "length (old ! i) < walk_fuel" by (rule chain_length_fuel [OF P(2,3) arr])
  ultimately obtain r1 ls1 where r1: "rebuild_bucket hm walk_fuel (bucket (hm_buckets hm) ! i) r = Inr r1"
      "rebuilt hm new (A \<union> set (old ! i)) es0 r1 ls1"
    using rebuild_bucket_ok [OF Cons.prems(1) [unfolded r] Cons.prems(2,3) _ P(2) i(2) P(4)] r by blast
  have dis: "set (old ! j) \<inter> set (old ! i) = {}" if j: "j \<in> set is" for j
  proof -
    have "j < length old" "j \<noteq> i" using Cons.prems(4,5) j by auto
    then show ?thesis using P(5) placedD(5) [OF old, of j] by fastforce
  qed
  have "\<exists>r' ls'. rebuild_from hm is r1 = Inr r' \<and>
      rebuilt hm new ((A \<union> set (old ! i)) \<union> (\<Union>i\<in>set is. set (old ! i))) es0 r' ls'"
    by (rule Cons.IH [OF r1(2) Cons.prems(2,3)]) (use Cons.prems(4,5) dis in \<open>auto\<close>)
  then show ?case using r1(1) i(1) P(6) by (simp add: bucket_at_def Un_assoc)
qed

lemma hm_v_rebuild_rep:
  assumes rep: "hm_rep old hm m" and size: "unat new_len < 2 ^ 61 - 1"
  shows "\<exists>hm'. hm_v_rebuild True hm new_len = Inr hm' \<and> hm_rep old hm' m \<and> hm_v_count hm' = hm_v_count hm \<and>
    nbuckets (hm_buckets hm') = (if new_len = 0 then nbuckets (hm_buckets hm) else new_len)"
proof -
  obtain ls where ok: "hm_ok hm ls" and d: "dom m = ekey (hm_entries hm) ` members ls"
    and b: "\<And>a v. a \<in> members ls \<Longrightarrow> m (ekey (hm_entries hm) a) = Some v \<Longrightarrow>
      holds_bytes old (hm_bytes hm) (evalue (hm_entries hm) a) v"
    and free: "\<And>x. valueaddr hm + unat (hm_count hm) * VALUE_SIZE \<le> x \<Longrightarrow> hm_bytes hm x = old x"
    using rep by (auto simp: hm_rep_def)
  have t: "hash_fun_p hm \<noteq> 0" "nbuckets (hm_buckets hm) \<noteq> 0" "length ls = unat (nbuckets (hm_buckets hm))"
    and pl: "placed (hidx hm (hm_buckets hm)) (bucket (hm_buckets hm)) (hm_entries hm) ls"
    and old: "unat (nbuckets (hm_buckets hm)) < 2 ^ 61 - 1"
    using ok by (auto simp: hm_ok_def table_ok_def)
  define len where "len = (if new_len = 0 then nbuckets (hm_buckets hm) else new_len)"
  have nz: "len \<noteq> 0" and ul: "unat len < 2 ^ 61 - 1" using t size old by (auto simp: len_def)
  define new where "new = \<lparr>nbuckets = len, bucket = replicate (unat len) (0::addr)\<rparr>"
  have alloc: "buckets_alloc True len = Inr new"
  proof -
    have "unat (8 + len * 8) = 8 + unat len * 8" using ul by (simp add: unat_word_ariths)
    then show ?thesis by (simp add: buckets_alloc_def new_def word_less_nat_alt Let_def)
  qed
  have "rebuilt hm new {} (hm_entries hm) (new, hm_entries hm) (replicate (unat len) [])"
    by (simp add: rebuilt_def new_def placed_empty members_empty same_kv_refl)
  then obtain bk es ls' where run: "rebuild_from hm [0..<length ls] (new, hm_entries hm) = Inr (bk, es)"
    and r: "rebuilt hm new ({} \<union> (\<Union>i\<in>set [0..<length ls]. set (ls ! i))) (hm_entries hm) (bk, es) ls'"
    using rebuild_from_ok [OF _ t(1) _ pl, of new "{}" "(new, hm_entries hm)" "replicate (unat len) []" "entryaddr hm" "[0..<length ls]"]
      ok nz by (auto simp: new_def hm_ok_def arrays_ok_def)
  define hm' where "hm' = hm\<lparr>hm_buckets := bk, hm_entries := es\<rparr>"
  have mem: "members ls' = members ls" and kv: "same_kv (hm_entries hm) es" and nb: "nbuckets bk = len"
    and pl': "placed (hidx hm new) (bucket bk) es ls'" and ll: "length ls' = unat len"
    using r by (auto simp: rebuilt_def new_def members_nth [of ls] atLeast0LessThan)
  have hx: "hidx hm' bk = hidx hm new" by (simp add: hidx_def hm'_def nb new_def fun_eq_iff)
  have "table_ok hm' ls'"
    using ok pl' hx nz ll nb mem kv ul by (auto simp: hm_ok_def table_ok_def same_kv_def hm'_def)
  moreover have "arrays_ok hm'" "members ls' = slot hm' ` {..<unat (hm_count hm')}"
    using ok mem kv by (auto simp: hm_ok_def arrays_ok_def same_kv_def hm'_def slot_def)
  ultimately have "hm_ok hm' ls'" by (simp add: hm_ok_def)
  then have "hm_rep old hm' m"
    unfolding hm_rep_def using d b kv mem free by (intro exI [of _ ls']) (simp add: hm'_def same_kv_def)
  then show ?thesis
    using alloc run t(3) nb by (auto simp: hm_v_rebuild_def len_def [symmetric] hm'_def hm_v_count_def)
qed

section \<open>The contract of the map\<close>

definition fits_value :: "byte list \<Rightarrow> bool" where
  "fits_value v \<longleftrightarrow> 0 \<notin> set v \<and> length v \<le> VALUE_SIZE"

definition hm_put :: "u64 \<Rightarrow> byte list \<Rightarrow> hashmap_tx \<Rightarrow> hashmap_tx outcome" where
  "hm_put key v hm = and_then (hm_v_insert hm \<lparr>e_key = 0, e_value = 0, e_next = 0\<rparr> key v) (\<lambda>(ret, hm', ve). Inr hm')"

definition hm_got :: "memory \<Rightarrow> hashmap_tx \<Rightarrow> u64 \<Rightarrow> byte list option \<Rightarrow> bool" where
  "hm_got old hm key r \<longleftrightarrow> (\<exists>p. hm_v_get hm key = Inr p \<and>
    (case r of None \<Rightarrow> p = 0 | Some v \<Rightarrow> p \<noteq> 0 \<and> holds_bytes old (hm_bytes hm) p v))"

lemma fits_strlen: "fits_value v \<Longrightarrow> strlen v = length v"
  by (auto simp: fits_value_def strlen_def intro!: arg_cong [of _ _ length] takeWhile_eq_all_conv [THEN iffD2])

lemma hm_rep_count:
  assumes "hm_rep old hm m"
  shows "finite (dom m)" "card (dom m) = unat (hm_v_count hm)"
proof -
  obtain ls where ok: "hm_ok hm ls" and d: "dom m = ekey (hm_entries hm) ` members ls" using assms by (auto simp: hm_rep_def)
  have mem: "members ls = slot hm ` {..<unat (hm_count hm)}" and inj: "inj_on (ekey (hm_entries hm)) (members ls)"
    using ok by (auto simp: hm_ok_def table_ok_def)
  show "finite (dom m)" using d mem by simp
  have "card (members ls) = unat (hm_count hm)" using mem by (simp add: card_image inj_on_def slot_inj)
  then show "card (dom m) = unat (hm_v_count hm)" using d inj by (simp add: card_image hm_v_count_def)
qed

interpretation hm: write_once "hm_rep old" "\<lambda>n. n < VALUE_COUNT" fits_value hm_put "hm_got old" for old
proof unfold_locales
  fix s :: hashmap_tx and m k v
  assume rep: "hm_rep old s m"
  show "finite (dom m)" by (rule hm_rep_count [OF rep])
  show "hm_got old s k (m k)" using hm_v_get_rep [OF rep, of k] by (simp add: hm_got_def)
  show "\<exists>s'. hm_put k v s = Inr s' \<and> hm_rep old s' (m(k \<mapsto> v))"
    if k: "k \<notin> dom m" and c: "card (dom m) < VALUE_COUNT" and v: "fits_value v"
  proof -
    have "strlen v \<le> VALUE_SIZE" "take (strlen v) v = v" using v fits_strlen [OF v] by (simp_all add: fits_value_def)
    moreover have "unat (hm_count s) < VALUE_COUNT" using c hm_rep_count [OF rep] by (simp add: hm_v_count_def)
    ultimately show ?thesis
      using hm_v_insert_new [OF rep k, of v "\<lparr>e_key = 0, e_value = 0, e_next = 0\<rparr>"] by (auto simp: hm_put_def)
  qed
  show "\<exists>s'. hm_put k v s = Inr s' \<and> hm_rep old s' m" if k: "k \<in> dom m"
    using hm_v_insert_present [OF rep k] rep by (simp add: hm_put_def)
qed simp

section \<open>Visiting every entry\<close>

definition pairs :: "entry_store \<Rightarrow> addr list \<Rightarrow> (u64 \<times> addr) list" where
  "pairs es as = map (\<lambda>a. (ekey es a, evalue es a)) as"

lemma foreach_bucket_ok:
  assumes "\<And>k p a. fst (cb k p a) = 0" "chain (enext es) var as 0" "length as < n" "set as \<subseteq> dom es" "0 \<notin> set as"
  shows "foreach_bucket es cb n var (0, arg) = Inr (0, fold (\<lambda>(k, p) a. snd (cb k p a)) (pairs es as) arg)"
  using assms(2-)
proof (induction as arbitrary: var n arg)
  case Nil
  then show ?case by (cases n) (auto simp: pairs_def)
next
  case (Cons a as)
  obtain k where n: "n = Suc k" using Cons.prems(2) by (cases n) auto
  obtain e where e: "es a = Some e" using Cons.prems(3) by auto
  have v: "enext es a = e_next e" "ekey es a = e_key e" "evalue es a = e_value e" using e by (simp_all add: enext_def ekey_def evalue_def)
  obtain arg1 where c: "cb (e_key e) (e_value e) arg = (0, arg1)" using assms(1) by (metis prod.collapse)
  have "foreach_bucket es cb k (e_next e) (0, arg1) = Inr (0, fold (\<lambda>(k, p) a. snd (cb k p a)) (pairs es as) arg1)"
    by (rule Cons.IH) (use Cons.prems v n in auto)
  then show ?case using Cons.prems e c v by (simp add: n pairs_def)
qed

lemma foreach_from_ok:
  assumes cb: "\<And>k p a. fst (cb k p a) = 0" and ok: "hm_ok hm ls" and "\<And>i. i \<in> set is \<Longrightarrow> i < length ls"
  shows "foreach_from hm cb is (0, arg) =
    Inr (0, fold (\<lambda>(k, p) a. snd (cb k p a)) (pairs (hm_entries hm) (concat (map ((!) ls) is))) arg)"
  using assms(3)
proof (induction "is" arbitrary: arg)
  case Nil
  then show ?case by (simp add: pairs_def)
next
  case (Cons i "is")
  have pl: "placed (hidx hm (hm_buckets hm)) (bucket (hm_buckets hm)) (hm_entries hm) ls"
    and dom: "dom (hm_entries hm) = entry_slots (entryaddr hm)"
    using ok by (auto simp: hm_ok_def table_ok_def arrays_ok_def)
  have i: "i < length ls" using Cons.prems by simp
  note P = placedD [OF pl i]
  show ?case
    using foreach_bucket_ok [OF cb P(1) chain_length_fuel [OF P(2,3) dom] P(3,4)] Cons.IH Cons.prems i P(6)
    by (simp add: bucket_at_def pairs_def)
qed

lemma distinct_concat_placed:
  assumes "placed h bs es ls"
  shows "distinct (concat ls)"
proof -
  have "distinct (concat (map ((!) ls) [0..<n]))" if n: "n \<le> length ls" for n
    using n
  proof (induction n)
    case (Suc n)
    have "x \<notin> set (ls ! n)" if x: "x \<in> set (ls ! i)" and i: "i < n" for x i
      using placedD(5) [OF assms, of i x] placedD(5) [OF assms, of n x] x i Suc.prems by auto
    then show ?case using Suc placedD(2) [OF assms, of n] by auto
  qed simp
  from this [of "length ls"] show ?thesis by (simp add: map_nth)
qed

lemma foreach_visits:
  assumes "hm_rep old hm m"
  shows "\<exists>xs. distinct (map fst xs) \<and> set (map fst xs) = dom m \<and>
    (\<forall>cb arg. (\<forall>k p a. fst (cb k p a) = 0) \<longrightarrow>
      hm_v_foreach hm cb arg = Inr (0, fold (\<lambda>(k, p) a. snd (cb k p a)) xs (arg :: 'a)))"
proof -
  obtain ls where ok: "hm_ok hm ls" and d: "dom m = ekey (hm_entries hm) ` members ls" using assms by (auto simp: hm_rep_def)
  have pl: "placed (hidx hm (hm_buckets hm)) (bucket (hm_buckets hm)) (hm_entries hm) ls"
    and inj: "inj_on (ekey (hm_entries hm)) (members ls)" and n: "unat (nbuckets (hm_buckets hm)) = length ls"
    using ok by (auto simp: hm_ok_def table_ok_def)
  let ?xs = "pairs (hm_entries hm) (concat ls)"
  have k: "map fst ?xs = map (ekey (hm_entries hm)) (concat ls)" by (simp add: pairs_def)
  have s: "set (concat ls) = members ls" by (simp add: members_def)
  have "distinct (map fst ?xs)" unfolding k distinct_map s using inj distinct_concat_placed [OF pl] by simp
  moreover have "set (map fst ?xs) = dom m" unfolding k set_map s d ..
  moreover have "hm_v_foreach hm cb arg = Inr (0, fold (\<lambda>(k, p) a. snd (cb k p a)) ?xs arg)"
    if cb: "\<forall>k p a. fst (cb k p a) = 0" for cb and arg :: 'a
    using foreach_from_ok [of cb, OF _ ok, of "[0..<length ls]" arg] cb n by (simp add: hm_v_foreach_def map_nth)
  ultimately show ?thesis by (intro exI [of _ ?xs]) blast
qed

section \<open>Removal\<close>

lemma hm_v_remove_present:
  assumes rep: "hm_rep old hm m" and key: "key \<in> dom m"
  shows "if ekey (hm_entries hm) (entryaddr hm) = key
    then \<exists>p hm'. hm_v_remove hm key = Inr (p, hm') \<and> hm_entries hm' = Map.empty
    else hm_v_remove hm key = Inl BadCall"
proof -
  obtain ls where ok: "hm_ok hm ls" and d: "dom m = ekey (hm_entries hm) ` members ls" using rep by (auto simp: hm_rep_def)
  obtain p v where loc: "hm_locate hm key = Inr (hidx hm (hm_buckets hm) key, bucket (hm_buckets hm) ! hidx hm (hm_buckets hm) key, p, v)"
    and p: "p \<in> insert 0 (members ls)" and v: "v \<in> members ls" "ekey (hm_entries hm) v = key" "v \<noteq> 0"
    using hm_locate_ok [OF ok, of key] key d by auto
  have mem: "members ls = slot hm ` {..<unat (hm_count hm)}" and inj: "inj_on (ekey (hm_entries hm)) (members ls)"
    using ok by (auto simp: hm_ok_def table_ok_def)
  have "slot hm 0 \<in> members ls" using v(1) unfolding mem by auto
  then have "entryaddr hm \<in> members ls" by (simp add: slot_def)
  then have first: "ekey (hm_entries hm) (entryaddr hm) = key \<longleftrightarrow> v = entryaddr hm" using inj v by (auto dest: inj_onD)
  have "members ls \<subseteq> dom (hm_entries hm)"
    using ok by (auto simp: hm_ok_def table_ok_def placed_def members_nth)
  then obtain e where e: "hm_entries hm v = Some e" and pe: "p \<noteq> 0 \<Longrightarrow> \<exists>x. hm_entries hm p = Some x" using v(1) p by blast
  show ?thesis unfolding first
    using loc v e pe by (cases "v = entryaddr hm") (auto simp: hm_v_remove_def free_entry_def)
qed

lemma hm_v_remove_absent:
  assumes "hm_rep old hm m" "key \<notin> dom m"
  shows "hm_v_remove hm key = Inr (0, hm)"
proof -
  obtain ls where ok: "hm_ok hm ls" and d: "dom m = ekey (hm_entries hm) ` members ls"
    using assms by (auto simp: hm_rep_def)
  show ?thesis using hm_locate_ok [OF ok, of key] assms(2) by (auto simp: hm_v_remove_def d)
qed

section \<open>The properties of the hash map\<close>

text \<open>C15: A new hash map, loaded with any list of at most \<open>VALUE_COUNT\<close> keys and strings of at most \<open>VALUE_SIZE\<close> bytes,
  answers every key as the list does. Of the strings given for a key the first is found where \<^verbatim>\<open>hm_v_get\<close> points: the
  \<open>VALUE_SIZE\<close> bytes there are the string, without a terminator, and behind it what the block of the values held when it was
  allocated. \<^verbatim>\<open>hm_v_get\<close> answers null for every other key, and \<^verbatim>\<open>hm_v_count\<close> is the number of keys.
\<close>

theorem hashmap_first_insert_wins:
  assumes rand: "rand n \<noteq> 0" and blocks: "ea \<noteq> 0" "va \<noteq> 0"
    and vals: "\<And>k v. (k, v) \<in> set kvs \<Longrightarrow> fits_value v" and len: "length kvs \<le> VALUE_COUNT"
  shows "\<exists>hm hm'. hm_v_create rand True True (Some (ea, old)) (Some (va, oldb)) args = Inr hm \<and>
    put_all hm_put kvs hm = Inr hm' \<and> (\<forall>key. hm_got oldb hm' key (map_of kvs key)) \<and>
    unat (hm_v_count hm') = card (dom (map_of kvs))"
proof -
  obtain hm where hm: "hm_v_create rand True True (Some (ea, old)) (Some (va, oldb)) args = Inr hm" "hm_rep oldb hm Map.empty"
    using hm_v_create_rep [of rand n ea va, OF rand blocks] by blast
  have "\<exists>s'. put_all hm_put kvs hm = Inr s' \<and> hm_rep oldb s' (map_of kvs) \<and> (\<forall>k. hm_got oldb s' k (map_of kvs k))"
    by (rule hm.put_all_got [OF hm(2)]) (use vals len in \<open>auto simp: VALUE_COUNT_def\<close>)
  then show ?thesis using hm(1) hm_rep_count(2) by force
qed

theorem hashmap_first_insert_wins_witness:
  "\<exists>hm hm'. hm_v_create (\<lambda>n. if n = 0 then 0 else 3) True True
      (Some (64, \<lambda>_. \<lparr>e_key = 9, e_value = 9, e_next = 9\<rparr>)) (Some (200000, \<lambda>_. 77)) None = Inr hm \<and>
    put_all hm_put [(5, [104, 105]), (6, []), (5, [111])] hm = Inr hm' \<and>
    hm_got (\<lambda>_. 77) hm' 5 (Some [104, 105]) \<and> hm_got (\<lambda>_. 77) hm' 6 (Some []) \<and> hm_got (\<lambda>_. 77) hm' 7 None \<and> unat (hm_v_count hm') = 2"
proof -
  let ?kvs = "[(5, [104, 105]), (6, []), (5, [111])] :: (u64 \<times> byte list) list"
  have f: "fits_value v" if v: "(k, v) \<in> set ?kvs" for k v using v by (auto simp: fits_value_def VALUE_SIZE_def)
  have l: "length ?kvs \<le> VALUE_COUNT" by (simp add: VALUE_COUNT_def)
  obtain hm hm' where r: "hm_v_create (\<lambda>n. if n = 0 then 0 else 3) True True
      (Some (64, \<lambda>_. \<lparr>e_key = 9, e_value = 9, e_next = 9\<rparr>)) (Some (200000, \<lambda>_. 77)) None = Inr hm"
    "put_all hm_put ?kvs hm = Inr hm'" "\<forall>key. hm_got (\<lambda>_. 77) hm' key (map_of ?kvs key)"
    "unat (hm_v_count hm') = card (dom (map_of ?kvs))"
    using hashmap_first_insert_wins [of "\<lambda>n. if n = 0 then 0 else 3" 1 64 200000 ?kvs, OF _ _ _ f l] by fastforce
  have "hm_got (\<lambda>_. 77) hm' 5 (Some [104, 105])" using spec [OF r(3), of 5] by simp
  moreover have "hm_got (\<lambda>_. 77) hm' 6 (Some [])" using spec [OF r(3), of 6] by simp
  moreover have "hm_got (\<lambda>_. 77) hm' 7 None" using spec [OF r(3), of 7] by simp
  moreover have "dom (map_of ?kvs) = {5, 6}" by (auto simp: dom_map_of_conv_image_fst)
  ultimately show ?thesis using r by auto
qed

text \<open>C16: Rebuilding a hash map with any number of buckets, 0 standing for the present number, moves every entry to the
  bucket of its key and changes no binding: the map stands for the same keys and strings, and lookups answer the same.
\<close>

theorem rebuild_keeps_map:
  assumes rep: "hm_rep old hm m" and len: "unat new_len < 2 ^ 61 - 1"
  shows "\<exists>hm'. hm_v_rebuild True hm new_len = Inr hm' \<and> hm_rep old hm' m \<and>
    nbuckets (hm_buckets hm') = (if new_len = 0 then nbuckets (hm_buckets hm) else new_len) \<and>
    (\<forall>key. hm_v_lookup hm' key = hm_v_lookup hm key \<and> hm_got old hm' key (m key))"
proof -
  obtain hm' where h: "hm_v_rebuild True hm new_len = Inr hm'" "hm_rep old hm' m"
    "nbuckets (hm_buckets hm') = (if new_len = 0 then nbuckets (hm_buckets hm) else new_len)"
    using hm_v_rebuild_rep [OF assms] by blast
  have "hm_v_lookup hm' key = hm_v_lookup hm key" for key
    using hm_v_lookup_rep [OF rep] hm_v_lookup_rep [OF h(2)] by simp
  then show ?thesis using h hm.get_rep [OF h(2)] by blast
qed

text \<open>A map with one binding, for the witnesses.\<close>

lemma one_binding:
  "\<exists>hm. and_then (hm_v_create (\<lambda>n. 3) True True (Some (64, \<lambda>_. \<lparr>e_key = 9, e_value = 9, e_next = 9\<rparr>)) (Some (200000, \<lambda>_. 77)) None)
      (hm_put 5 [104, 105]) = Inr hm \<and> hm_rep (\<lambda>_. 77) hm [5 \<mapsto> [104, 105]] \<and> ekey (hm_entries hm) (entryaddr hm) = 5"
proof -
  obtain h0 where h0: "hm_v_create (\<lambda>n. 3) True True (Some (64, \<lambda>_. \<lparr>e_key = 9, e_value = 9, e_next = 9\<rparr>)) (Some (200000, \<lambda>_. 77)) None = Inr h0"
    "hm_rep (\<lambda>_. 77) h0 Map.empty" "hm_v_count h0 = 0"
    using hm_v_create_rep [of "\<lambda>n. 3" 0 64 200000] by fastforce
  obtain ls where ok: "hm_ok h0 ls" "members ls = {}" using h0(2) by (auto simp: hm_rep_def)
  have s: "strlen [104, 105] = 2" "take 2 [104, 105 :: byte] = [104, 105]" by (simp_all add: strlen_def)
  have c: "unat (hm_count h0) = 0" using h0(3) by (simp add: hm_v_count_def)
  have "hm_v_insert h0 ve 5 [104, 105] = Inr (0, inserted h0 5 [104, 105], entry_of h0 5)" for ve
    using hm_v_insert_run [OF ok(1), of 5 "[104, 105]" ve] ok(2) c s by (simp add: VALUE_COUNT_def VALUE_SIZE_def)
  moreover have "hm_rep (\<lambda>_. 77) (inserted h0 5 [104, 105]) [5 \<mapsto> [104, 105]]"
    using inserted_rep [OF h0(2), of 5 "[104, 105]"] c by (simp add: VALUE_COUNT_def VALUE_SIZE_def)
  moreover have "ekey (hm_entries (inserted h0 5 [104, 105])) (entryaddr (inserted h0 5 [104, 105])) = 5"
    by (simp add: inserted_def Let_def ekey_def slot_def c entry_of_def)
  ultimately show ?thesis using h0(1) by (simp add: hm_put_def)
qed

theorem rebuild_keeps_map_witness:
  "\<exists>hm hm'. hm_rep (\<lambda>_. 77) hm [5 \<mapsto> [104, 105]] \<and> hm_v_rebuild True hm 7 = Inr hm' \<and> nbuckets (hm_buckets hm') = 7 \<and>
    hm_got (\<lambda>_. 77) hm' 5 (Some [104, 105]) \<and> hm_got (\<lambda>_. 77) hm' 6 None"
proof -
  obtain hm where hm: "hm_rep (\<lambda>_. 77) hm [5 \<mapsto> [104, 105]]" using one_binding by blast
  then obtain hm' where h: "hm_v_rebuild True hm 7 = Inr hm'" "nbuckets (hm_buckets hm') = 7"
    "\<forall>key. hm_got (\<lambda>_. 77) hm' key ([5 \<mapsto> [104, 105]] key)"
    using rebuild_keeps_map [OF hm, of 7] by auto
  from spec [OF h(3), of 5] spec [OF h(3), of 6] hm h show ?thesis by auto
qed

text \<open>C38: Removing a key that is bound never leaves a usable map. For the entry inserted first, \<^verbatim>\<open>free\<close> is handed the
  whole array, with every other entry still linked; for every other entry it is handed an address inside the array.
  A key that is not bound is answered null, with the map unchanged.
\<close>

theorem remove_breaks_map:
  assumes rep: "hm_rep old hm m"
  shows "if key \<notin> dom m then hm_v_remove hm key = Inr (0, hm)
    else if ekey (hm_entries hm) (entryaddr hm) = key
    then \<exists>p hm'. hm_v_remove hm key = Inr (p, hm') \<and> hm_entries hm' = Map.empty
    else hm_v_remove hm key = Inl BadCall"
  using hm_v_remove_present [OF rep, of key] hm_v_remove_absent [OF rep] by simp

theorem remove_breaks_map_witness:
  "\<exists>hm p hm'. hm_rep (\<lambda>_. 77) hm [5 \<mapsto> [104, 105]] \<and> hm_v_remove hm 6 = Inr (0, hm) \<and>
    hm_v_remove hm 5 = Inr (p, hm') \<and> hm_entries hm' = Map.empty"
proof -
  obtain hm where hm: "hm_rep (\<lambda>_. 77) hm [5 \<mapsto> [104, 105]]" "ekey (hm_entries hm) (entryaddr hm) = 5" using one_binding by blast
  show ?thesis using hm remove_breaks_map [OF hm(1), of 5] remove_breaks_map [OF hm(1), of 6] by auto
qed

text \<open>C39: A callback that always answers 0 is called once for each key of the map, whatever its argument, and
  \<^verbatim>\<open>hm_v_foreach\<close> answers 0.
\<close>

theorem foreach_visits_each_key_once:
  assumes rep: "hm_rep old hm m" and zero: "\<And>k p a. fst (cb k p a) = 0"
  shows "\<exists>xs. distinct (map fst xs) \<and> set (map fst xs) = dom m \<and>
    hm_v_foreach hm cb arg = Inr (0, fold (\<lambda>(k, p) a. snd (cb k p a)) xs arg)"
proof -
  obtain xs where "distinct (map fst xs)" "set (map fst xs) = dom m"
    "\<forall>cb arg. (\<forall>k p a. fst (cb k p a) = 0) \<longrightarrow>
      hm_v_foreach hm cb arg = Inr (0, fold (\<lambda>(k, p) a. snd (cb k p a)) xs (arg :: 'a))"
    using foreach_visits [OF rep, where 'a = 'a] by auto
  then show ?thesis using zero by (intro exI [of _ xs]) simp
qed

theorem foreach_visits_each_key_once_witness:
  "\<exists>hm. hm_rep (\<lambda>_. 77) hm [5 \<mapsto> [104, 105]] \<and> hm_v_foreach hm (\<lambda>k p ks. (0, ks @ [k])) [] = Inr (0, [5])"
proof -
  obtain hm where hm: "hm_rep (\<lambda>_. 77) hm [5 \<mapsto> [104, 105]]" using one_binding by blast
  obtain xs :: "(u64 \<times> addr) list" where xs: "distinct (map fst xs)" "set (map fst xs) = {5}"
    "hm_v_foreach hm (\<lambda>k p ks. (0, ks @ [k])) [] = Inr (0, fold (\<lambda>(k, p) a. a @ [k]) xs [])"
    using foreach_visits_each_key_once [OF hm, of "\<lambda>k p ks. (0, ks @ [k])" "[] :: u64 list"] by auto
  have "length xs = 1" using distinct_card [OF xs(1)] xs(2) by simp
  then obtain x where "xs = [x]" by (cases xs) auto
  then show ?thesis using hm xs(2,3) by (cases x) auto
qed

end
