(* ===== verification/RbTree.thy ===== *)
theory RbTree
  imports MapContract
begin

text \<open>
  The red-black tree of the Clobber-NVM benchmarks (\<^verbatim>\<open>clobber-nvm/apps/rbtree/rbtree.c\<close>): nodes with parent
  pointers in a store from addresses to nodes, 0 being the null pointer. An access through an address without a node
  is \<open>NullDeref\<close>, a failed \<^verbatim>\<open>assert\<close> is \<open>AssertFailed\<close>, and a loop that does not end is \<open>Diverges\<close>. Each operation
  runs alone, so taking and releasing the locks of the tree and of its nodes has no effect. The buffer that \<^verbatim>\<open>data\<close>
  points to belongs to its node and is kept in it.
\<close>

section \<open>The data\<close>

datatype rb_color = RB_BLACK | RB_RED

record rbtree_node =
  n_parent :: addr
  n_left :: addr
  n_right :: addr
  n_color :: rb_color
  n_key :: u64
  n_data :: "byte list"

type_synonym rb_store = "addr \<rightharpoonup> rbtree_node"

record rbtree =
  rb_root :: addr
  rb_compare :: "u64 \<Rightarrow> u64 \<Rightarrow> int"
  rb_nodes :: rb_store

text \<open>The block \<^verbatim>\<open>malloc\<close> returns for a node, with what it held before; \<open>None\<close> is the null pointer.\<close>

type_synonym rb_malloc = "rb_store \<Rightarrow> (addr \<times> rbtree_node) option"

definition node_at :: "rbtree \<Rightarrow> addr \<Rightarrow> rbtree_node outcome" where
  "node_at T a = (case rb_nodes T a of None \<Rightarrow> Inl NullDeref | Some n \<Rightarrow> Inr n)"

definition upd_node :: "addr \<Rightarrow> (rbtree_node \<Rightarrow> rbtree_node) \<Rightarrow> rbtree \<Rightarrow> rbtree outcome" where
  "upd_node a f T = and_then (node_at T a) (\<lambda>n. Inr (T\<lparr>rb_nodes := (rb_nodes T)(a \<mapsto> f n)\<rparr>))"

text \<open>The result of a loop, \<open>None\<close> when it does not end.\<close>

definition loop :: "'a outcome option \<Rightarrow> 'a outcome" where
  "loop r = (case r of None \<Rightarrow> Inl Diverges | Some x \<Rightarrow> x)"

section \<open>Fields of a node\<close>

definition get_color :: "rbtree \<Rightarrow> addr \<Rightarrow> rb_color outcome" where
  "get_color T node = (if node = 0 then Inr RB_BLACK else and_then (node_at T node) (\<lambda>n. Inr (n_color n)))"

definition set_color :: "rb_color \<Rightarrow> addr \<Rightarrow> rbtree \<Rightarrow> rbtree outcome" where
  "set_color c node T = check (node \<noteq> 0) (upd_node node (\<lambda>n. n\<lparr>n_color := c\<rparr>) T)"

definition get_parent :: "rbtree \<Rightarrow> addr \<Rightarrow> addr outcome" where
  "get_parent T node = check (node \<noteq> 0) (and_then (node_at T node) (\<lambda>n. Inr (n_parent n)))"

definition set_parent :: "addr \<Rightarrow> addr \<Rightarrow> rbtree \<Rightarrow> rbtree outcome" where
  "set_parent parent node T = check (node \<noteq> 0) (upd_node node (\<lambda>n. n\<lparr>n_parent := parent\<rparr>) T)"

definition is_root :: "rbtree \<Rightarrow> addr \<Rightarrow> bool outcome" where
  "is_root T node = check (node \<noteq> 0) (and_then (get_parent T node) (\<lambda>p. Inr (p = 0)))"

definition sibling :: "rbtree \<Rightarrow> addr \<Rightarrow> addr outcome" where
  "sibling T node =
    check (node \<noteq> 0) (and_then (node_at T node) (\<lambda>n.
    check (n_parent n \<noteq> 0) (and_then (node_at T (n_parent n)) (\<lambda>p.
      Inr (if node = n_left p then n_right p else n_left p)))))"

section \<open>Minimum, maximum, neighbours\<close>

partial_function (option) min_loop :: "rbtree \<Rightarrow> addr \<Rightarrow> addr outcome option" where
  "min_loop T node =
    (case node_at T node of Inl e \<Rightarrow> Some (Inl e)
     | Inr n \<Rightarrow> if n_left n \<noteq> 0 then min_loop T (n_left n) else Some (Inr node))"

partial_function (option) max_loop :: "rbtree \<Rightarrow> addr \<Rightarrow> addr outcome option" where
  "max_loop T node =
    (case node_at T node of Inl e \<Rightarrow> Some (Inl e)
     | Inr n \<Rightarrow> if n_right n \<noteq> 0 then max_loop T (n_right n) else Some (Inr node))"

definition get_min :: "rbtree \<Rightarrow> addr \<Rightarrow> addr outcome" where
  "get_min T node = check (node \<noteq> 0) (loop (min_loop T node))"

definition get_max :: "rbtree \<Rightarrow> addr \<Rightarrow> addr outcome" where
  "get_max T node = check (node \<noteq> 0) (loop (max_loop T node))"

definition rbtree_min :: "rbtree \<Rightarrow> addr outcome" where
  "rbtree_min T = (if rb_root T = 0 then Inr 0 else get_min T (rb_root T))"

definition rbtree_max :: "rbtree \<Rightarrow> addr outcome" where
  "rbtree_max T = (if rb_root T = 0 then Inr 0 else get_max T (rb_root T))"

text \<open>The loops that climb while the node is the left, or the right, child of its parent.\<close>

partial_function (option) prev_climb :: "rbtree \<Rightarrow> addr \<Rightarrow> addr outcome option" where
  "prev_climb T node =
    (case get_parent T node of Inl e \<Rightarrow> Some (Inl e)
     | Inr parent \<Rightarrow>
        if parent = 0 then Some (Inr parent)
        else case node_at T parent of Inl e \<Rightarrow> Some (Inl e)
             | Inr p \<Rightarrow> if n_left p = node then prev_climb T parent else Some (Inr parent))"

partial_function (option) next_climb :: "rbtree \<Rightarrow> addr \<Rightarrow> addr outcome option" where
  "next_climb T node =
    (case get_parent T node of Inl e \<Rightarrow> Some (Inl e)
     | Inr parent \<Rightarrow>
        if parent = 0 then Some (Inr parent)
        else case node_at T parent of Inl e \<Rightarrow> Some (Inl e)
             | Inr p \<Rightarrow> if n_right p = node then next_climb T parent else Some (Inr parent))"

definition rbtree_prev :: "rbtree \<Rightarrow> addr \<Rightarrow> addr outcome" where
  "rbtree_prev T node =
    check (node \<noteq> 0) (and_then (node_at T node) (\<lambda>n.
      if n_left n \<noteq> 0 then get_max T (n_left n) else loop (prev_climb T node)))"

definition rbtree_next :: "rbtree \<Rightarrow> addr \<Rightarrow> addr outcome" where
  "rbtree_next T node =
    check (node \<noteq> 0) (and_then (node_at T node) (\<lambda>n.
      if n_right n \<noteq> 0 then get_min T (n_right n) else loop (next_climb T node)))"

section \<open>Creation and lookup\<close>

text \<open>\<open>got\<close> tells if the buffer of the data was allocated; its terminator is copied with it.\<close>

definition rbtree_createnode :: "rb_malloc \<Rightarrow> bool \<Rightarrow> u64 \<Rightarrow> byte list \<Rightarrow> rb_store \<Rightarrow> (addr \<times> rb_store) outcome" where
  "rbtree_createnode malloc got key data st =
    (case malloc st of None \<Rightarrow> Inr (0, st)
     | Some (newnode, old) \<Rightarrow>
        if \<not> got then Inl NullDeref
        else Inr (newnode, st(newnode \<mapsto>
          old\<lparr>n_key := key, n_data := take (strlen data) data @ [0], n_parent := 0, n_left := 0, n_right := 0\<rparr>)))"

definition compare :: "u64 \<Rightarrow> u64 \<Rightarrow> int" where
  "compare key_a key_b = (if key_a > key_b then 1 else if key_a = key_b then 0 else - 1)"

text \<open>The node found, or null, and what is left in \<^verbatim>\<open>*pparent\<close>.\<close>

partial_function (option) lookup_loop :: "u64 \<Rightarrow> rbtree \<Rightarrow> addr \<Rightarrow> addr \<Rightarrow> (addr \<times> addr) outcome option" where
  "lookup_loop key T current pparent =
    (if current = 0 then Some (Inr (0, pparent))
     else case node_at T current of Inl e \<Rightarrow> Some (Inl e)
          | Inr n \<Rightarrow>
              if rb_compare T (n_key n) key = 0 then Some (Inr (current, pparent))
              else lookup_loop key T (if rb_compare T (n_key n) key < 0 then n_right n else n_left n) current)"

definition do_lookup :: "u64 \<Rightarrow> rbtree \<Rightarrow> addr \<Rightarrow> (addr \<times> addr) outcome" where
  "do_lookup key T pparent = loop (lookup_loop key T (rb_root T) pparent)"

definition rbtree_lookup :: "rbtree \<Rightarrow> u64 \<Rightarrow> byte list option outcome" where
  "rbtree_lookup T key =
    and_then (do_lookup key T 0) (\<lambda>(node, _).
      if node = 0 then Inr None else and_then (node_at T node) (\<lambda>n. Inr (Some (n_data n))))"

definition rbtree_init :: "bool \<Rightarrow> (u64 \<Rightarrow> u64 \<Rightarrow> int) \<Rightarrow> rbtree option" where
  "rbtree_init got cmp = (if got then Some \<lparr>rb_root = 0, rb_compare = cmp, rb_nodes = Map.empty\<rparr> else None)"

section \<open>Linking and rotating\<close>

definition set_child :: "addr \<Rightarrow> addr \<Rightarrow> rbtree \<Rightarrow> rbtree outcome" where
  "set_child node child T =
    and_then (node_at T node) (\<lambda>n. and_then (node_at T child) (\<lambda>c.
      let ret = rb_compare T (n_key n) (n_key c)
      in check (ret \<noteq> 0)
          (if ret > 0 then upd_node node (\<lambda>n. n\<lparr>n_left := child\<rparr>) T
           else upd_node node (\<lambda>n. n\<lparr>n_right := child\<rparr>) T)))"

text \<open>Putting \<open>q\<close> where the child \<open>p\<close> of \<open>parent\<close> was.\<close>

definition relink :: "addr \<Rightarrow> addr \<Rightarrow> addr \<Rightarrow> rbtree \<Rightarrow> rbtree outcome" where
  "relink parent p q T =
    (if parent = 0 then Inr (T\<lparr>rb_root := q\<rparr>)
     else upd_node parent (\<lambda>n. if n_left n = p then n\<lparr>n_left := q\<rparr> else n\<lparr>n_right := q\<rparr>) T)"

definition rotate_left :: "addr \<Rightarrow> rbtree \<Rightarrow> rbtree outcome" where
  "rotate_left p T =
    and_then (node_at T p) (\<lambda>pn. let q = n_right pn; parent = n_parent pn in
    and_then (relink parent p q T) (\<lambda>T.
    and_then (set_parent parent q T) (\<lambda>T.
    and_then (set_parent q p T) (\<lambda>T.
    and_then (node_at T q) (\<lambda>qn.
    and_then (upd_node p (\<lambda>n. n\<lparr>n_right := n_left qn\<rparr>) T) (\<lambda>T.
    and_then (node_at T q) (\<lambda>qn.
    and_then (if n_left qn \<noteq> 0 then set_parent p (n_left qn) T else Inr T) (\<lambda>T.
      upd_node q (\<lambda>n. n\<lparr>n_left := p\<rparr>) T))))))))"

definition rotate_right :: "addr \<Rightarrow> rbtree \<Rightarrow> rbtree outcome" where
  "rotate_right p T =
    and_then (node_at T p) (\<lambda>pn. let q = n_left pn in
    and_then (get_parent T p) (\<lambda>parent.
    and_then (is_root T p) (\<lambda>root.
    and_then (if \<not> root then upd_node parent (\<lambda>n. if n_left n = p then n\<lparr>n_left := q\<rparr> else n\<lparr>n_right := q\<rparr>) T
              else Inr (T\<lparr>rb_root := q\<rparr>)) (\<lambda>T.
    and_then (set_parent parent q T) (\<lambda>T.
    and_then (set_parent q p T) (\<lambda>T.
    and_then (node_at T q) (\<lambda>qn.
    and_then (upd_node p (\<lambda>n. n\<lparr>n_left := n_right qn\<rparr>) T) (\<lambda>T.
    and_then (node_at T p) (\<lambda>pn.
    and_then (if n_left pn \<noteq> 0 then set_parent p (n_left pn) T else Inr T) (\<lambda>T.
      upd_node q (\<lambda>n. n\<lparr>n_right := p\<rparr>) T))))))))))"

definition replace_node :: "addr \<Rightarrow> addr \<Rightarrow> rbtree \<Rightarrow> rbtree outcome" where
  "replace_node oldn newn T =
    and_then (node_at T oldn) (\<lambda>old.
    and_then (relink (n_parent old) oldn newn T) (\<lambda>T.
      if newn \<noteq> 0
      then and_then (node_at T oldn) (\<lambda>old. upd_node newn (\<lambda>n. n\<lparr>n_parent := n_parent old\<rparr>) T)
      else Inr T))"

section \<open>Insertion\<close>

text \<open>
  The body of the loop of \<^verbatim>\<open>__rbtree_insert\<close>, its two mirror images: \<open>grandpa\<close> is the parent of \<open>parent\<close>, and the
  result is the node the next round starts from.
\<close>

definition recolor :: "addr \<Rightarrow> addr \<Rightarrow> addr \<Rightarrow> rbtree \<Rightarrow> rbtree outcome" where
  "recolor grandpa parent uncle T =
    and_then (set_color RB_RED grandpa T) (\<lambda>T. and_then (set_color RB_BLACK parent T) (set_color RB_BLACK uncle))"

definition fix_left :: "addr \<Rightarrow> addr \<Rightarrow> addr \<Rightarrow> rbtree \<Rightarrow> (addr \<times> rbtree) outcome" where
  "fix_left node parent grandpa T =
    and_then (node_at T grandpa) (\<lambda>g. let uncle = n_right g in
    and_then (if uncle = 0 then Inr False else and_then (get_color T uncle) (\<lambda>c. Inr (c = RB_RED))) (\<lambda>red.
      if red then and_then (recolor grandpa parent uncle T) (\<lambda>T. Inr (grandpa, T))
      else
        and_then (node_at T parent) (\<lambda>p.
        and_then
          (if node = n_right p
           then and_then (rotate_left parent T) (\<lambda>T. and_then (get_parent T parent) (\<lambda>parent'. Inr (parent, parent', T)))
           else Inr (node, parent, T)) (\<lambda>(node, parent, T).
        and_then (set_color RB_BLACK parent T) (\<lambda>T.
        and_then (set_color RB_RED grandpa T) (\<lambda>T.
        and_then (rotate_right grandpa T) (\<lambda>T. Inr (node, T))))))))"

definition fix_right :: "addr \<Rightarrow> addr \<Rightarrow> addr \<Rightarrow> rbtree \<Rightarrow> (addr \<times> rbtree) outcome" where
  "fix_right node parent grandpa T =
    and_then (node_at T grandpa) (\<lambda>g. let uncle = n_left g in
    and_then (if uncle = 0 then Inr False else and_then (node_at T uncle) (\<lambda>u. Inr (n_color u = RB_RED))) (\<lambda>red.
      if red then and_then (recolor grandpa parent uncle T) (\<lambda>T. Inr (grandpa, T))
      else
        and_then (node_at T parent) (\<lambda>p.
        and_then
          (if node = n_left p
           then and_then (rotate_right parent T) (\<lambda>T. and_then (get_parent T parent) (\<lambda>parent'. Inr (parent, parent', T)))
           else Inr (node, parent, T)) (\<lambda>(node, parent, T).
        and_then (set_color RB_BLACK parent T) (\<lambda>T.
        and_then (set_color RB_RED grandpa T) (\<lambda>T.
        and_then (rotate_left grandpa T) (\<lambda>T. Inr (node, T))))))))"

text \<open>One round of the loop: \<open>Inr (None, T)\<close> when its condition fails.\<close>

definition fix_step :: "addr \<Rightarrow> rbtree \<Rightarrow> (addr option \<times> rbtree) outcome" where
  "fix_step node T =
    and_then (get_parent T node) (\<lambda>parent.
      if parent = 0 then Inr (None, T)
      else and_then (node_at T parent) (\<lambda>p.
        if n_color p \<noteq> RB_RED then Inr (None, T)
        else
          and_then (get_parent T parent) (\<lambda>grandpa.
          and_then (node_at T grandpa) (\<lambda>g.
          and_then (if parent = n_left g then fix_left node parent grandpa T else fix_right node parent grandpa T) (\<lambda>(node, T).
            Inr (Some node, T))))))"

partial_function (option) fix_loop :: "addr \<Rightarrow> rbtree \<Rightarrow> rbtree outcome option" where
  "fix_loop node T =
    (case fix_step node T of Inl e \<Rightarrow> Some (Inl e)
     | Inr r \<Rightarrow> (case fst r of None \<Rightarrow> Some (Inr (snd r)) | Some node' \<Rightarrow> fix_loop node' (snd r)))"

text \<open>The node with the same key, or null.\<close>

definition insert_node :: "addr \<Rightarrow> rbtree \<Rightarrow> (addr \<times> rbtree) outcome" where
  "insert_node node T =
    and_then (node_at T node) (\<lambda>n.
    and_then (do_lookup (n_key n) T 0) (\<lambda>(samenode, parent).
      if samenode \<noteq> 0 then Inr (samenode, T)
      else
        and_then (upd_node node (\<lambda>n. n\<lparr>n_left := 0, n_right := 0\<rparr>) T) (\<lambda>T.
        and_then (set_color RB_RED node T) (\<lambda>T.
        and_then (set_parent parent node T) (\<lambda>T.
        and_then (if parent = 0 then Inr (T\<lparr>rb_root := node\<rparr>) else set_child parent node T) (\<lambda>T.
        and_then (loop (fix_loop node T)) (\<lambda>T.
        and_then (set_color RB_BLACK (rb_root T) T) (\<lambda>T. Inr (0, T)))))))))"

definition rbtree_insert :: "rb_malloc \<Rightarrow> bool \<Rightarrow> rbtree \<Rightarrow> u64 \<Rightarrow> byte list \<Rightarrow> (int \<times> rbtree) outcome" where
  "rbtree_insert malloc got T key data =
    and_then (rbtree_createnode malloc got key data (rb_nodes T)) (\<lambda>(node, st).
      if node = 0 then Inr (- 1, T)
      else and_then (insert_node node (T\<lparr>rb_nodes := st\<rparr>)) (\<lambda>(samenode, T).
        Inr (if samenode \<noteq> 0 then - 2 else 0, T)))"

text \<open>The buffer of the node keeps its size; more bytes than it has are written behind it.\<close>

definition rbtree_update :: "rbtree \<Rightarrow> u64 \<Rightarrow> byte list \<Rightarrow> (int \<times> rbtree) outcome" where
  "rbtree_update T key data =
    and_then (do_lookup key T 0) (\<lambda>(samenode, _).
      if samenode = 0 then Inr (0, T)
      else and_then (node_at T samenode) (\<lambda>n.
        if length (n_data n) < strlen data + 1 then Inl BadCall
        else and_then (upd_node samenode
            (\<lambda>n. n\<lparr>n_data := take (strlen data) data @ [0] @ drop (strlen data + 1) (n_data n)\<rparr>) T) (\<lambda>T. Inr (0, T))))"

section \<open>The entry points\<close>

text \<open>The characters are signed: one is extended to an \<^verbatim>\<open>int\<close> and then to 64 bits.\<close>

definition str_hash :: "byte list \<Rightarrow> u64" where
  "str_hash str = fold (\<lambda>c h. (push_bit 5 h + h) + scast c) (take (strlen str) str) 5381"

definition rbtreeCreate :: "bool \<Rightarrow> rbtree option" where
  "rbtreeCreate got = rbtree_init got compare"

definition rbtreeDestroy :: "rbtree \<Rightarrow> rbtree" where
  "rbtreeDestroy T = T"

definition doInsert :: "rb_malloc \<Rightarrow> bool \<Rightarrow> rbtree \<Rightarrow> byte list \<Rightarrow> byte list \<Rightarrow> rbtree outcome" where
  "doInsert malloc got T key val = and_then (rbtree_insert malloc got T (str_hash key) val) (\<lambda>(_, T). Inr T)"

definition doUpdate :: "rbtree \<Rightarrow> byte list \<Rightarrow> byte list \<Rightarrow> rbtree outcome" where
  "doUpdate T key val = and_then (rbtree_update T (str_hash key) val) (\<lambda>(_, T). Inr T)"

text \<open>The pointer found is assigned to the parameter \<^verbatim>\<open>value\<close>; the buffer of the caller, the result here, stays.\<close>

definition doRead :: "rbtree \<Rightarrow> byte list \<Rightarrow> byte list \<Rightarrow> byte list outcome" where
  "doRead T key val = and_then (rbtree_lookup T (str_hash key)) (\<lambda>treeval. Inr val)"

end
