(* ===== verification/RbTreeShape.thy ===== *)
theory RbTreeShape
  imports RbTree
begin

text \<open>
  The tree a store of nodes holds. A position in a tree is a subtree and the path of frames above it; an operation of
  \<^verbatim>\<open>rbtree.c\<close> changes a subtree and leaves the frames, which is what the lemmas of this theory say of recolouring,
  linking, rotating, searching and stepping to a neighbour.
\<close>

section \<open>Trees and paths\<close>

datatype rbt = Leaf | Node rb_color rbt addr u64 "byte list" rbt

datatype frame = InLeft rb_color addr u64 "byte list" rbt | InRight rb_color rbt addr u64 "byte list"

fun ptr :: "rbt \<Rightarrow> addr" where
  "ptr Leaf = 0"
| "ptr (Node c l a k d r) = a"

fun plug :: "rbt \<Rightarrow> frame list \<Rightarrow> rbt" where
  "plug t [] = t"
| "plug t (InLeft c a k d r # fs) = plug (Node c t a k d r) fs"
| "plug t (InRight c l a k d # fs) = plug (Node c l a k d t) fs"

fun upward :: "frame list \<Rightarrow> addr" where
  "upward [] = 0"
| "upward (InLeft c a k d r # fs) = a"
| "upward (InRight c l a k d # fs) = a"

fun addrs :: "rbt \<Rightarrow> addr list" where
  "addrs Leaf = []"
| "addrs (Node c l a k d r) = addrs l @ a # addrs r"

text \<open>The addresses before and after the hole of a path, in order.\<close>

fun befores :: "frame list \<Rightarrow> addr list" where
  "befores [] = []"
| "befores (InLeft c a k d r # fs) = befores fs"
| "befores (InRight c l a k d # fs) = befores fs @ addrs l @ [a]"

fun afters :: "frame list \<Rightarrow> addr list" where
  "afters [] = []"
| "afters (InLeft c a k d r # fs) = a # addrs r @ afters fs"
| "afters (InRight c l a k d # fs) = afters fs"

fun entries :: "rbt \<Rightarrow> (u64 \<times> byte list) list" where
  "entries Leaf = []"
| "entries (Node c l a k d r) = entries l @ (k, d) # entries r"

fun before_entries :: "frame list \<Rightarrow> (u64 \<times> byte list) list" where
  "before_entries [] = []"
| "before_entries (InLeft c a k d r # fs) = before_entries fs"
| "before_entries (InRight c l a k d # fs) = before_entries fs @ entries l @ [(k, d)]"

fun after_entries :: "frame list \<Rightarrow> (u64 \<times> byte list) list" where
  "after_entries [] = []"
| "after_entries (InLeft c a k d r # fs) = (k, d) # entries r @ after_entries fs"
| "after_entries (InRight c l a k d # fs) = after_entries fs"

lemma addrs_plug: "addrs (plug t fs) = befores fs @ addrs t @ afters fs"
  by (induction t fs rule: plug.induct) simp_all

lemma entries_plug: "entries (plug t fs) = before_entries fs @ entries t @ after_entries fs"
  by (induction t fs rule: plug.induct) simp_all

lemma plug_append: "plug t (fs @ gs) = plug (plug t fs) gs"
  by (induction t fs rule: plug.induct) simp_all

lemma upward_in: "fs \<noteq> [] \<Longrightarrow> upward fs \<in> set (befores fs) \<union> set (afters fs)"
  by (cases fs rule: upward.cases) simp_all

section \<open>Trees in a store\<close>

fun holds :: "rb_store \<Rightarrow> addr \<Rightarrow> rbt \<Rightarrow> bool" where
  "holds st par Leaf \<longleftrightarrow> True"
| "holds st par (Node c l a k d r) \<longleftrightarrow> a \<noteq> 0 \<and>
    st a = Some \<lparr>n_parent = par, n_left = ptr l, n_right = ptr r, n_color = c, n_key = k, n_data = d\<rparr> \<and>
    holds st a l \<and> holds st a r"

fun holds_path :: "rb_store \<Rightarrow> addr \<Rightarrow> frame list \<Rightarrow> bool" where
  "holds_path st p [] \<longleftrightarrow> True"
| "holds_path st p (InLeft c a k d r # fs) \<longleftrightarrow> a \<noteq> 0 \<and>
    st a = Some \<lparr>n_parent = upward fs, n_left = p, n_right = ptr r, n_color = c, n_key = k, n_data = d\<rparr> \<and>
    holds st a r \<and> holds_path st a fs"
| "holds_path st p (InRight c l a k d # fs) \<longleftrightarrow> a \<noteq> 0 \<and>
    st a = Some \<lparr>n_parent = upward fs, n_left = ptr l, n_right = p, n_color = c, n_key = k, n_data = d\<rparr> \<and>
    holds st a l \<and> holds_path st a fs"

lemma holds_plug: "holds st 0 (plug t fs) \<longleftrightarrow> holds st (upward fs) t \<and> holds_path st (ptr t) fs"
  by (induction t fs rule: plug.induct) auto

lemma holds_cong: "(\<And>a. a \<in> set (addrs t) \<Longrightarrow> st' a = st a) \<Longrightarrow> holds st' par t = holds st par t"
  by (induction t arbitrary: par) auto

lemma holds_upd [simp]: "a \<notin> set (addrs t) \<Longrightarrow> holds (st(a := x)) par t = holds st par t"
  by (rule holds_cong) auto

lemma holds_path_cong:
  "(\<And>a. a \<in> set (befores fs) \<union> set (afters fs) \<Longrightarrow> st' a = st a) \<Longrightarrow> holds_path st' p fs = holds_path st p fs"
proof (induction fs arbitrary: p)
  case (Cons f fs)
  show ?case
  proof (cases f)
    case (InLeft c a k d r)
    have "holds st' a r = holds st a r" by (rule holds_cong) (simp add: Cons.prems InLeft)
    moreover have "holds_path st' a fs = holds_path st a fs" by (rule Cons.IH, rule Cons.prems) (auto simp: InLeft)
    ultimately show ?thesis using Cons.prems InLeft by simp
  next
    case (InRight c l a k d)
    have "holds st' a l = holds st a l" by (rule holds_cong) (simp add: Cons.prems InRight)
    moreover have "holds_path st' a fs = holds_path st a fs" by (rule Cons.IH, rule Cons.prems) (auto simp: InRight)
    ultimately show ?thesis using Cons.prems InRight by simp
  qed
qed simp

lemma holds_path_upd [simp]:
  "a \<notin> set (befores fs) \<Longrightarrow> a \<notin> set (afters fs) \<Longrightarrow> holds_path (st(a := x)) p fs = holds_path st p fs"
  by (induction st p fs rule: holds_path.induct) auto

lemma holds_addrs: "holds st par t \<Longrightarrow> set (addrs t) \<subseteq> dom st - {0}"
proof (induction t arbitrary: par)
  case (Node c l a k d r)
  have "set (addrs l) \<subseteq> dom st - {0}" "set (addrs r) \<subseteq> dom st - {0}"
    using Node.IH [of a] Node.prems by simp_all
  then show ?case using Node.prems by auto
qed simp

lemma holds_path_addrs: "holds_path st p fs \<Longrightarrow> set (befores fs) \<union> set (afters fs) \<subseteq> dom st - {0}"
  by (induction st p fs rule: holds_path.induct) (auto dest!: holds_addrs)

lemma ptr_in: "t \<noteq> Leaf \<Longrightarrow> ptr t \<in> set (addrs t)"
  by (cases t) auto

definition ptr_plug :: "addr \<Rightarrow> frame list \<Rightarrow> addr" where
  "ptr_plug p fs = (if fs = [] then p else upward [last fs])"

lemma ptr_plug: "ptr (plug t fs) = ptr_plug (ptr t) fs"
  by (induction t fs rule: plug.induct) (simp_all add: ptr_plug_def)

text \<open>\<open>tree_of T t\<close>: the nodes reached from the root of \<open>T\<close> form the tree \<open>t\<close>, each with the parent pointer it should have.\<close>

definition tree_of :: "rbtree \<Rightarrow> rbt \<Rightarrow> bool" where
  "tree_of T t \<longleftrightarrow> rb_root T = ptr t \<and> holds (rb_nodes T) 0 t \<and> distinct (addrs t) \<and> finite (dom (rb_nodes T)) \<and>
    rb_nodes T 0 = None"

lemma tree_ofI_plug:
  assumes "rb_root T = ptr_plug (ptr t) fs" "holds (rb_nodes T) (upward fs) t" "holds_path (rb_nodes T) (ptr t) fs"
    "distinct (befores fs @ addrs t @ afters fs)" "finite (dom (rb_nodes T))" "rb_nodes T 0 = None"
  shows "tree_of T (plug t fs)"
  using assms by (simp add: tree_of_def ptr_plug holds_plug addrs_plug)

lemma tree_of_plugD:
  assumes "tree_of T (plug t fs)"
  shows "rb_root T = ptr_plug (ptr t) fs" "holds (rb_nodes T) (upward fs) t" "holds_path (rb_nodes T) (ptr t) fs"
    "distinct (befores fs @ addrs t @ afters fs)" "finite (dom (rb_nodes T))" "rb_nodes T 0 = None"
  using assms by (simp_all add: tree_of_def ptr_plug holds_plug addrs_plug)

lemma tree_of_node:
  assumes "tree_of T (plug (Node c l a k d r) fs)"
  shows "node_at T a = Inr \<lparr>n_parent = upward fs, n_left = ptr l, n_right = ptr r, n_color = c, n_key = k, n_data = d\<rparr>" "a \<noteq> 0"
  using tree_of_plugD(2) [OF assms] by (auto simp: node_at_def)

section \<open>Changing fields in place\<close>

text \<open>\<open>becomes r T t\<close>: an operation on \<open>T\<close> succeeds and leaves the tree \<open>t\<close>, made of the nodes there were.\<close>

definition becomes :: "rbtree outcome \<Rightarrow> rbtree \<Rightarrow> rbt \<Rightarrow> bool" where
  "becomes r T t \<longleftrightarrow> (\<exists>T'. r = Inr T' \<and> tree_of T' t \<and> rb_compare T' = rb_compare T \<and> dom (rb_nodes T') = dom (rb_nodes T))"

lemma becomes_then:
  assumes "becomes m T t" and "\<And>T'. tree_of T' t \<Longrightarrow> becomes (f T') T' t'"
  shows "becomes (and_then m f) T t'"
  using assms by (fastforce simp: becomes_def)

lemma becomes_refl: "tree_of T t \<Longrightarrow> becomes (Inr T) T t"
  by (simp add: becomes_def)

text \<open>A change of colour or data at the root of a subtree.\<close>

lemma upd_node_here:
  assumes t: "tree_of T (plug (Node c l a k d r) fs)"
    and f: "f \<lparr>n_parent = upward fs, n_left = ptr l, n_right = ptr r, n_color = c, n_key = k, n_data = d\<rparr> =
      \<lparr>n_parent = upward fs, n_left = ptr l, n_right = ptr r, n_color = c', n_key = k, n_data = d'\<rparr>"
  shows "becomes (upd_node a f T) T (plug (Node c' l a k d' r) fs)"
proof -
  note P = tree_of_plugD [OF t]
  let ?n = "\<lparr>n_parent = upward fs, n_left = ptr l, n_right = ptr r, n_color = c', n_key = k, n_data = d'\<rparr>"
  let ?T = "T\<lparr>rb_nodes := (rb_nodes T)(a \<mapsto> ?n)\<rparr>"
  have run: "upd_node a f T = Inr ?T" using tree_of_node [OF t] f by (simp add: upd_node_def)
  have "tree_of ?T (plug (Node c' l a k d' r) fs)" by (rule tree_ofI_plug) (use P in auto)
  moreover have "dom (rb_nodes ?T) = dom (rb_nodes T)" using P(2) by auto
  ultimately show ?thesis using run by (simp add: becomes_def)
qed

lemma set_color_here:
  assumes t: "tree_of T (plug (Node c l a k d r) fs)"
  shows "becomes (set_color c' a T) T (plug (Node c' l a k d r) fs)"
  using upd_node_here [OF t, of "\<lambda>n. n\<lparr>n_color := c'\<rparr>" c' d] tree_of_node(2) [OF t] by (simp add: set_color_def)

section \<open>Rotations\<close>

text \<open>Hanging another subtree into the hole of a path: the path then holds for the new pointer, and only the path changes.\<close>

lemma relink_path:
  assumes path: "holds_path (rb_nodes T) p fs" and root: "rb_root T = ptr_plug p fs" and p: "p \<noteq> 0"
    "p \<notin> set (befores fs)" "p \<notin> set (afters fs)" and d: "distinct (befores fs @ afters fs)"
  shows "\<exists>T'. relink (upward fs) p q T = Inr T' \<and> rb_root T' = ptr_plug q fs \<and> holds_path (rb_nodes T') q fs \<and>
    rb_compare T' = rb_compare T \<and> dom (rb_nodes T') = dom (rb_nodes T) \<and>
    (\<forall>a. a \<notin> set (befores fs) \<union> set (afters fs) \<longrightarrow> rb_nodes T' a = rb_nodes T a)"
proof (cases fs rule: upward.cases)
  case 1
  then show ?thesis by (simp add: relink_def ptr_plug_def)
next
  case (2 c a k dt r gs)
  then show ?thesis
    using assms by (auto simp: relink_def ptr_plug_def upd_node_def node_at_def)
next
  case (3 c l a k dt gs)
  have "ptr l \<noteq> p" using p 3 ptr_in [of l] by (cases "l = Leaf") auto
  then show ?thesis
    using assms 3 by (auto simp: relink_def ptr_plug_def upd_node_def node_at_def)
qed

lemma get_parent_here:
  "tree_of T (plug (Node c l a k d r) fs) \<Longrightarrow> get_parent T a = Inr (upward fs)"
  using tree_of_node [of T c l a k d r fs] by (simp add: get_parent_def)

text \<open>Giving a subtree another parent.\<close>

definition reparent :: "addr \<Rightarrow> rbt \<Rightarrow> rb_store \<Rightarrow> rb_store" where
  "reparent par t st = (case t of Leaf \<Rightarrow> st
    | Node c l a k d r \<Rightarrow> st(a \<mapsto> \<lparr>n_parent = par, n_left = ptr l, n_right = ptr r, n_color = c, n_key = k, n_data = d\<rparr>))"

lemma reparent_holds: "holds st par t \<Longrightarrow> distinct (addrs t) \<Longrightarrow> holds (reparent par' t st) par' t"
  by (cases t) (auto simp: reparent_def)

lemma reparent_other: "a \<notin> set (addrs t) \<Longrightarrow> reparent par t st a = st a"
  by (cases t) (auto simp: reparent_def)

lemma reparent_dom: "holds st par t \<Longrightarrow> dom (reparent par' t st) = dom st"
  by (cases t) (auto simp: reparent_def)

lemma set_parent_reparent:
  assumes "holds (rb_nodes T) par t"
  shows "(if ptr t \<noteq> 0 then set_parent par' (ptr t) T else Inr T) = Inr (T\<lparr>rb_nodes := reparent par' t (rb_nodes T)\<rparr>)"
  using assms by (cases t) (auto simp: set_parent_def upd_node_def node_at_def reparent_def)

lemma relink_here:
  assumes t: "tree_of T (plug (Node c l p k d r) fs)"
  obtains T1 where "relink (upward fs) p q T = Inr T1" "rb_root T1 = ptr_plug q fs" "holds_path (rb_nodes T1) q fs"
    "rb_compare T1 = rb_compare T" "dom (rb_nodes T1) = dom (rb_nodes T)"
    "\<And>a. a \<in> set (addrs (Node c l p k d r)) \<Longrightarrow> rb_nodes T1 a = rb_nodes T a"
proof -
  note P = tree_of_plugD [OF t]
  have "distinct (befores fs @ afters fs)" "p \<notin> set (befores fs)" "p \<notin> set (afters fs)" "p \<noteq> 0" using P(2,4) by auto
  then obtain T1 where T1: "relink (upward fs) p q T = Inr T1" "rb_root T1 = ptr_plug q fs" "holds_path (rb_nodes T1) q fs"
    "rb_compare T1 = rb_compare T" "dom (rb_nodes T1) = dom (rb_nodes T)"
    "\<forall>a. a \<notin> set (befores fs) \<union> set (afters fs) \<longrightarrow> rb_nodes T1 a = rb_nodes T a"
    using relink_path [of T p fs q] P(1,3) by auto
  have "rb_nodes T1 a = rb_nodes T a" if a: "a \<in> set (addrs (Node c l p k d r))" for a
    using T1(6) a P(4) by auto
  then show ?thesis using T1(1-5) that by blast
qed

text \<open>A tree is what it was, but for a subtree that has been rebuilt from the same nodes.\<close>

lemma tree_of_rebuilt:
  assumes t: "tree_of T (plug t fs)"
    and T1: "rb_root T1 = ptr_plug (ptr t') fs" "holds_path (rb_nodes T1) (ptr t') fs" "dom (rb_nodes T1) = dom (rb_nodes T)"
    and T': "rb_root T' = rb_root T1" "\<And>a. a \<notin> set (addrs t) \<Longrightarrow> rb_nodes T' a = rb_nodes T1 a"
      "dom (rb_nodes T') = dom (rb_nodes T1)" "holds (rb_nodes T') (upward fs) t'"
    and same: "set (addrs t') = set (addrs t)" "distinct (addrs t')"
  shows "tree_of T' (plug t' fs)"
proof -
  note P = tree_of_plugD [OF t]
  have "rb_nodes T' a = rb_nodes T1 a" if a: "a \<in> set (befores fs) \<union> set (afters fs)" for a
    by (rule T'(2)) (use a P(4) in auto)
  then have "holds_path (rb_nodes T') (ptr t') fs" using T1(2) holds_path_cong by blast
  moreover have "distinct (befores fs @ addrs t' @ afters fs)" using P(4) same by auto
  moreover have "rb_nodes T' 0 = None" using P(6) T'(3) T1(3) by (auto simp: domIff)
  ultimately show ?thesis using T1(1,3) T'(1,3,4) P(5) by (intro tree_ofI_plug) simp_all
qed

lemma rotate_left_here:
  assumes t: "tree_of T (plug (Node cp A p kp dp (Node cq B q kq dq C)) fs)"
  shows "becomes (rotate_left p T) T (plug (Node cq (Node cp A p kp dp B) q kq dq C) fs)"
proof -
  note P = tree_of_plugD [OF t]
  let ?pn = "\<lparr>n_parent = upward fs, n_left = ptr A, n_right = q, n_color = cp, n_key = kp, n_data = dp\<rparr>"
  let ?qn = "\<lparr>n_parent = p, n_left = ptr B, n_right = ptr C, n_color = cq, n_key = kq, n_data = dq\<rparr>"
  obtain T1 where T1: "relink (upward fs) p q T = Inr T1" "rb_root T1 = ptr_plug q fs" "holds_path (rb_nodes T1) q fs"
    "rb_compare T1 = rb_compare T" "dom (rb_nodes T1) = dom (rb_nodes T)"
    and same: "\<And>a. a \<in> set (addrs (Node cp A p kp dp (Node cq B q kq dq C))) \<Longrightarrow> rb_nodes T1 a = rb_nodes T a"
    by (rule relink_here [OF t, where q = q]) blast
  have "holds (rb_nodes T1) (upward fs) (Node cp A p kp dp (Node cq B q kq dq C))"
    using P(2) same holds_cong by blast
  then have n: "rb_nodes T1 p = Some ?pn" "rb_nodes T1 q = Some ?qn" "p \<noteq> 0" "q \<noteq> 0" "p \<noteq> q"
    and h: "holds (rb_nodes T1) p A" "holds (rb_nodes T1) q B" "holds (rb_nodes T1) q C"
    using P(4) by auto
  define st where "st = (rb_nodes T1)(q \<mapsto> ?qn\<lparr>n_parent := upward fs\<rparr>, p \<mapsto> ?pn\<lparr>n_parent := q, n_right := ptr B\<rparr>)"
  have hB: "holds st q B" using h(2) P(4) by (simp add: st_def)
  have rq: "reparent p B st q = st q" "reparent p B st p = st p" using P(4) by (simp_all add: reparent_other)
  define T' where "T' = T1\<lparr>rb_nodes := (reparent p B st)(q \<mapsto> ?qn\<lparr>n_parent := upward fs, n_left := p\<rparr>)\<rparr>"
  have run: "rotate_left p T = Inr T'"
  proof -
    define T2 where "T2 = T1\<lparr>rb_nodes := (rb_nodes T1)(q \<mapsto> ?qn\<lparr>n_parent := upward fs\<rparr>)\<rparr>"
    define T3 where "T3 = T2\<lparr>rb_nodes := (rb_nodes T2)(p \<mapsto> ?pn\<lparr>n_parent := q\<rparr>)\<rparr>"
    define T4 where "T4 = T1\<lparr>rb_nodes := st\<rparr>"
    have "node_at T p = Inr ?pn" "set_parent (upward fs) q T1 = Inr T2" "set_parent q p T2 = Inr T3"
      using n same [of p] by (simp_all add: node_at_def set_parent_def upd_node_def T2_def T3_def)
    moreover have "node_at T3 q = Inr (?qn\<lparr>n_parent := upward fs\<rparr>)" "node_at T4 q = Inr (?qn\<lparr>n_parent := upward fs\<rparr>)"
      "upd_node p (\<lambda>n. n\<lparr>n_right := ptr B\<rparr>) T3 = Inr T4"
      using n(5) by (simp_all add: node_at_def upd_node_def T2_def T3_def T4_def st_def)
    moreover have "(if ptr B \<noteq> 0 then set_parent p (ptr B) T4 else Inr T4) = Inr (T1\<lparr>rb_nodes := reparent p B st\<rparr>)"
      using set_parent_reparent [of T4 q B p] hB by (simp add: T4_def)
    moreover have "upd_node q (\<lambda>n. n\<lparr>n_left := p\<rparr>) (T1\<lparr>rb_nodes := reparent p B st\<rparr>) = Inr T'"
      using rq n(5) by (simp add: upd_node_def node_at_def T'_def st_def)
    ultimately show ?thesis using T1(1) by (cases "ptr B = 0") (simp_all add: rotate_left_def)
  qed
  have old: "rb_nodes T' a = rb_nodes T1 a" if a: "a \<noteq> p" "a \<noteq> q" "a \<notin> set (addrs B)" for a
    using a by (simp add: T'_def reparent_other st_def)
  have "a \<noteq> p \<and> a \<noteq> q \<and> a \<notin> set (addrs B)" if a: "a \<in> set (addrs A) \<union> set (addrs C)" for a using a P(4) by auto
  then have "\<And>a. a \<in> set (addrs A) \<Longrightarrow> rb_nodes T' a = rb_nodes T1 a" "\<And>a. a \<in> set (addrs C) \<Longrightarrow> rb_nodes T' a = rb_nodes T1 a"
    using old by blast+
  then have "holds (rb_nodes T') p A" "holds (rb_nodes T') q C" using h(1,3) holds_cong by blast+
  moreover have "holds (rb_nodes T') p B" using reparent_holds [OF hB, of p] P(4) by (simp add: T'_def)
  ultimately have "holds (rb_nodes T') (upward fs) (Node cq (Node cp A p kp dp B) q kq dq C)"
    using rq n by (simp add: T'_def st_def)
  moreover have "dom (rb_nodes T') = dom (rb_nodes T1)"
    using reparent_dom [OF hB, of p] n by (auto simp: T'_def st_def)
  moreover have "rb_root T' = rb_root T1" "rb_compare T' = rb_compare T1" by (simp_all add: T'_def)
  moreover have "distinct (addrs (Node cq (Node cp A p kp dp B) q kq dq C))" using P(4) by auto
  ultimately show ?thesis
    using tree_of_rebuilt [OF t, of T1 "Node cq (Node cp A p kp dp B) q kq dq C" T'] T1 run old by (auto simp: becomes_def)
qed

lemma rotate_right_here:
  assumes t: "tree_of T (plug (Node cp (Node cq C q kq dq B) p kp dp A) fs)"
  shows "becomes (rotate_right p T) T (plug (Node cq C q kq dq (Node cp B p kp dp A)) fs)"
proof -
  note P = tree_of_plugD [OF t]
  let ?pn = "\<lparr>n_parent = upward fs, n_left = q, n_right = ptr A, n_color = cp, n_key = kp, n_data = dp\<rparr>"
  let ?qn = "\<lparr>n_parent = p, n_left = ptr C, n_right = ptr B, n_color = cq, n_key = kq, n_data = dq\<rparr>"
  obtain T1 where T1: "relink (upward fs) p q T = Inr T1" "rb_root T1 = ptr_plug q fs" "holds_path (rb_nodes T1) q fs"
    "rb_compare T1 = rb_compare T" "dom (rb_nodes T1) = dom (rb_nodes T)"
    and same: "\<And>a. a \<in> set (addrs (Node cp (Node cq C q kq dq B) p kp dp A)) \<Longrightarrow> rb_nodes T1 a = rb_nodes T a"
    by (rule relink_here [OF t, where q = q]) blast
  have "holds (rb_nodes T1) (upward fs) (Node cp (Node cq C q kq dq B) p kp dp A)"
    using P(2) same holds_cong by blast
  then have n: "rb_nodes T1 p = Some ?pn" "rb_nodes T1 q = Some ?qn" "p \<noteq> 0" "q \<noteq> 0" "p \<noteq> q"
    and h: "holds (rb_nodes T1) p A" "holds (rb_nodes T1) q B" "holds (rb_nodes T1) q C"
    using P(4) by auto
  define st where "st = (rb_nodes T1)(q \<mapsto> ?qn\<lparr>n_parent := upward fs\<rparr>, p \<mapsto> ?pn\<lparr>n_parent := q, n_left := ptr B\<rparr>)"
  have hB: "holds st q B" using h(2) P(4) by (simp add: st_def)
  have rq: "reparent p B st q = st q" "reparent p B st p = st p" using P(4) by (simp_all add: reparent_other)
  define T' where "T' = T1\<lparr>rb_nodes := (reparent p B st)(q \<mapsto> ?qn\<lparr>n_parent := upward fs, n_right := p\<rparr>)\<rparr>"
  have run: "rotate_right p T = Inr T'"
  proof -
    define T2 where "T2 = T1\<lparr>rb_nodes := (rb_nodes T1)(q \<mapsto> ?qn\<lparr>n_parent := upward fs\<rparr>)\<rparr>"
    define T3 where "T3 = T2\<lparr>rb_nodes := (rb_nodes T2)(p \<mapsto> ?pn\<lparr>n_parent := q\<rparr>)\<rparr>"
    define T4 where "T4 = T1\<lparr>rb_nodes := st\<rparr>"
    have "node_at T p = Inr ?pn" "set_parent (upward fs) q T1 = Inr T2" "set_parent q p T2 = Inr T3"
      using n same [of p] by (simp_all add: node_at_def set_parent_def upd_node_def T2_def T3_def)
    moreover have "node_at T3 q = Inr (?qn\<lparr>n_parent := upward fs\<rparr>)" "node_at T4 p = Inr (?pn\<lparr>n_parent := q, n_left := ptr B\<rparr>)"
      "upd_node p (\<lambda>n. n\<lparr>n_left := ptr B\<rparr>) T3 = Inr T4"
      using n(5) by (simp_all add: node_at_def upd_node_def T2_def T3_def T4_def st_def)
    moreover have "(if ptr B \<noteq> 0 then set_parent p (ptr B) T4 else Inr T4) = Inr (T1\<lparr>rb_nodes := reparent p B st\<rparr>)"
      using set_parent_reparent [of T4 q B p] hB by (simp add: T4_def)
    moreover have "upd_node q (\<lambda>n. n\<lparr>n_right := p\<rparr>) (T1\<lparr>rb_nodes := reparent p B st\<rparr>) = Inr T'"
      using rq n(5) by (simp add: upd_node_def node_at_def T'_def st_def)
    ultimately show ?thesis
      using T1(1) n(3) by (cases "ptr B = 0") (simp_all add: rotate_right_def get_parent_def is_root_def relink_def split: if_splits)
  qed
  have old: "rb_nodes T' a = rb_nodes T1 a" if a: "a \<noteq> p" "a \<noteq> q" "a \<notin> set (addrs B)" for a
    using a by (simp add: T'_def reparent_other st_def)
  have "a \<noteq> p \<and> a \<noteq> q \<and> a \<notin> set (addrs B)" if a: "a \<in> set (addrs A) \<union> set (addrs C)" for a using a P(4) by auto
  then have "\<And>a. a \<in> set (addrs A) \<Longrightarrow> rb_nodes T' a = rb_nodes T1 a" "\<And>a. a \<in> set (addrs C) \<Longrightarrow> rb_nodes T' a = rb_nodes T1 a"
    using old by blast+
  then have "holds (rb_nodes T') p A" "holds (rb_nodes T') q C" using h(1,3) holds_cong by blast+
  moreover have "holds (rb_nodes T') p B" using reparent_holds [OF hB, of p] P(4) by (simp add: T'_def)
  ultimately have "holds (rb_nodes T') (upward fs) (Node cq C q kq dq (Node cp B p kp dp A))"
    using rq n by (simp add: T'_def st_def)
  moreover have "dom (rb_nodes T') = dom (rb_nodes T1)"
    using reparent_dom [OF hB, of p] n by (auto simp: T'_def st_def)
  moreover have "rb_root T' = rb_root T1" "rb_compare T' = rb_compare T1" by (simp_all add: T'_def)
  moreover have "distinct (addrs (Node cq C q kq dq (Node cp B p kp dp A)))" using P(4) by auto
  ultimately show ?thesis
    using tree_of_rebuilt [OF t, of T1 "Node cq C q kq dq (Node cp B p kp dp A)" T'] T1 run old by (auto simp: becomes_def)
qed

section \<open>Replacing a node\<close>

text \<open>A node with one child gives its place to the child.\<close>

lemma replace_node_here:
  assumes t: "tree_of T (plug (Node c Leaf a k d r) fs)"
  shows "becomes (replace_node a (ptr r) T) T (plug r fs)"
proof -
  note P = tree_of_plugD [OF t]
  obtain T1 where T1: "relink (upward fs) a (ptr r) T = Inr T1" "rb_root T1 = ptr_plug (ptr r) fs" "holds_path (rb_nodes T1) (ptr r) fs"
    "rb_compare T1 = rb_compare T" "dom (rb_nodes T1) = dom (rb_nodes T)"
    and same: "\<And>b. b \<in> set (addrs (Node c Leaf a k d r)) \<Longrightarrow> rb_nodes T1 b = rb_nodes T b"
    by (rule relink_here [OF t, where q = "ptr r"]) blast
  have "holds (rb_nodes T1) (upward fs) (Node c Leaf a k d r)" using P(2) same holds_cong by blast
  then have n: "node_at T1 a = Inr \<lparr>n_parent = upward fs, n_left = 0, n_right = ptr r, n_color = c, n_key = k, n_data = d\<rparr>"
    and h: "holds (rb_nodes T1) a r" by (auto simp: node_at_def)
  define T' where "T' = T1\<lparr>rb_nodes := reparent (upward fs) r (rb_nodes T1)\<rparr>"
  have "replace_node a (ptr r) T = Inr T'"
    using T1(1) n h tree_of_node(1) [OF t] 
    by (cases r) (auto simp: replace_node_def T'_def reparent_def upd_node_def node_at_def)
  moreover have "tree_of T' (plug r fs)"
  proof (rule tree_ofI_plug)
    show "holds (rb_nodes T') (upward fs) r" using reparent_holds [OF h] P(4) by (simp add: T'_def)
    have "rb_nodes T' b = rb_nodes T1 b" if b: "b \<in> set (befores fs) \<union> set (afters fs)" for b
    proof -
      have "b \<notin> set (addrs r)" using b P(4) by auto
      then show ?thesis by (simp add: T'_def reparent_other)
    qed
    then show "holds_path (rb_nodes T') (ptr r) fs" using T1(3) holds_path_cong by blast
    have d: "dom (rb_nodes T') = dom (rb_nodes T)" using reparent_dom [OF h] T1(5) by (simp add: T'_def)
    then show "finite (dom (rb_nodes T'))" "rb_nodes T' 0 = None" using P(5,6) by (auto simp: domIff)
  qed (use T1(2) P(4) in \<open>auto simp: T'_def\<close>)
  ultimately show ?thesis using T1(4,5) reparent_dom [OF h] by (auto simp: becomes_def T'_def)
qed

end
