(* ===== verification/RbTreeSearch.thy ===== *)
theory RbTreeSearch
  imports RbTreeShape
begin

text \<open>
  Searching the red-black tree: the loop of \<^verbatim>\<open>do_lookup\<close>, the minimum and the maximum, and the neighbours of a node in
  the order of the keys. All of these loops end on a tree.
\<close>

section \<open>Order\<close>

definition ordered :: "rbt \<Rightarrow> bool" where
  "ordered t \<longleftrightarrow> sorted_wrt (<) (map fst (entries t))"

lemma ordered_plug:
  "ordered (plug (Node c l a k d r) fs) \<Longrightarrow>
    (\<forall>x\<in>set (before_entries fs @ entries l). fst x < k) \<and> (\<forall>x\<in>set (entries r @ after_entries fs). k < fst x)"
  by (auto simp: ordered_def entries_plug sorted_wrt_append)

lemma ordered_distinct: "ordered t \<Longrightarrow> distinct (map fst (entries t))"
  by (simp add: ordered_def strict_sorted_iff)

section \<open>Lookup\<close>

definition below :: "u64 \<Rightarrow> frame list \<Rightarrow> bool" where
  "below key fs \<longleftrightarrow> (\<forall>x\<in>set (before_entries fs). fst x < key) \<and> (\<forall>x\<in>set (after_entries fs). key < fst x)"

lemma lookup_loop_ok:
  assumes "tree_of T (plug t fs)" "rb_compare T = compare" "ordered (plug t fs)" "below key fs"
  shows "(\<exists>c l a d r gs. plug t fs = plug (Node c l a key d r) gs \<and>
      lookup_loop key T (ptr t) (upward fs) = Some (Inr (a, upward gs))) \<or>
    (\<exists>gs. plug t fs = plug Leaf gs \<and> lookup_loop key T (ptr t) (upward fs) = Some (Inr (0, upward gs)) \<and> below key gs)"
  using assms
proof (induction t arbitrary: fs)
  case Leaf
  then show ?case by (subst lookup_loop.simps) auto
next
  case (Node c l a k d r)
  note n = tree_of_node [OF Node.prems(1)]
  consider "k = key" | "k < key" | "key < k" by fastforce
  then show ?case
  proof cases
    case 1
    then have "lookup_loop key T a (upward fs) = Some (Inr (a, upward fs))"
      using n Node.prems(2) by (subst lookup_loop.simps) (simp add: compare_def)
    then show ?thesis using 1 by fastforce
  next
    case 2
    have "lookup_loop key T a (upward fs) = lookup_loop key T (ptr r) a"
      using n Node.prems(2) 2 by (subst lookup_loop.simps) (auto simp: compare_def)
    moreover have "\<forall>x\<in>set (entries l). fst x < key"
      using ordered_plug [OF Node.prems(3)] 2 by (auto intro: less_trans [of _ k key])
    then have "below key (InRight c l a k d # fs)" using Node.prems(4) 2 by (auto simp: below_def)
    ultimately show ?thesis using Node.IH(2) [of "InRight c l a k d # fs"] Node.prems by simp
  next
    case 3
    have "lookup_loop key T a (upward fs) = lookup_loop key T (ptr l) a"
      using n Node.prems(2) 3 by (subst lookup_loop.simps) (auto simp: compare_def)
    moreover have "\<forall>x\<in>set (entries r). key < fst x"
      using ordered_plug [OF Node.prems(3)] 3 by (auto intro: less_trans [of key k])
    then have "below key (InLeft c a k d r # fs)" using Node.prems(4) 3 by (auto simp: below_def)
    ultimately show ?thesis using Node.IH(1) [of "InLeft c a k d r # fs"] Node.prems by simp
  qed
qed

text \<open>The search from the root: at a node with the key, or at the place such a node would have.\<close>

lemma do_lookup_ok:
  assumes t: "tree_of T t" and c: "rb_compare T = compare" and o: "ordered t"
  shows "(\<exists>c l a d r gs. t = plug (Node c l a key d r) gs \<and> do_lookup key T 0 = Inr (a, upward gs)) \<or>
    (\<exists>gs. t = plug Leaf gs \<and> do_lookup key T 0 = Inr (0, upward gs) \<and> below key gs)"
proof -
  have "rb_root T = ptr t" using t by (simp add: tree_of_def)
  then have run: "do_lookup key T 0 = Inr x" if x: "lookup_loop key T (ptr t) (upward []) = Some (Inr x)" for x
    using x by (simp add: do_lookup_def loop_def)
  have "(\<exists>c l a d r gs. t = plug (Node c l a key d r) gs \<and> lookup_loop key T (ptr t) (upward []) = Some (Inr (a, upward gs))) \<or>
    (\<exists>gs. t = plug Leaf gs \<and> lookup_loop key T (ptr t) (upward []) = Some (Inr (0, upward gs)) \<and> below key gs)"
    using lookup_loop_ok [of T t "[]" key] t c o by (simp add: below_def)
  then show ?thesis using run by blast
qed

lemma below_absent: "below key gs \<Longrightarrow> key \<notin> fst ` set (entries (plug Leaf gs))"
  by (auto simp: below_def entries_plug)

lemma lookup_entries:
  assumes t: "tree_of T t" and c: "rb_compare T = compare" and o: "ordered t"
  shows "rbtree_lookup T key = Inr (map_of (entries t) key)"
  using do_lookup_ok [OF assms, of key]
proof (elim disjE exE conjE)
  fix co l a d r gs
  assume e: "t = plug (Node co l a key d r) gs" and l: "do_lookup key T 0 = Inr (a, upward gs)"
  have "map_of (entries t) key = Some d"
    using ordered_distinct [OF o] by (rule map_of_is_SomeI) (simp add: e entries_plug)
  then show ?thesis using l tree_of_node [OF t [unfolded e]] by (simp add: rbtree_lookup_def)
next
  fix gs
  assume e: "t = plug Leaf gs" and l: "do_lookup key T 0 = Inr (0, upward gs)" and b: "below key gs"
  have "map_of (entries t) key = None" using below_absent [OF b] by (simp add: e map_of_eq_None_iff)
  then show ?thesis using l by (simp add: rbtree_lookup_def)
qed

section \<open>Minimum and maximum\<close>

lemma addrs_Nil [simp]: "addrs t = [] \<longleftrightarrow> t = Leaf"
  by (cases t) auto

lemma ptr_0: "holds st par t \<Longrightarrow> ptr t = 0 \<longleftrightarrow> t = Leaf"
  by (cases t) auto

lemma min_loop_ok: "holds (rb_nodes T) par t \<Longrightarrow> t \<noteq> Leaf \<Longrightarrow> min_loop T (ptr t) = Some (Inr (hd (addrs t)))"
proof (induction t arbitrary: par)
  case (Node c l a k d r)
  then show ?case
    using ptr_0 [of "rb_nodes T" a l] by (subst min_loop.simps) (auto simp: node_at_def)
qed simp

lemma max_loop_ok: "holds (rb_nodes T) par t \<Longrightarrow> t \<noteq> Leaf \<Longrightarrow> max_loop T (ptr t) = Some (Inr (last (addrs t)))"
proof (induction t arbitrary: par)
  case (Node c l a k d r)
  then show ?case
    using ptr_0 [of "rb_nodes T" a r] by (subst max_loop.simps) (auto simp: node_at_def)
qed simp

lemma get_min_ok: "holds (rb_nodes T) par t \<Longrightarrow> t \<noteq> Leaf \<Longrightarrow> get_min T (ptr t) = Inr (hd (addrs t))"
  by (simp add: get_min_def min_loop_ok loop_def ptr_0)

lemma get_max_ok: "holds (rb_nodes T) par t \<Longrightarrow> t \<noteq> Leaf \<Longrightarrow> get_max T (ptr t) = Inr (last (addrs t))"
  by (simp add: get_max_def max_loop_ok loop_def ptr_0)

lemma rbtree_min_ok: "tree_of T t \<Longrightarrow> rbtree_min T = Inr (hd (addrs t @ [0]))"
  using get_min_ok [of T 0 t] ptr_0 [of "rb_nodes T" 0 t] by (cases "t = Leaf") (auto simp: tree_of_def rbtree_min_def)

lemma rbtree_max_ok: "tree_of T t \<Longrightarrow> rbtree_max T = Inr (last (0 # addrs t))"
  using get_max_ok [of T 0 t] ptr_0 [of "rb_nodes T" 0 t] by (cases "t = Leaf") (auto simp: tree_of_def rbtree_max_def)

section \<open>Neighbours\<close>

lemma next_climb_ok:
  assumes "tree_of T (plug t fs)" "t \<noteq> Leaf"
  shows "next_climb T (ptr t) = Some (Inr (hd (afters fs @ [0])))"
  using assms
proof (induction fs arbitrary: t)
  case Nil
  then obtain c l a k d r where t: "t = Node c l a k d r" by (cases t) auto
  show ?case using get_parent_here [OF Nil.prems(1) [unfolded t]] by (subst next_climb.simps) (simp add: t)
next
  case (Cons f fs)
  obtain c l a k d r where t: "t = Node c l a k d r" using Cons.prems(2) by (cases t) auto
  note gp = get_parent_here [OF Cons.prems(1) [unfolded t]]
  show ?case
  proof (cases f)
    case (InLeft c' b k' d' s)
    note n = tree_of_node [of T c' t b k' d' s fs]
    have "ptr s \<noteq> a" using tree_of_plugD(2,4) [OF Cons.prems(1)] tree_of_plugD(2) [of T "Node c' t b k' d' s" fs] Cons.prems(1)
      ptr_in [of s] by (cases "s = Leaf") (auto simp: InLeft t)
    then show ?thesis
      using Cons.prems(1) gp n by (subst next_climb.simps) (simp add: InLeft t)
  next
    case (InRight c' s b k' d')
    note n = tree_of_node [of T c' s b k' d' t fs]
    show ?thesis
      using Cons.prems(1) gp n Cons.IH [of "Node c' s b k' d' t"] by (subst next_climb.simps) (simp add: InRight t)
  qed
qed

lemma prev_climb_ok:
  assumes "tree_of T (plug t fs)" "t \<noteq> Leaf"
  shows "prev_climb T (ptr t) = Some (Inr (last (0 # befores fs)))"
  using assms
proof (induction fs arbitrary: t)
  case Nil
  then obtain c l a k d r where t: "t = Node c l a k d r" by (cases t) auto
  show ?case using get_parent_here [OF Nil.prems(1) [unfolded t]] by (subst prev_climb.simps) (simp add: t)
next
  case (Cons f fs)
  obtain c l a k d r where t: "t = Node c l a k d r" using Cons.prems(2) by (cases t) auto
  note gp = get_parent_here [OF Cons.prems(1) [unfolded t]]
  show ?case
  proof (cases f)
    case (InRight c' s b k' d')
    note n = tree_of_node [of T c' s b k' d' t fs]
    have "ptr s \<noteq> a" using tree_of_plugD(2,4) [OF Cons.prems(1)] tree_of_plugD(2) [of T "Node c' s b k' d' t" fs] Cons.prems(1)
      ptr_in [of s] by (cases "s = Leaf") (auto simp: InRight t)
    then show ?thesis
      using Cons.prems(1) gp n by (subst prev_climb.simps) (simp add: InRight t)
  next
    case (InLeft c' b k' d' s)
    note n = tree_of_node [of T c' t b k' d' s fs]
    show ?thesis
      using Cons.prems(1) gp n Cons.IH [of "Node c' t b k' d' s"] by (subst prev_climb.simps) (simp add: InLeft t)
  qed
qed

lemma rbtree_next_ok:
  assumes t: "tree_of T (plug (Node c l a k d r) fs)"
  shows "rbtree_next T a = Inr (hd (addrs r @ afters fs @ [0]))"
proof (cases "r = Leaf")
  case True
  then show ?thesis
    using next_climb_ok [OF t] tree_of_node [OF t] by (simp add: rbtree_next_def loop_def)
next
  case False
  have "holds (rb_nodes T) a r" using tree_of_plugD(2) [OF t] by simp
  then show ?thesis
    using get_min_ok [OF _ False] tree_of_node [OF t] False by (simp add: rbtree_next_def ptr_0)
qed

lemma rbtree_prev_ok:
  assumes t: "tree_of T (plug (Node c l a k d r) fs)"
  shows "rbtree_prev T a = Inr (last (0 # befores fs @ addrs l))"
proof (cases "l = Leaf")
  case True
  then show ?thesis
    using prev_climb_ok [OF t] tree_of_node [OF t] by (simp add: rbtree_prev_def loop_def)
next
  case False
  have "holds (rb_nodes T) a l" using tree_of_plugD(2) [OF t] by simp
  then show ?thesis
    using get_max_ok [OF _ False] tree_of_node [OF t] False by (simp add: rbtree_prev_def ptr_0)
qed

text \<open>Every node of a tree is the root of a subtree.\<close>

lemma addr_position:
  assumes "a \<in> set (addrs t)"
  shows "\<exists>c l k d r fs. t = plug (Node c l a k d r) fs"
proof -
  have "\<exists>c l k d r gs. plug t fs = plug (Node c l a k d r) gs" for fs
    using assms
  proof (induction t arbitrary: fs)
    case (Node c l b k d r)
    then consider "a \<in> set (addrs l)" | "a = b" | "a \<in> set (addrs r)" by auto
    then show ?case
    proof cases
      case 1
      then show ?thesis using Node.IH(1) [of "InLeft c b k d r # fs"] by simp
    next
      case 2
      then show ?thesis by blast
    next
      case 3
      then show ?thesis using Node.IH(2) [of "InRight c l b k d # fs"] by simp
    qed
  qed simp
  from this [of "[]"] show ?thesis by simp
qed

end
