(* ===== verification/RbTreeInsert.thy ===== *)
theory RbTreeInsert
  imports RbTreeSearch
begin

text \<open>
  Insertion into the red-black tree: each round of the loop of \<^verbatim>\<open>__rbtree_insert\<close> keeps the order of the keys and the
  number of black nodes on every path and moves the one place where two red nodes may meet towards the root, so that
  the loop ends with a red-black tree.
\<close>

section \<open>The red-black invariant\<close>

fun color_of :: "rbt \<Rightarrow> rb_color" where
  "color_of Leaf = RB_BLACK"
| "color_of (Node c l a k d r) = c"

definition weight :: "rb_color \<Rightarrow> nat" where
  "weight c = (if c = RB_BLACK then 1 else 0)"

fun bheight :: "rbt \<Rightarrow> nat" where
  "bheight Leaf = 0"
| "bheight (Node c l a k d r) = bheight l + weight c"

fun redblack :: "rbt \<Rightarrow> bool" where
  "redblack Leaf \<longleftrightarrow> True"
| "redblack (Node c l a k d r) \<longleftrightarrow> redblack l \<and> redblack r \<and> bheight l = bheight r \<and>
    (c = RB_RED \<longrightarrow> color_of l = RB_BLACK \<and> color_of r = RB_BLACK)"

definition balanced :: "rbt \<Rightarrow> bool" where
  "balanced t \<longleftrightarrow> redblack t \<and> color_of t = RB_BLACK"

fun fcolor :: "frame \<Rightarrow> rb_color" where
  "fcolor (InLeft c a k d r) = c"
| "fcolor (InRight c l a k d) = c"

fun other :: "frame \<Rightarrow> rbt" where
  "other (InLeft c a k d r) = r"
| "other (InRight c l a k d) = l"

fun fill :: "rbt \<Rightarrow> frame \<Rightarrow> rbt" where
  "fill t (InLeft c a k d r) = Node c t a k d r"
| "fill t (InRight c l a k d) = Node c l a k d t"

text \<open>A path that completes a subtree of black height \<open>n\<close> with a black root to a red-black tree.\<close>

fun path_ok :: "nat \<Rightarrow> frame list \<Rightarrow> bool" where
  "path_ok n [] \<longleftrightarrow> True"
| "path_ok n (f # fs) \<longleftrightarrow> redblack (other f) \<and> bheight (other f) = n \<and> path_ok (n + weight (fcolor f)) fs \<and>
    (fcolor f = RB_RED \<longrightarrow> color_of (other f) = RB_BLACK \<and> fs \<noteq> [] \<and> fcolor (hd fs) = RB_BLACK)"

definition red_above :: "frame list \<Rightarrow> bool" where
  "red_above fs \<longleftrightarrow> fs \<noteq> [] \<and> fcolor (hd fs) = RB_RED"

lemma weight_simps [simp]: "weight RB_BLACK = 1" "weight RB_RED = 0"
  by (simp_all add: weight_def)

lemma plug_fill: "plug t (f # fs) = plug (fill t f) fs"
  by (cases f) simp_all

lemma fill_simps [simp]:
  "color_of (fill t f) = fcolor f"
  "redblack t \<Longrightarrow> redblack (other f) \<Longrightarrow> bheight (other f) = bheight t \<Longrightarrow> bheight (fill t f) = bheight t + weight (fcolor f)"
  by (cases f; simp)+

lemma redblack_fill:
  "redblack (fill t f) \<longleftrightarrow> redblack t \<and> redblack (other f) \<and> bheight t = bheight (other f) \<and>
    (fcolor f = RB_RED \<longrightarrow> color_of t = RB_BLACK \<and> color_of (other f) = RB_BLACK)"
  by (cases f) auto

lemma not_red: "c \<noteq> RB_RED \<longleftrightarrow> c = RB_BLACK" "c \<noteq> RB_BLACK \<longleftrightarrow> c = RB_RED"
  by (cases c; simp)+

lemma plug_redblack:
  assumes "redblack t" "path_ok (bheight t) fs" "red_above fs \<Longrightarrow> color_of t = RB_BLACK"
  shows "redblack (plug t fs)" "fs \<noteq> [] \<Longrightarrow> color_of (plug t fs) = RB_BLACK"
proof -
  have "redblack (plug t fs) \<and> (fs \<noteq> [] \<longrightarrow> color_of (plug t fs) = RB_BLACK)"
    using assms
  proof (induction fs arbitrary: t)
    case (Cons f fs)
    have rb: "redblack (fill t f)" using Cons.prems by (auto simp: redblack_fill red_above_def)
    have ih: "redblack (plug (fill t f) fs) \<and> (fs \<noteq> [] \<longrightarrow> color_of (plug (fill t f) fs) = RB_BLACK)"
    proof (rule Cons.IH [OF rb])
      show "path_ok (bheight (fill t f)) fs" using Cons.prems by simp
      show "color_of (fill t f) = RB_BLACK" if "red_above fs"
        using Cons.prems that not_red(1) [of "fcolor f"] by (auto simp: red_above_def)
    qed
    moreover have "fcolor f = RB_BLACK" if "fs = []" using Cons.prems(2) that not_red(1) [of "fcolor f"] by auto
    ultimately show ?case by (cases "fs = []") (simp_all add: plug_fill)
  qed simp
  then show "redblack (plug t fs)" "fs \<noteq> [] \<Longrightarrow> color_of (plug t fs) = RB_BLACK" by simp_all
qed

lemma redblack_plugD:
  assumes "redblack (plug t fs)" "color_of (plug t fs) = RB_BLACK"
  shows "redblack t \<and> path_ok (bheight t) fs \<and> (red_above fs \<longrightarrow> color_of t = RB_BLACK)"
  using assms
proof (induction fs arbitrary: t)
  case Nil
  then show ?case by (simp add: red_above_def)
next
  case (Cons f fs)
  have ih: "redblack (fill t f)" "path_ok (bheight (fill t f)) fs" "red_above fs \<longrightarrow> color_of (fill t f) = RB_BLACK"
    using Cons.IH [of "fill t f"] Cons.prems unfolding plug_fill by blast+
  have rb: "redblack t" "redblack (other f)" "bheight t = bheight (other f)"
    "fcolor f = RB_RED \<longrightarrow> color_of t = RB_BLACK \<and> color_of (other f) = RB_BLACK"
    using ih(1) unfolding redblack_fill by blast+
  have "fs \<noteq> []" if red: "fcolor f = RB_RED"
  proof
    assume "fs = []"
    then show False using Cons.prems(2) red by (simp add: plug_fill)
  qed
  moreover have "fcolor (hd fs) = RB_BLACK" if red: "fcolor f = RB_RED" "fs \<noteq> []"
    using ih(3) red by (cases "fcolor (hd fs)") (simp_all add: red_above_def)
  moreover have "path_ok (bheight t + weight (fcolor f)) fs" using ih(2) rb by simp
  ultimately show ?case using rb by (simp add: red_above_def)
qed

section \<open>The rounds of the loop\<close>

text \<open>
  One round, on the red node \<open>N\<close> under its red parent: the loop goes on with a red node whose subtree is red-black,
  under a shorter path that still completes it. \<open>progress\<close> is what every case of the body achieves.
\<close>

definition progress :: "(addr \<times> rbtree) outcome \<Rightarrow> rbtree \<Rightarrow> rbt \<Rightarrow> frame list \<Rightarrow> bool" where
  "progress r T N fs \<longleftrightarrow> (\<exists>T' l a k d r' gs. r = Inr (a, T') \<and> tree_of T' (plug (Node RB_RED l a k d r') gs) \<and>
    rb_compare T' = rb_compare T \<and> dom (rb_nodes T') = dom (rb_nodes T) \<and>
    redblack (Node RB_RED l a k d r') \<and> path_ok (bheight l) gs \<and> length gs < length fs \<and>
    entries (plug (Node RB_RED l a k d r') gs) = entries (plug N fs))"

lemma progressI:
  assumes "becomes m T (plug (Node RB_RED l a k d r) gs)" "redblack (Node RB_RED l a k d r)" "path_ok (bheight l) gs"
    "length gs < length fs" "entries (plug (Node RB_RED l a k d r) gs) = entries (plug N fs)"
    "result = and_then m (\<lambda>T. Inr (a, T))"
  shows "progress result T N fs"
  using assms unfolding progress_def becomes_def by fastforce

lemma recolor_here:
  assumes t: "tree_of T (plug (Node cg (Node cp pl p kp dp pr) g kg dg (Node cu ul u ku du ur)) fs)"
  shows "becomes (recolor g p u T) T (plug (Node RB_RED (Node RB_BLACK pl p kp dp pr) g kg dg (Node RB_BLACK ul u ku du ur)) fs)"
  unfolding recolor_def
  by (rule becomes_then [OF set_color_here [OF t]], rule becomes_then)
    (use set_color_here [of _ cp pl p kp dp pr "InLeft RB_RED g kg dg (Node cu ul u ku du ur) # fs"]
      set_color_here [of _ cu ul u ku du ur "InRight RB_RED (Node RB_BLACK pl p kp dp pr) g kg dg # fs"] in simp_all)

lemma recolor_here':
  assumes t: "tree_of T (plug (Node cg (Node cu ul u ku du ur) g kg dg (Node cp pl p kp dp pr)) fs)"
  shows "becomes (recolor g p u T) T (plug (Node RB_RED (Node RB_BLACK ul u ku du ur) g kg dg (Node RB_BLACK pl p kp dp pr)) fs)"
  unfolding recolor_def
  by (rule becomes_then [OF set_color_here [OF t]], rule becomes_then)
    (use set_color_here [of _ cp pl p kp dp pr "InRight RB_RED (Node cu ul u ku du ur) g kg dg # fs"]
      set_color_here [of _ cu ul u ku du ur "InLeft RB_RED g kg dg (Node RB_BLACK pl p kp dp pr) # fs"] in simp_all)

text \<open>What the two tests of the uncle answer.\<close>

lemma uncle_right:
  assumes "tree_of T (plug (Node c l g k d u) fs)"
  shows "(if ptr u = 0 then Inr False else and_then (get_color T (ptr u)) (\<lambda>c. Inr (c = RB_RED))) = Inr (color_of u = RB_RED)"
proof (cases u)
  case (Node cu ul a ku du ur)
  then show ?thesis using tree_of_node [of T cu ul a ku du ur "InRight c l g k d # fs"] assms by (simp add: get_color_def)
qed simp

lemma uncle_left:
  assumes "tree_of T (plug (Node c u g k d r) fs)"
  shows "(if ptr u = 0 then Inr False else and_then (node_at T (ptr u)) (\<lambda>n. Inr (n_color n = RB_RED))) = Inr (color_of u = RB_RED)"
proof (cases u)
  case (Node cu ul a ku du ur)
  then show ?thesis using tree_of_node [of T cu ul a ku du ur "InLeft c g k d r # fs"] assms by simp
qed simp

lemma ptr_apart:
  assumes "tree_of T (plug (Node c l g k d r) fs)" "l \<noteq> Leaf \<or> r \<noteq> Leaf"
  shows "ptr l \<noteq> ptr r"
  using tree_of_plugD(2,4) [OF assms(1)] assms(2) ptr_in [of l] ptr_in [of r] by (cases l; cases r) auto

lemma fix_left_red:
  assumes t: "tree_of T (plug (Node RB_RED l a k d r) (f # InLeft RB_BLACK g kg dg (Node RB_RED ul u ku du ur) # fs))"
    and f: "fill (Node RB_RED l a k d r) f = Node RB_RED pl p kp dp pr" "fcolor f = RB_RED"
    and rb: "redblack (Node RB_RED l a k d r)"
    and path: "path_ok (bheight l) (f # InLeft RB_BLACK g kg dg (Node RB_RED ul u ku du ur) # fs)"
  shows "progress (fix_left a p g T) T (Node RB_RED l a k d r) (f # InLeft RB_BLACK g kg dg (Node RB_RED ul u ku du ur) # fs)"
proof -
  let ?N = "Node RB_RED l a k d r" and ?u = "Node RB_RED ul u ku du ur"
  have t': "tree_of T (plug (Node RB_BLACK (Node RB_RED pl p kp dp pr) g kg dg ?u) fs)" using t f by (simp add: plug_fill)
  have w: "redblack pl" "redblack pr" "bheight pl = bheight l" "bheight pr = bheight l"
    using f rb path by (cases f; auto)+
  show ?thesis
  proof (rule progressI)
    show "becomes (recolor g p u T) T (plug (Node RB_RED (Node RB_BLACK pl p kp dp pr) g kg dg (Node RB_BLACK ul u ku du ur)) fs)"
      by (rule recolor_here [OF t'])
    show "fix_left a p g T = and_then (recolor g p u T) (\<lambda>T. Inr (g, T))"
      using tree_of_node [OF t'] uncle_right [OF t'] by (simp add: fix_left_def split: if_splits)
    show "entries (plug (Node RB_RED (Node RB_BLACK pl p kp dp pr) g kg dg (Node RB_BLACK ul u ku du ur)) fs) =
        entries (plug ?N (f # InLeft RB_BLACK g kg dg ?u # fs))"
      using f by (simp add: plug_fill entries_plug)
  qed (use w path f in auto)
qed

lemma fix_left_outer:
  assumes t: "tree_of T (plug (Node RB_RED l a k d r) (InLeft RB_RED p kp dp s # InLeft RB_BLACK g kg dg u # fs))"
    and u: "color_of u = RB_BLACK" and rb: "redblack (Node RB_RED l a k d r)"
    and path: "path_ok (bheight l) (InLeft RB_RED p kp dp s # InLeft RB_BLACK g kg dg u # fs)"
  shows "progress (fix_left a p g T) T (Node RB_RED l a k d r) (InLeft RB_RED p kp dp s # InLeft RB_BLACK g kg dg u # fs)"
proof -
  let ?N = "Node RB_RED l a k d r"
  let ?m = "and_then (set_color RB_BLACK p T) (\<lambda>T. and_then (set_color RB_RED g T) (rotate_right g))"
  have tg: "tree_of T (plug (Node RB_BLACK (Node RB_RED ?N p kp dp s) g kg dg u) fs)"
    and tp: "tree_of T (plug (Node RB_RED ?N p kp dp s) (InLeft RB_BLACK g kg dg u # fs))" using t by simp_all
  have m: "becomes ?m T (plug (Node RB_BLACK ?N p kp dp (Node RB_RED s g kg dg u)) fs)"
  proof (rule becomes_then [OF set_color_here [OF tp]], rule becomes_then)
    fix T' assume "tree_of T' (plug (Node RB_BLACK ?N p kp dp s) (InLeft RB_BLACK g kg dg u # fs))"
    then show "becomes (set_color RB_RED g T') T' (plug (Node RB_RED (Node RB_BLACK ?N p kp dp s) g kg dg u) fs)"
      by (intro set_color_here) simp
  qed (rule rotate_right_here)
  show ?thesis
  proof (rule progressI)
    show "becomes ?m T (plug ?N (InLeft RB_BLACK p kp dp (Node RB_RED s g kg dg u) # fs))" using m by simp
    show "fix_left a p g T = and_then ?m (\<lambda>T. Inr (a, T))"
      using tree_of_node [OF tg] tree_of_node [OF tp] uncle_right [OF tg] u ptr_apart [OF tp]
      by (simp add: fix_left_def and_then_assoc split: if_splits)
  qed (use rb path u in \<open>auto simp: entries_plug\<close>)
qed

lemma fix_left_inner:
  assumes t: "tree_of T (plug (Node RB_RED l a k d r) (InRight RB_RED s p kp dp # InLeft RB_BLACK g kg dg u # fs))"
    and u: "color_of u = RB_BLACK" and rb: "redblack (Node RB_RED l a k d r)"
    and path: "path_ok (bheight l) (InRight RB_RED s p kp dp # InLeft RB_BLACK g kg dg u # fs)"
  shows "progress (fix_left a p g T) T (Node RB_RED l a k d r) (InRight RB_RED s p kp dp # InLeft RB_BLACK g kg dg u # fs)"
proof -
  let ?N = "Node RB_RED l a k d r" and ?P = "Node RB_RED s p kp dp l"
  let ?m = "and_then (rotate_left p T) (\<lambda>T. and_then (set_color RB_BLACK a T) (\<lambda>T. and_then (set_color RB_RED g T) (rotate_right g)))"
  have tg: "tree_of T (plug (Node RB_BLACK (Node RB_RED s p kp dp ?N) g kg dg u) fs)"
    and tp: "tree_of T (plug (Node RB_RED s p kp dp ?N) (InLeft RB_BLACK g kg dg u # fs))" using t by simp_all
  have m: "becomes ?m T (plug (Node RB_BLACK ?P a k d (Node RB_RED r g kg dg u)) fs)"
  proof (rule becomes_then [OF rotate_left_here [OF tp]], rule becomes_then [OF set_color_here], assumption, rule becomes_then)
    fix T' assume "tree_of T' (plug (Node RB_BLACK ?P a k d r) (InLeft RB_BLACK g kg dg u # fs))"
    then show "becomes (set_color RB_RED g T') T' (plug (Node RB_RED (Node RB_BLACK ?P a k d r) g kg dg u) fs)"
      by (intro set_color_here) simp
  qed (rule rotate_right_here)
  obtain T1 where T1: "rotate_left p T = Inr T1" "tree_of T1 (plug (Node RB_RED ?P a k d r) (InLeft RB_BLACK g kg dg u # fs))"
    using rotate_left_here [OF tp] by (auto simp: becomes_def)
  then have "get_parent T1 p = Inr a" using get_parent_here [of T1 RB_RED s p kp dp l "InLeft RB_RED a k d r # InLeft RB_BLACK g kg dg u # fs"] by simp
  then have run: "fix_left a p g T = and_then ?m (\<lambda>T. Inr (p, T))"
    using tree_of_node [OF tg] tree_of_node [OF tp] uncle_right [OF tg] u T1(1)
    by (simp add: fix_left_def and_then_assoc split: if_splits)
  show ?thesis
  proof (rule progressI)
    show "becomes ?m T (plug ?P (InLeft RB_BLACK a k d (Node RB_RED r g kg dg u) # fs))" using m by simp
  qed (use rb path u run in \<open>auto simp: entries_plug\<close>)
qed

lemma fix_right_red:
  assumes t: "tree_of T (plug (Node RB_RED l a k d r) (f # InRight RB_BLACK (Node RB_RED ul u ku du ur) g kg dg # fs))"
    and f: "fill (Node RB_RED l a k d r) f = Node RB_RED pl p kp dp pr" "fcolor f = RB_RED"
    and rb: "redblack (Node RB_RED l a k d r)"
    and path: "path_ok (bheight l) (f # InRight RB_BLACK (Node RB_RED ul u ku du ur) g kg dg # fs)"
  shows "progress (fix_right a p g T) T (Node RB_RED l a k d r) (f # InRight RB_BLACK (Node RB_RED ul u ku du ur) g kg dg # fs)"
proof -
  let ?N = "Node RB_RED l a k d r" and ?u = "Node RB_RED ul u ku du ur"
  have t': "tree_of T (plug (Node RB_BLACK ?u g kg dg (Node RB_RED pl p kp dp pr)) fs)" using t f by (simp add: plug_fill)
  have w: "redblack pl" "redblack pr" "bheight pl = bheight l" "bheight pr = bheight l"
    using f rb path by (cases f; auto)+
  show ?thesis
  proof (rule progressI)
    show "becomes (recolor g p u T) T (plug (Node RB_RED (Node RB_BLACK ul u ku du ur) g kg dg (Node RB_BLACK pl p kp dp pr)) fs)"
      by (rule recolor_here' [OF t'])
    show "fix_right a p g T = and_then (recolor g p u T) (\<lambda>T. Inr (g, T))"
      using tree_of_node [OF t'] uncle_left [OF t'] by (simp add: fix_right_def split: if_splits)
    show "entries (plug (Node RB_RED (Node RB_BLACK ul u ku du ur) g kg dg (Node RB_BLACK pl p kp dp pr)) fs) =
        entries (plug ?N (f # InRight RB_BLACK ?u g kg dg # fs))"
      using f by (simp add: plug_fill entries_plug)
  qed (use w path f in auto)
qed

lemma fix_right_outer:
  assumes t: "tree_of T (plug (Node RB_RED l a k d r) (InRight RB_RED s p kp dp # InRight RB_BLACK u g kg dg # fs))"
    and u: "color_of u = RB_BLACK" and rb: "redblack (Node RB_RED l a k d r)"
    and path: "path_ok (bheight l) (InRight RB_RED s p kp dp # InRight RB_BLACK u g kg dg # fs)"
  shows "progress (fix_right a p g T) T (Node RB_RED l a k d r) (InRight RB_RED s p kp dp # InRight RB_BLACK u g kg dg # fs)"
proof -
  let ?N = "Node RB_RED l a k d r"
  let ?m = "and_then (set_color RB_BLACK p T) (\<lambda>T. and_then (set_color RB_RED g T) (rotate_left g))"
  have tg: "tree_of T (plug (Node RB_BLACK u g kg dg (Node RB_RED s p kp dp ?N)) fs)"
    and tp: "tree_of T (plug (Node RB_RED s p kp dp ?N) (InRight RB_BLACK u g kg dg # fs))" using t by simp_all
  have m: "becomes ?m T (plug (Node RB_BLACK (Node RB_RED u g kg dg s) p kp dp ?N) fs)"
  proof (rule becomes_then [OF set_color_here [OF tp]], rule becomes_then)
    fix T' assume "tree_of T' (plug (Node RB_BLACK s p kp dp ?N) (InRight RB_BLACK u g kg dg # fs))"
    then show "becomes (set_color RB_RED g T') T' (plug (Node RB_RED u g kg dg (Node RB_BLACK s p kp dp ?N)) fs)"
      by (intro set_color_here) simp
  qed (rule rotate_left_here)
  show ?thesis
  proof (rule progressI)
    show "becomes ?m T (plug ?N (InRight RB_BLACK (Node RB_RED u g kg dg s) p kp dp # fs))" using m by simp
    show "fix_right a p g T = and_then ?m (\<lambda>T. Inr (a, T))"
      using tree_of_node [OF tg] tree_of_node [OF tp] uncle_left [OF tg] u ptr_apart [OF tp]
      by (simp add: fix_right_def and_then_assoc split: if_splits)
  qed (use rb path u in \<open>auto simp: entries_plug\<close>)
qed

lemma fix_right_inner:
  assumes t: "tree_of T (plug (Node RB_RED l a k d r) (InLeft RB_RED p kp dp s # InRight RB_BLACK u g kg dg # fs))"
    and u: "color_of u = RB_BLACK" and rb: "redblack (Node RB_RED l a k d r)"
    and path: "path_ok (bheight l) (InLeft RB_RED p kp dp s # InRight RB_BLACK u g kg dg # fs)"
  shows "progress (fix_right a p g T) T (Node RB_RED l a k d r) (InLeft RB_RED p kp dp s # InRight RB_BLACK u g kg dg # fs)"
proof -
  let ?N = "Node RB_RED l a k d r" and ?P = "Node RB_RED r p kp dp s"
  let ?m = "and_then (rotate_right p T) (\<lambda>T. and_then (set_color RB_BLACK a T) (\<lambda>T. and_then (set_color RB_RED g T) (rotate_left g)))"
  have tg: "tree_of T (plug (Node RB_BLACK u g kg dg (Node RB_RED ?N p kp dp s)) fs)"
    and tp: "tree_of T (plug (Node RB_RED ?N p kp dp s) (InRight RB_BLACK u g kg dg # fs))" using t by simp_all
  have m: "becomes ?m T (plug (Node RB_BLACK (Node RB_RED u g kg dg l) a k d ?P) fs)"
  proof (rule becomes_then [OF rotate_right_here [OF tp]], rule becomes_then [OF set_color_here], assumption, rule becomes_then)
    fix T' assume "tree_of T' (plug (Node RB_BLACK l a k d ?P) (InRight RB_BLACK u g kg dg # fs))"
    then show "becomes (set_color RB_RED g T') T' (plug (Node RB_RED u g kg dg (Node RB_BLACK l a k d ?P)) fs)"
      by (intro set_color_here) simp
  qed (rule rotate_left_here)
  obtain T1 where T1: "rotate_right p T = Inr T1" "tree_of T1 (plug (Node RB_RED l a k d ?P) (InRight RB_BLACK u g kg dg # fs))"
    using rotate_right_here [OF tp] by (auto simp: becomes_def)
  then have "get_parent T1 p = Inr a" using get_parent_here [of T1 RB_RED r p kp dp s "InRight RB_RED l a k d # InRight RB_BLACK u g kg dg # fs"] by simp
  then have run: "fix_right a p g T = and_then ?m (\<lambda>T. Inr (p, T))"
    using tree_of_node [OF tg] tree_of_node [OF tp] uncle_left [OF tg] u T1(1)
    by (simp add: fix_right_def and_then_assoc split: if_splits)
  show ?thesis
  proof (rule progressI)
    show "becomes ?m T (plug ?P (InRight RB_BLACK (Node RB_RED u g kg dg l) a k d # fs))" using m by simp
  qed (use rb path u run in \<open>auto simp: entries_plug\<close>)
qed

text \<open>The body of the loop in all its cases.\<close>

lemma fix_body_progress:
  assumes t: "tree_of T (plug (Node RB_RED l a k d r) (f # h # fs))" and f: "fcolor f = RB_RED"
    and rb: "redblack (Node RB_RED l a k d r)" and path: "path_ok (bheight l) (f # h # fs)"
  shows "progress (if (case h of InLeft _ _ _ _ _ \<Rightarrow> True | _ \<Rightarrow> False) then fix_left a (upward [f]) (upward [h]) T
      else fix_right a (upward [f]) (upward [h]) T) T (Node RB_RED l a k d r) (f # h # fs)"
proof (cases h)
  case (InLeft ch g kg dg u)
  have h: "h = InLeft RB_BLACK g kg dg u" using path f InLeft by simp
  show ?thesis
  proof (cases "color_of u = RB_RED")
    case True
    then obtain ul b ku du ur where u: "u = Node RB_RED ul b ku du ur" by (cases u) auto
    show ?thesis
      using f fix_left_red [OF t [unfolded h u] _ f rb path [unfolded h u]] by (cases f) (auto simp: h u)
  next
    case False
    then have "color_of u = RB_BLACK" by (simp add: not_red)
    then show ?thesis
      using f fix_left_outer [OF _ _ rb, of T] fix_left_inner [OF _ _ rb, of T] t path by (cases f) (auto simp: h)
  qed
next
  case (InRight ch u g kg dg)
  have h: "h = InRight RB_BLACK u g kg dg" using path f InRight by simp
  show ?thesis
  proof (cases "color_of u = RB_RED")
    case True
    then obtain ul b ku du ur where u: "u = Node RB_RED ul b ku du ur" by (cases u) auto
    show ?thesis
      using f fix_right_red [OF t [unfolded h u] _ f rb path [unfolded h u]] by (cases f) (auto simp: h u)
  next
    case False
    then have "color_of u = RB_BLACK" by (simp add: not_red)
    then show ?thesis
      using f fix_right_outer [OF _ _ rb, of T] fix_right_inner [OF _ _ rb, of T] t path by (cases f) (auto simp: h)
  qed
qed

section \<open>The loop\<close>

lemma frame_node:
  assumes "tree_of T (plug t (f # fs))"
  shows "\<exists>n. node_at T (upward (f # fs)) = Inr n \<and> n_parent n = upward fs \<and> n_color n = fcolor f" "upward (f # fs) \<noteq> 0"
  using assms tree_of_node [of T] by (cases f; fastforce)+

lemma fix_step_done:
  assumes t: "tree_of T (plug (Node c l a k d r) fs)" and black: "\<not> red_above fs"
  shows "fix_step a T = Inr (None, T)"
proof (cases fs)
  case Nil
  then show ?thesis using get_parent_here [OF t] by (simp add: fix_step_def)
next
  case (Cons f gs)
  then show ?thesis
    using get_parent_here [OF t] frame_node [of T _ f gs] t black by (force simp: fix_step_def red_above_def)
qed

lemma fix_step_red:
  assumes t: "tree_of T (plug (Node RB_RED l a k d r) (f # h # fs))" and f: "fcolor f = RB_RED"
  shows "fix_step a T = and_then (if (case h of InLeft _ _ _ _ _ \<Rightarrow> True | _ \<Rightarrow> False)
      then fix_left a (upward [f]) (upward [h]) T else fix_right a (upward [f]) (upward [h]) T) (\<lambda>(node, T). Inr (Some node, T))"
proof -
  let ?N = "Node RB_RED l a k d r"
  have up: "upward (f # h # fs) = upward [f]" "upward (h # fs) = upward [h]" by (cases f; cases h; simp)+
  obtain n where n: "node_at T (upward [f]) = Inr n" "n_parent n = upward [h]" "n_color n = RB_RED" "upward [f] \<noteq> 0"
    using frame_node [OF t] f up by auto
  have t': "tree_of T (plug (fill ?N f) (h # fs))" using t by (simp add: plug_fill)
  obtain pl kp dp pr where p: "fill ?N f = Node RB_RED pl (upward [f]) kp dp pr" using f by (cases f) auto
  have g: "\<exists>g. node_at T (upward [h]) = Inr g \<and> (upward [f] = n_left g \<longleftrightarrow> (case h of InLeft _ _ _ _ _ \<Rightarrow> True | _ \<Rightarrow> False))"
  proof (cases h)
    case (InLeft c b kb db s)
    then show ?thesis using tree_of_node [of T c "fill ?N f" b kb db s fs] t' p by simp
  next
    case (InRight c s b kb db)
    then show ?thesis
      using tree_of_node [of T c s b kb db "fill ?N f" fs] ptr_apart [of T c s b kb db "fill ?N f" fs] t' p by auto
  qed
  then show ?thesis
    using get_parent_here [OF t] n up by (auto simp: fix_step_def get_parent_def)
qed

text \<open>The loop ends with a red-black tree of the same entries, whose root may be red.\<close>

lemma fix_loop_ok:
  assumes "tree_of T (plug (Node RB_RED l a k d r) fs)" "redblack (Node RB_RED l a k d r)" "path_ok (bheight l) fs"
  shows "\<exists>T' t'. fix_loop a T = Some (Inr T') \<and> tree_of T' t' \<and> redblack t' \<and>
    rb_compare T' = rb_compare T \<and> dom (rb_nodes T') = dom (rb_nodes T) \<and> entries t' = entries (plug (Node RB_RED l a k d r) fs)"
  using assms
proof (induction "length fs" arbitrary: T l a k d r fs rule: less_induct)
  case less
  let ?N = "Node RB_RED l a k d r"
  show ?case
  proof (cases "red_above fs")
    case False
    then have "fix_loop a T = Some (Inr T)" using fix_step_done [OF less.prems(1)] by (subst fix_loop.simps) simp
    moreover have "redblack (plug ?N fs)" using plug_redblack [of ?N fs] less.prems(2,3) False by simp
    ultimately show ?thesis using less.prems(1) by blast
  next
    case True
    then obtain f h gs where fs: "fs = f # h # gs" and f: "fcolor f = RB_RED"
      using less.prems(3) by (cases fs; cases "tl fs") (auto simp: red_above_def)
    note t = less.prems(1) [unfolded fs]
    have "progress (if (case h of InLeft _ _ _ _ _ \<Rightarrow> True | _ \<Rightarrow> False) then fix_left a (upward [f]) (upward [h]) T
      else fix_right a (upward [f]) (upward [h]) T) T ?N (f # h # gs)"
      by (rule fix_body_progress [OF t f less.prems(2) less.prems(3) [unfolded fs]])
    then obtain T1 l1 a1 k1 d1 r1 gs1 where
      step: "fix_step a T = Inr (Some a1, T1)" and t1: "tree_of T1 (plug (Node RB_RED l1 a1 k1 d1 r1) gs1)"
      and same: "rb_compare T1 = rb_compare T" "dom (rb_nodes T1) = dom (rb_nodes T)"
      and rb: "redblack (Node RB_RED l1 a1 k1 d1 r1)" "path_ok (bheight l1) gs1" and len: "length gs1 < length fs"
      and en: "entries (plug (Node RB_RED l1 a1 k1 d1 r1) gs1) = entries (plug ?N fs)"
      using fix_step_red [OF t f] unfolding progress_def fs by auto
    have "fix_loop a T = fix_loop a1 T1" using step by (subst fix_loop.simps) simp
    then show ?thesis using less.hyps [OF len t1 rb] same en by auto
  qed
qed

section \<open>Linking the new node\<close>

lemma link_leaf:
  assumes t: "tree_of T (plug Leaf gs)" and c: "rb_compare T = compare" and b: "below key gs"
    and a: "a \<noteq> 0" "a \<notin> set (addrs (plug Leaf gs))"
    and n: "rb_nodes T a = Some \<lparr>n_parent = upward gs, n_left = 0, n_right = 0, n_color = RB_RED, n_key = key, n_data = d\<rparr>"
  shows "becomes (if upward gs = 0 then Inr (T\<lparr>rb_root := a\<rparr>) else set_child (upward gs) a T) T
    (plug (Node RB_RED Leaf a key d Leaf) gs)"
proof -
  note P = tree_of_plugD [OF t]
  have a': "a \<notin> set (befores gs)" "a \<notin> set (afters gs)" using a by (simp_all add: addrs_plug)
  show ?thesis
  proof (cases gs rule: upward.cases)
    case 1
    then show ?thesis using P n a by (simp add: becomes_def tree_of_def)
  next
    case (2 cb b kb db s fs)
    let ?nb = "\<lparr>n_parent = upward fs, n_left = a, n_right = ptr s, n_color = cb, n_key = kb, n_data = db\<rparr>"
    let ?T = "T\<lparr>rb_nodes := (rb_nodes T)(b \<mapsto> ?nb)\<rparr>"
    have "key < kb" using b 2 by (simp add: below_def)
    then have "set_child b a T = Inr ?T" "b \<noteq> 0"
      using P(3) n c 2 by (auto simp: set_child_def node_at_def upd_node_def compare_def)
    moreover have "tree_of ?T (plug (Node RB_RED Leaf a key d Leaf) gs)"
      by (rule tree_ofI_plug) (use P a a' n 2 in \<open>auto simp: ptr_plug_def\<close>)
    moreover have "dom (rb_nodes ?T) = dom (rb_nodes T)" using P(3) 2 by auto
    ultimately show ?thesis using 2 by (simp add: becomes_def)
  next
    case (3 cb s b kb db fs)
    let ?nb = "\<lparr>n_parent = upward fs, n_left = ptr s, n_right = a, n_color = cb, n_key = kb, n_data = db\<rparr>"
    let ?T = "T\<lparr>rb_nodes := (rb_nodes T)(b \<mapsto> ?nb)\<rparr>"
    have "kb < key" using b 3 by (simp add: below_def)
    then have "set_child b a T = Inr ?T" "b \<noteq> 0"
      using P(3) n c 3 by (auto simp: set_child_def node_at_def upd_node_def compare_def)
    moreover have "tree_of ?T (plug (Node RB_RED Leaf a key d Leaf) gs)"
      by (rule tree_ofI_plug) (use P a a' n 3 in \<open>auto simp: ptr_plug_def\<close>)
    moreover have "dom (rb_nodes ?T) = dom (rb_nodes T)" using P(3) 3 by auto
    ultimately show ?thesis using 3 by (simp add: becomes_def)
  qed
qed

section \<open>Insertion\<close>

text \<open>A tree of the program: in order, balanced, and compared by \<^verbatim>\<open>compare\<close>.\<close>

definition rb_ok :: "rbtree \<Rightarrow> rbt \<Rightarrow> bool" where
  "rb_ok T t \<longleftrightarrow> tree_of T t \<and> rb_compare T = compare \<and> ordered t \<and> balanced t"

lemma tree_of_add:
  assumes "tree_of T t" "a \<notin> set (addrs t)" "a \<noteq> 0"
  shows "tree_of (T\<lparr>rb_nodes := (rb_nodes T)(a \<mapsto> n)\<rparr>) t"
  using assms by (simp add: tree_of_def)

lemma insert_node_same:
  assumes t: "rb_ok T t" and n: "node_at T a = Inr n" and key: "n_key n \<in> fst ` set (entries t)"
  shows "\<exists>b. insert_node a T = Inr (b, T) \<and> b \<noteq> 0"
proof -
  have t': "tree_of T t" "rb_compare T = compare" "ordered t" using t by (simp_all add: rb_ok_def)
  from do_lookup_ok [OF t', of "n_key n"] show ?thesis
  proof (elim disjE exE conjE)
    fix c l b d r gs
    assume "t = plug (Node c l b (n_key n) d r) gs" "do_lookup (n_key n) T 0 = Inr (b, upward gs)"
    then show ?thesis using n tree_of_node(2) [of T c l b "n_key n" d r gs] t' by (simp add: insert_node_def)
  next
    fix gs
    assume "t = plug Leaf gs" "below (n_key n) gs"
    then show ?thesis using below_absent key by blast
  qed
qed

lemma ordered_insert:
  assumes "ordered (plug Leaf gs)" "below key gs"
  shows "ordered (plug (Node c Leaf a key d Leaf) gs)"
  using assms by (auto simp: ordered_def entries_plug below_def sorted_wrt_append)

lemma blacken_root:
  assumes t: "tree_of T t" and rb: "redblack t" and ne: "t \<noteq> Leaf"
  shows "\<exists>t'. becomes (set_color RB_BLACK (rb_root T) T) T t' \<and> balanced t' \<and> entries t' = entries t"
proof -
  obtain c l a k d r where n: "t = Node c l a k d r" using ne by (cases t) auto
  have "rb_root T = a" using t n by (simp add: tree_of_def)
  then have "becomes (set_color RB_BLACK (rb_root T) T) T (Node RB_BLACK l a k d r)"
    using set_color_here [of T c l a k d r "[]" RB_BLACK] t n by simp
  then show ?thesis using rb n by (intro exI [of _ "Node RB_BLACK l a k d r"]) (simp add: balanced_def)
qed

lemma insert_node_new:
  assumes t: "rb_ok T t" and n: "rb_nodes T a = Some n" and a: "a \<notin> set (addrs t)" "a \<noteq> 0"
    and key: "n_key n \<notin> fst ` set (entries t)"
  shows "\<exists>T' t' xs ys. insert_node a T = Inr (0, T') \<and> rb_ok T' t' \<and> dom (rb_nodes T') = dom (rb_nodes T) \<and>
    entries t = xs @ ys \<and> entries t' = xs @ (n_key n, n_data n) # ys"
proof -
  have t': "tree_of T t" "rb_compare T = compare" "ordered t" "balanced t" using t by (simp_all add: rb_ok_def)
  obtain gs where gs: "t = plug Leaf gs" and l: "do_lookup (n_key n) T 0 = Inr (0, upward gs)" and b: "below (n_key n) gs"
  proof -
    have "\<not> (\<exists>c l a d r gs. t = plug (Node c l a (n_key n) d r) gs)" using key by (force simp: entries_plug)
    then show ?thesis using do_lookup_ok [OF t'(1-3), of "n_key n"] that by blast
  qed
  let ?N = "Node RB_RED Leaf a (n_key n) (n_data n) Leaf"
  define T1 where "T1 = T\<lparr>rb_nodes := (rb_nodes T)(a \<mapsto> \<lparr>n_parent = upward gs, n_left = 0, n_right = 0, n_color = RB_RED,
    n_key = n_key n, n_data = n_data n\<rparr>)\<rparr>"
  have tree1: "tree_of T1 (plug Leaf gs)" using tree_of_add [OF t'(1) a] gs by (simp add: T1_def)
  have run1: "and_then (upd_node a (\<lambda>n. n\<lparr>n_left := 0, n_right := 0\<rparr>) T) (\<lambda>T.
      and_then (set_color RB_RED a T) (set_parent (upward gs) a)) = Inr T1"
    using n a(2) by (cases n) (simp add: upd_node_def node_at_def set_color_def set_parent_def T1_def)
  obtain T2 where T2: "(if upward gs = 0 then Inr (T1\<lparr>rb_root := a\<rparr>) else set_child (upward gs) a T1) = Inr T2"
    "tree_of T2 (plug ?N gs)" "rb_compare T2 = rb_compare T1" "dom (rb_nodes T2) = dom (rb_nodes T1)"
    using link_leaf [OF tree1 _ b a(2), of "n_data n"] a(1) t'(2) gs by (auto simp: T1_def becomes_def)
  have path: "path_ok 0 gs" using redblack_plugD [of Leaf gs] t'(4) gs by (simp add: balanced_def)
  obtain T3 t3 where T3: "fix_loop a T2 = Some (Inr T3)" "tree_of T3 t3" "redblack t3" "rb_compare T3 = rb_compare T2"
    "dom (rb_nodes T3) = dom (rb_nodes T2)" "entries t3 = entries (plug ?N gs)"
    using fix_loop_ok [OF T2(2)] path by auto
  have "t3 \<noteq> Leaf" using T3(6) by (auto simp: entries_plug)
  then obtain T4 t4 where T4: "set_color RB_BLACK (rb_root T3) T3 = Inr T4" "tree_of T4 t4" "balanced t4"
    "entries t4 = entries t3" "rb_compare T4 = rb_compare T3" "dom (rb_nodes T4) = dom (rb_nodes T3)"
    using blacken_root [OF T3(2,3)] by (auto simp: becomes_def)
  have "insert_node a T = and_then (Inr T1) (\<lambda>T. and_then (if upward gs = 0 then Inr (T\<lparr>rb_root := a\<rparr>) else set_child (upward gs) a T)
      (\<lambda>T. and_then (loop (fix_loop a T)) (\<lambda>T. and_then (set_color RB_BLACK (rb_root T) T) (\<lambda>T. Inr (0, T)))))"
    using n l unfolding run1 [symmetric] by (simp add: insert_node_def node_at_def and_then_assoc)
  then have "insert_node a T = Inr (0, T4)" using T2(1) T3(1) T4(1) by (auto simp: loop_def)
  moreover have "ordered t4" using ordered_insert [of gs] b t'(3) gs T3(6) T4(4) by (simp add: ordered_def)
  moreover have "rb_compare T4 = compare" "dom (rb_nodes T4) = dom (rb_nodes T)"
    using T2(3,4) T3(4,5) T4(5,6) t'(2) n by (auto simp: T1_def)
  ultimately show ?thesis
    using T4(2,3,4) T3(6) gs by (intro exI [of _ T4] exI [of _ t4] exI [of _ "before_entries gs"] exI [of _ "after_entries gs"])
      (simp add: rb_ok_def entries_plug)
qed

text \<open>What the tree needs of the allocator: a fresh block other than null, as long as the store is finite.\<close>

definition rb_malloc_ok :: "rb_malloc \<Rightarrow> bool" where
  "rb_malloc_ok malloc \<longleftrightarrow> (\<forall>st. finite (dom st) \<longrightarrow> (\<exists>a old. malloc st = Some (a, old) \<and> a \<noteq> 0 \<and> a \<notin> dom st))"

lemma rb_ok_fresh:
  assumes t: "rb_ok T t" and m: "rb_malloc_ok malloc"
  obtains a n where "rbtree_createnode malloc True key data (rb_nodes T) = Inr (a, (rb_nodes T)(a \<mapsto> n))" "n_key n = key"
    "n_data n = take (strlen data) data @ [0]" "a \<noteq> 0" "a \<notin> set (addrs t)"
    "rb_ok (T\<lparr>rb_nodes := (rb_nodes T)(a \<mapsto> n)\<rparr>) t"
proof -
  have tr: "tree_of T t" using t by (simp add: rb_ok_def)
  then have fin: "finite (dom (rb_nodes T))" by (simp add: tree_of_def)
  obtain a old where a: "malloc (rb_nodes T) = Some (a, old)" "a \<noteq> 0" "a \<notin> dom (rb_nodes T)"
    using m fin unfolding rb_malloc_ok_def by blast
  let ?n = "old\<lparr>n_key := key, n_data := take (strlen data) data @ [0], n_parent := 0, n_left := 0, n_right := 0\<rparr>"
  have na: "a \<notin> set (addrs t)" using holds_addrs [of "rb_nodes T" 0 t] tr a(3) by (auto simp: tree_of_def)
  have "rb_ok (T\<lparr>rb_nodes := (rb_nodes T)(a \<mapsto> ?n)\<rparr>) t"
    using t tree_of_add [OF tr na a(2)] by (simp add: rb_ok_def)
  then show ?thesis using a na by (intro that [of a ?n]) (simp_all add: rbtree_createnode_def)
qed

lemma rbtree_insert_new:
  assumes t: "rb_ok T t" and m: "rb_malloc_ok malloc" and key: "key \<notin> fst ` set (entries t)"
  shows "\<exists>T' t' xs ys. rbtree_insert malloc True T key data = Inr (0, T') \<and> rb_ok T' t' \<and>
    entries t = xs @ ys \<and> entries t' = xs @ (key, take (strlen data) data @ [0]) # ys"
proof -
  obtain a n where c: "rbtree_createnode malloc True key data (rb_nodes T) = Inr (a, (rb_nodes T)(a \<mapsto> n))" "n_key n = key"
    "n_data n = take (strlen data) data @ [0]" "a \<noteq> 0" "a \<notin> set (addrs t)"
    "rb_ok (T\<lparr>rb_nodes := (rb_nodes T)(a \<mapsto> n)\<rparr>) t"
    by (rule rb_ok_fresh [OF t m])
  from insert_node_new [OF c(6) _ c(5,4), of n] key c show ?thesis by (fastforce simp: rbtree_insert_def)
qed

lemma rbtree_insert_same:
  assumes t: "rb_ok T t" and m: "rb_malloc_ok malloc" and key: "key \<in> fst ` set (entries t)"
  shows "\<exists>T'. rbtree_insert malloc True T key data = Inr (- 2, T') \<and> rb_ok T' t"
proof -
  obtain a n where c: "rbtree_createnode malloc True key data (rb_nodes T) = Inr (a, (rb_nodes T)(a \<mapsto> n))" "n_key n = key"
    "n_data n = take (strlen data) data @ [0]" "a \<noteq> 0" "a \<notin> set (addrs t)"
    "rb_ok (T\<lparr>rb_nodes := (rb_nodes T)(a \<mapsto> n)\<rparr>) t"
    by (rule rb_ok_fresh [OF t m])
  from insert_node_same [OF c(6), of a n] key c show ?thesis by (auto simp: rbtree_insert_def node_at_def)
qed

end
