(* ===== verification/RbTreeMap.thy ===== *)
theory RbTreeMap
  imports RbTreeInsert
begin

text \<open>
  The red-black tree as a map: its properties for a client, over any allocator that returns fresh blocks.
\<close>

section \<open>Height\<close>

fun height :: "rbt \<Rightarrow> nat" where
  "height Leaf = 0"
| "height (Node c l a k d r) = Suc (max (height l) (height r))"

lemma height_bheight: "redblack t \<Longrightarrow> height t \<le> 2 * bheight t + (if color_of t = RB_RED then 1 else 0)"
proof (induction t)
  case (Node c l a k d r)
  then show ?case by (cases c) (auto split: if_splits)
qed simp

lemma bheight_entries: "redblack t \<Longrightarrow> 2 ^ bheight t \<le> length (entries t) + 1"
proof (induction t)
  case (Node c l a k d r)
  then show ?case by (cases c) auto
qed simp

lemma height_entries:
  assumes "balanced t"
  shows "2 ^ height t \<le> (length (entries t) + 1) ^ 2"
proof -
  have "height t \<le> 2 * bheight t" using height_bheight [of t] assms by (simp add: balanced_def)
  then have "(2::nat) ^ height t \<le> (2 ^ bheight t) ^ 2" by (simp add: power_mult [symmetric] mult.commute power_increasing)
  also have "\<dots> \<le> (length (entries t) + 1) ^ 2" using bheight_entries [of t] assms by (intro power_mono) (simp_all add: balanced_def)
  finally show ?thesis .
qed

text \<open>The loop of \<^verbatim>\<open>do_lookup\<close> cut off after \<open>n\<close> nodes; \<open>None\<close> when it would go on.\<close>

fun lookup_within :: "nat \<Rightarrow> u64 \<Rightarrow> rbtree \<Rightarrow> addr \<Rightarrow> addr \<Rightarrow> (addr \<times> addr) outcome option" where
  "lookup_within 0 key T current pparent = (if current = 0 then Some (Inr (0, pparent)) else None)"
| "lookup_within (Suc m) key T current pparent =
    (if current = 0 then Some (Inr (0, pparent))
     else case node_at T current of Inl e \<Rightarrow> Some (Inl e)
          | Inr n \<Rightarrow>
              if rb_compare T (n_key n) key = 0 then Some (Inr (current, pparent))
              else lookup_within m key T (if rb_compare T (n_key n) key < 0 then n_right n else n_left n) current)"

lemma lookup_within_ok:
  assumes "holds (rb_nodes T) par t" "height t \<le> n"
  shows "\<exists>y. lookup_within n key T (ptr t) p = Some y \<and> lookup_loop key T (ptr t) p = Some y"
  using assms
proof (induction t arbitrary: par n p)
  case Leaf
  then show ?case by (subst lookup_loop.simps) (cases n; simp)
next
  case (Node c l a k d r)
  then obtain m where n: "n = Suc m" by (cases n) auto
  have na: "node_at T a = Inr \<lparr>n_parent = par, n_left = ptr l, n_right = ptr r, n_color = c, n_key = k, n_data = d\<rparr>" "a \<noteq> 0"
    and h: "holds (rb_nodes T) a l" "holds (rb_nodes T) a r"
    using Node.prems by (auto simp: node_at_def)
  have hm: "height l \<le> m" "height r \<le> m" using Node.prems(2) n by auto
  obtain y z where "lookup_within m key T (ptr l) a = Some y" "lookup_loop key T (ptr l) a = Some y"
    "lookup_within m key T (ptr r) a = Some z" "lookup_loop key T (ptr r) a = Some z"
    using Node.IH(1) [OF h(1) hm(1)] Node.IH(2) [OF h(2) hm(2)] by blast
  then show ?case using na by (subst lookup_loop.simps) (auto simp: n)
qed

section \<open>The contract of the map\<close>

definition cstr :: "byte list \<Rightarrow> byte list" where
  "cstr b = take (strlen b) b"

definition rb_rep :: "rbtree \<Rightarrow> (u64 \<rightharpoonup> byte list) \<Rightarrow> bool" where
  "rb_rep T m \<longleftrightarrow> (\<exists>t. rb_ok T t \<and> m = (\<lambda>k. map_option cstr (map_of (entries t) k)))"

definition rb_put :: "rb_malloc \<Rightarrow> u64 \<Rightarrow> byte list \<Rightarrow> rbtree \<Rightarrow> rbtree outcome" where
  "rb_put malloc key v T = and_then (rbtree_insert malloc True T key v) (\<lambda>(ret, T'). Inr T')"

definition rb_got :: "rbtree \<Rightarrow> u64 \<Rightarrow> byte list option \<Rightarrow> bool" where
  "rb_got T key r \<longleftrightarrow> (\<exists>b. rbtree_lookup T key = Inr b \<and> r = map_option cstr b)"

definition is_str :: "byte list \<Rightarrow> bool" where
  "is_str v \<longleftrightarrow> 0 \<notin> set v"

lemma take_strlen: "take (strlen v) v = takeWhile (\<lambda>c. c \<noteq> 0) v"
  unfolding strlen_def by (rule takeWhile_eq_take [symmetric])

lemma cstr_copy: "cstr (take (strlen v) v @ [0] @ w) = take (strlen v) v"
  unfolding cstr_def take_strlen by (subst takeWhile_append2) (auto dest: set_takeWhileD)

lemma is_str_whole: "is_str v \<Longrightarrow> take (strlen v) v = v"
  unfolding take_strlen is_str_def by (rule takeWhile_eq_all_conv [THEN iffD2]) auto

lemma dom_entries: "dom (\<lambda>k. map_option f (map_of xs k)) = fst ` set xs"
  using map_of_eq_None_iff [of xs] by (auto simp: dom_def)

lemma map_of_insert:
  assumes "distinct (map fst (xs @ (k, v) # ys))"
  shows "map_of (xs @ (k, v) # ys) = (map_of (xs @ ys))(k \<mapsto> v)"
proof -
  have "k \<notin> fst ` set xs" using assms by auto
  then have "map_of xs k = None" by (simp add: map_of_eq_None_iff)
  then show ?thesis by (auto simp: fun_eq_iff map_add_def split: option.split)
qed

lemma rb_write_once:
  assumes m: "rb_malloc_ok malloc"
  shows "write_once rb_rep (\<lambda>n. True) is_str (rb_put malloc) rb_got"
proof
  fix s :: rbtree and f k v
  assume "rb_rep s f"
  then obtain t where t: "rb_ok s t" and f: "f = (\<lambda>k. map_option cstr (map_of (entries t) k))" by (auto simp: rb_rep_def)
  have df: "dom f = fst ` set (entries t)" unfolding f by (rule dom_entries)
  then show "finite (dom f)" by simp
  show "rb_got s k (f k)" using lookup_entries [of s t k] t by (simp add: rb_got_def rb_ok_def f)
  show "\<exists>s'. rb_put malloc k v s = Inr s' \<and> rb_rep s' (f(k \<mapsto> v))" if k: "k \<notin> dom f" and v: "is_str v"
  proof -
    obtain T' t' xs ys where r: "rbtree_insert malloc True s k v = Inr (0, T')" "rb_ok T' t'"
      "entries t = xs @ ys" "entries t' = xs @ (k, take (strlen v) v @ [0]) # ys"
      using rbtree_insert_new [OF t m, of k v] k df by blast
    have "distinct (map fst (entries t'))" using r(2) by (simp add: rb_ok_def ordered_distinct)
    then have "map_of (entries t') = (map_of (entries t))(k \<mapsto> take (strlen v) v @ [0])" using r(3,4) map_of_insert by metis
    then have "(\<lambda>k. map_option cstr (map_of (entries t') k)) = f(k \<mapsto> v)"
      using cstr_copy [of v "[]"] is_str_whole [OF v] by (simp add: f fun_eq_iff)
    then show ?thesis using r by (auto simp: rb_put_def rb_rep_def)
  qed
  show "\<exists>s'. rb_put malloc k v s = Inr s' \<and> rb_rep s' f" if k: "k \<in> dom f"
    using rbtree_insert_same [OF t m, of k v] k df f by (auto simp: rb_put_def rb_rep_def)
qed simp

locale rb_env =
  fixes malloc :: rb_malloc
  assumes malloc: "rb_malloc_ok malloc"

sublocale rb_env \<subseteq> write_once rb_rep "\<lambda>n. True" is_str "rb_put malloc" rb_got
  by (rule rb_write_once [OF malloc])

definition rb_malloc_above :: rb_malloc where
  "rb_malloc_above st = Some (Suc (Max (insert 0 (dom st))),
    \<lparr>n_parent = 3, n_left = 3, n_right = 3, n_color = RB_BLACK, n_key = 3, n_data = []\<rparr>)"

lemma rb_malloc_above_ok: "rb_malloc_ok rb_malloc_above"
  by (simp add: rb_malloc_ok_def rb_malloc_above_def Suc_Max_fresh)

interpretation rb_above: rb_env rb_malloc_above
  by unfold_locales (rule rb_malloc_above_ok)

lemma rbtreeCreate_ok: "\<exists>T. rbtreeCreate True = Some T \<and> rb_ok T Leaf"
  by (simp add: rbtreeCreate_def rbtree_init_def rb_ok_def tree_of_def ordered_def balanced_def)

section \<open>Order of the nodes\<close>

lemma entries_addrs:
  "holds (rb_nodes T) par t \<Longrightarrow> map (\<lambda>a. case rb_nodes T a of None \<Rightarrow> (0, []) | Some n \<Rightarrow> (n_key n, n_data n)) (addrs t) = entries t"
proof (induction t arbitrary: par)
  case (Node c l a k d r)
  then show ?case using Node.IH(1) [of a] Node.IH(2) [of a] by simp
qed simp

lemma nth_after: "((xs @ a # ys) @ [z]) ! Suc (length xs) = hd (ys @ [z])"
  by (cases ys) (simp_all add: nth_append)

lemma nth_before: "(z # xs @ a # ys) ! length xs = last (z # xs)"
  by (cases xs rule: rev_cases) (simp_all add: nth_append)

lemma neighbours:
  assumes t: "tree_of T t" and i: "i < length (addrs t)"
  shows "rbtree_next T (addrs t ! i) = Inr ((addrs t @ [0]) ! Suc i)" "rbtree_prev T (addrs t ! i) = Inr ((0 # addrs t) ! i)"
proof -
  obtain c l k d r fs where p: "t = plug (Node c l (addrs t ! i) k d r) fs" using addr_position i nth_mem by blast
  let ?a = "addrs t ! i"
  have as: "addrs t = (befores fs @ addrs l) @ ?a # (addrs r @ afters fs)" by (subst p) (simp add: addrs_plug)
  have dist: "distinct (addrs t)" using t by (simp add: tree_of_def)
  have "addrs t ! length (befores fs @ addrs l) = ?a" by (subst as) (simp only: nth_append_length)
  moreover have "length (befores fs @ addrs l) < length (addrs t)" by (subst as) simp
  ultimately have li: "i = length (befores fs @ addrs l)" using dist i nth_eq_iff_index_eq by metis
  have "(addrs t @ [0]) ! Suc i = hd (addrs r @ afters fs @ [0])"
    using nth_after [of "befores fs @ addrs l" ?a "addrs r @ afters fs" 0] unfolding as [symmetric] li [symmetric] by simp
  then show "rbtree_next T ?a = Inr ((addrs t @ [0]) ! Suc i)" using rbtree_next_ok t p by metis
  have "(0 # addrs t) ! i = last (0 # befores fs @ addrs l)"
    using nth_before [of 0 "befores fs @ addrs l" ?a "addrs r @ afters fs"] unfolding as [symmetric] li [symmetric] .
  then show "rbtree_prev T ?a = Inr ((0 # addrs t) ! i)" using rbtree_prev_ok t p by metis
qed

section \<open>Updating in place\<close>

lemma rbtree_update_absent:
  assumes "rb_ok T t" "key \<notin> fst ` set (entries t)"
  shows "rbtree_update T key data = Inr (0, T)"
proof -
  have t: "tree_of T t" "rb_compare T = compare" "ordered t" using assms(1) by (simp_all add: rb_ok_def)
  have "\<not> (\<exists>c l a d r gs. t = plug (Node c l a key d r) gs)" using assms(2) by (force simp: entries_plug)
  then obtain gs where "do_lookup key T 0 = Inr (0, upward gs)" using do_lookup_ok [OF t, of key] by blast
  then show ?thesis by (simp add: rbtree_update_def)
qed

lemma balanced_data: "balanced (plug (Node c l a k d r) fs) \<Longrightarrow> balanced (plug (Node c l a k d' r) fs)"
  using redblack_plugD [of "Node c l a k d r" fs] plug_redblack [of "Node c l a k d' r" fs]
  by (cases "fs = []") (auto simp: balanced_def)

lemma rbtree_update_present:
  assumes ok: "rb_ok T t" and buf: "map_of (entries t) key = Some buf"
  shows "if strlen data < length buf
    then \<exists>T' t'. rbtree_update T key data = Inr (0, T') \<and> rb_ok T' t' \<and>
      map_of (entries t') = (map_of (entries t))(key \<mapsto> take (strlen data) data @ [0] @ drop (strlen data + 1) buf)
    else rbtree_update T key data = Inl BadCall"
proof -
  have t: "tree_of T t" "rb_compare T = compare" "ordered t" "balanced t" using ok by (simp_all add: rb_ok_def)
  have "key \<in> fst ` set (entries t)" using buf by (force dest: map_of_SomeD)
  then obtain c l a d r gs where p: "t = plug (Node c l a key d r) gs" and l: "do_lookup key T 0 = Inr (a, upward gs)"
    using do_lookup_ok [OF t(1-3), of key] below_absent by blast
  have "map_of (entries t) key = Some d"
    using ordered_distinct [OF t(3)] by (rule map_of_is_SomeI) (simp add: p entries_plug)
  then have d: "d = buf" using buf by simp
  note n = tree_of_node [OF t(1) [unfolded p]]
  let ?new = "take (strlen data) data @ [0] @ drop (strlen data + 1) buf"
  let ?t = "plug (Node c l a key ?new r) gs"
  show ?thesis
  proof (cases "strlen data < length buf")
    case True
    let ?f = "\<lambda>n. n\<lparr>n_data := take (strlen data) data @ [0] @ drop (strlen data + 1) (n_data n)\<rparr>"
    obtain T' where T': "upd_node a ?f T = Inr T'"
      "tree_of T' ?t" "rb_compare T' = rb_compare T"
      using upd_node_here [OF t(1) [unfolded p], of ?f c ?new] d by (auto simp: becomes_def)
    have o: "ordered ?t" using t(3) p by (simp add: ordered_def entries_plug)
    have "map_of (entries ?t) = (map_of (entries t))(key \<mapsto> ?new)"
      using map_of_insert [of "before_entries gs @ entries l" key ?new "entries r @ after_entries gs"]
        map_of_insert [of "before_entries gs @ entries l" key d "entries r @ after_entries gs"]
        ordered_distinct [OF o] ordered_distinct [OF t(3)] by (simp add: p entries_plug)
    moreover have "rb_ok T' ?t" using T' o t(2) balanced_data t(4) p by (auto simp: rb_ok_def)
    ultimately show ?thesis using True T'(1) l n d by (auto simp: rbtree_update_def)
  next
    case False
    then show ?thesis using l n d by (simp add: rbtree_update_def)
  qed
qed

section \<open>Keys that are strings\<close>

text \<open>The entry points use the hash of a string as its key, so of two strings with the same hash the second is dropped.\<close>

lemma str_hash_collides: "str_hash [65, 97] = str_hash [66, 64]"
  by (simp add: str_hash_def strlen_def)

lemma doInsert_collision:
  assumes "rb_ok T t" "rb_malloc_ok malloc" "str_hash [65, 97] \<in> fst ` set (entries t)"
  shows "\<exists>T'. doInsert malloc True T [66, 64] val = Inr T' \<and> rb_ok T' t"
  using rbtree_insert_same [OF assms, of val] by (auto simp: doInsert_def str_hash_collides)

section \<open>The properties of the red-black tree\<close>

text \<open>C11: Inserting into a red-black tree always ends, whatever the key and the string, and leaves a red-black tree: its nodes
  linked in both directions, its keys in order, its root black, no red node under a red one, and equally many black
  nodes on all paths. A new key is answered 0 and is put at its place in the order with a copy of the string; a key that
  is there is answered -2 and the tree stays.\<close>

theorem rbtree_insert_correct:
  assumes "rb_ok T t" "rb_malloc_ok malloc"
  shows "if key \<in> fst ` set (entries t)
    then \<exists>T'. rbtree_insert malloc True T key data = Inr (- 2, T') \<and> rb_ok T' t
    else \<exists>T' t' xs ys. rbtree_insert malloc True T key data = Inr (0, T') \<and> rb_ok T' t' \<and>
      entries t = xs @ ys \<and> entries t' = xs @ (key, take (strlen data) data @ [0]) # ys"
  using rbtree_insert_new [OF assms] rbtree_insert_same [OF assms] by simp

text \<open>A tree of two nodes for the witnesses.\<close>

definition two_tree :: rbt where
  "two_tree = Node RB_BLACK Leaf 1 10 [65, 0] (Node RB_RED Leaf 2 20 [66, 67, 0] Leaf)"

definition two_nodes :: rbtree where
  "two_nodes = \<lparr>rb_root = 1, rb_compare = compare, rb_nodes = [
    1 \<mapsto> \<lparr>n_parent = 0, n_left = 0, n_right = 2, n_color = RB_BLACK, n_key = 10, n_data = [65, 0]\<rparr>,
    2 \<mapsto> \<lparr>n_parent = 1, n_left = 0, n_right = 0, n_color = RB_RED, n_key = 20, n_data = [66, 67, 0]\<rparr>]\<rparr>"

lemma two_nodes_ok: "rb_ok two_nodes two_tree"
  by (simp add: rb_ok_def tree_of_def two_nodes_def two_tree_def ordered_def balanced_def)

theorem rbtree_insert_correct_witness:
  "(\<exists>T'. rbtree_insert rb_malloc_above True two_nodes 20 [68] = Inr (- 2, T') \<and> rb_ok T' two_tree) \<and>
    (\<exists>T' t'. rbtree_insert rb_malloc_above True two_nodes 30 [68] = Inr (0, T') \<and> rb_ok T' t' \<and>
      set (entries t') = {(10, [65, 0]), (20, [66, 67, 0]), (30, [68, 0])})"
proof -
  have e: "entries two_tree = [(10, [65, 0]), (20, [66, 67, 0])]" by (simp add: two_tree_def)
  have s: "take (strlen [68]) [68] = [68 :: byte]" by (simp add: strlen_def)
  have k: "30 \<notin> fst ` set (entries two_tree)" "20 \<in> fst ` set (entries two_tree)" by (simp_all add: e)
  obtain T' t' xs ys where r: "rbtree_insert rb_malloc_above True two_nodes 30 [68] = Inr (0, T')" "rb_ok T' t'"
    "entries two_tree = xs @ ys" "entries t' = xs @ (30, [68, 0]) # ys"
    using rbtree_insert_correct [OF two_nodes_ok rb_malloc_above_ok, of 30 "[68]"] unfolding if_not_P [OF k(1)] s by auto
  have "set (entries t') = insert (30, [68, 0]) (set (entries two_tree))" unfolding r(3,4) by auto
  then have "set (entries t') = {(10, [65, 0]), (20, [66, 67, 0]), (30, [68, 0])}" unfolding e by auto
  moreover have "\<exists>T'. rbtree_insert rb_malloc_above True two_nodes 20 [68] = Inr (- 2, T') \<and> rb_ok T' two_tree"
    using rbtree_insert_correct [OF two_nodes_ok rb_malloc_above_ok, of 20 "[68]"] unfolding if_P [OF k(2)] .
  ultimately show ?thesis using r(1,2) by blast
qed

text \<open>C12: A new tree, loaded with any list of keys and strings, answers every key as the list does: of the strings given for a
  key the first, and null for a key that was not given.\<close>

theorem rbtree_first_insert_wins:
  assumes m: "rb_malloc_ok malloc" and vals: "\<And>k v. (k, v) \<in> set kvs \<Longrightarrow> is_str v"
  shows "\<exists>T T'. rbtreeCreate True = Some T \<and> put_all (rb_put malloc) kvs T = Inr T' \<and> (\<forall>key. rb_got T' key (map_of kvs key))"
proof -
  obtain T where T: "rbtreeCreate True = Some T" "rb_ok T Leaf" using rbtreeCreate_ok by blast
  then have "rb_rep T Map.empty" by (auto simp: rb_rep_def intro!: exI [of _ Leaf])
  from write_once.put_all_got [OF rb_write_once [OF m] this] show ?thesis using T(1) vals by blast
qed

theorem rbtree_first_insert_wins_witness:
  "\<exists>T T'. rbtreeCreate True = Some T \<and> put_all (rb_put rb_malloc_above) [(5, [104]), (3, []), (5, [105])] T = Inr T' \<and>
    rb_got T' 5 (Some [104]) \<and> rb_got T' 3 (Some []) \<and> rb_got T' 4 None"
proof -
  let ?kvs = "[(5, [104]), (3, []), (5, [105])] :: (u64 \<times> byte list) list"
  have v: "is_str v" if "(k, v) \<in> set ?kvs" for k v using that by (auto simp: is_str_def)
  have "\<exists>T T'. rbtreeCreate True = Some T \<and> put_all (rb_put rb_malloc_above) ?kvs T = Inr T' \<and> (\<forall>key. rb_got T' key (map_of ?kvs key))"
    by (rule rbtree_first_insert_wins [OF rb_malloc_above_ok]) (rule v)
  then obtain T T' where r: "rbtreeCreate True = Some T" "put_all (rb_put rb_malloc_above) ?kvs T = Inr T'"
    "\<forall>key. rb_got T' key (map_of ?kvs key)" by blast
  then show ?thesis using spec [OF r(3), of 5] spec [OF r(3), of 3] spec [OF r(3), of 4] by auto
qed

text \<open>C14: A search in a tree of \<open>n\<close> nodes reads at most \<open>h\<close> of them, where \<open>2 ^ h\<close> is at most \<open>(n + 1)\<close> squared: the loop cut off
  after \<open>h\<close> nodes has the answer of the loop, and it is an answer.\<close>

theorem lookup_is_logarithmic:
  assumes "rb_ok T t"
  shows "\<exists>h y. 2 ^ h \<le> (length (entries t) + 1) ^ 2 \<and> lookup_within h key T (rb_root T) 0 = Some y \<and> do_lookup key T 0 = y"
proof -
  have t: "tree_of T t" "balanced t" using assms by (simp_all add: rb_ok_def)
  then have "holds (rb_nodes T) 0 t" "rb_root T = ptr t" by (simp_all add: tree_of_def)
  then show ?thesis
    using lookup_within_ok [of T 0 t "height t" key 0] height_entries [OF t(2)] by (auto simp: do_lookup_def loop_def)
qed

theorem lookup_is_logarithmic_witness:
  "\<exists>h y. 2 ^ h \<le> (9::nat) \<and> lookup_within h 20 two_nodes 1 0 = Some y \<and> do_lookup 20 two_nodes 0 = y"
proof -
  have "length (entries two_tree) = 2" "rb_root two_nodes = 1" by (simp_all add: two_tree_def two_nodes_def)
  then show ?thesis using lookup_is_logarithmic [OF two_nodes_ok, of 20] by simp
qed

text \<open>C13: Starting at \<^verbatim>\<open>rbtree_min\<close>, \<^verbatim>\<open>rbtree_next\<close> leads through all nodes in the order of their keys to null; starting at
  \<^verbatim>\<open>rbtree_max\<close>, \<^verbatim>\<open>rbtree_prev\<close> leads through them backwards.\<close>

theorem iteration_in_order:
  assumes "rb_ok T t"
  defines "as \<equiv> addrs t"
  shows "rbtree_min T = Inr (hd (as @ [0])) \<and> rbtree_max T = Inr (last (0 # as)) \<and>
    (\<forall>i<length as. rbtree_next T (as ! i) = Inr ((as @ [0]) ! Suc i) \<and> rbtree_prev T (as ! i) = Inr ((0 # as) ! i)) \<and>
    map (\<lambda>a. case rb_nodes T a of None \<Rightarrow> (0, []) | Some n \<Rightarrow> (n_key n, n_data n)) as = entries t \<and>
    sorted_wrt (<) (map fst (entries t))"
proof -
  have t: "tree_of T t" "ordered t" "holds (rb_nodes T) 0 t" using assms(1) by (simp_all add: rb_ok_def tree_of_def)
  show ?thesis
    unfolding as_def using rbtree_min_ok [OF t(1)] rbtree_max_ok [OF t(1)] neighbours [OF t(1)] entries_addrs [OF t(3)] t(2)
    by (simp add: ordered_def)
qed

theorem iteration_in_order_witness:
  "rbtree_min two_nodes = Inr 1 \<and> rbtree_next two_nodes 1 = Inr 2 \<and> rbtree_next two_nodes 2 = Inr 0 \<and>
    rbtree_max two_nodes = Inr 2 \<and> rbtree_prev two_nodes 2 = Inr 1 \<and> rbtree_prev two_nodes 1 = Inr 0"
proof -
  have a: "addrs two_tree = [1, 2]" by (simp add: two_tree_def)
  show ?thesis using iteration_in_order [OF two_nodes_ok] unfolding a by (auto simp: less_Suc_eq numeral_2_eq_2)
qed

text \<open>C37: Updating a key replaces its string if the new one is no longer than the buffer made by the first insertion, and keeps
  all other bindings; a longer string is written past the end of the buffer. A key that is not there changes nothing and is
  answered 0 all the same.\<close>

theorem update_in_place_or_overruns:
  assumes ok: "rb_ok T t"
  shows "case map_of (entries t) key of
      None \<Rightarrow> rbtree_update T key data = Inr (0, T)
    | Some buf \<Rightarrow>
        if strlen data < length buf
        then \<exists>T' t'. rbtree_update T key data = Inr (0, T') \<and> rb_ok T' t' \<and>
          rbtree_lookup T' key = Inr (Some (take (strlen data) data @ [0] @ drop (strlen data + 1) buf)) \<and>
          (\<forall>k. k \<noteq> key \<longrightarrow> rbtree_lookup T' k = rbtree_lookup T k)
        else rbtree_update T key data = Inl BadCall"
proof -
  have look: "rbtree_lookup T k = Inr (map_of (entries t) k)" if "rb_ok T t" for T t k
    using lookup_entries that by (simp add: rb_ok_def)
  show ?thesis
  proof (cases "map_of (entries t) key")
    case None
    then have "key \<notin> fst ` set (entries t)" by (simp add: map_of_eq_None_iff)
    then show ?thesis using None rbtree_update_absent [OF ok] by simp
  next
    case (Some buf)
    let ?new = "take (strlen data) data @ [0] @ drop (strlen data + 1) buf"
    note u = rbtree_update_present [OF ok Some, of data]
    show ?thesis
    proof (cases "strlen data < length buf")
      case True
      then obtain T' t' where T': "rbtree_update T key data = Inr (0, T')" "rb_ok T' t'"
        "map_of (entries t') = (map_of (entries t))(key \<mapsto> ?new)" using u by auto
      have "rbtree_lookup T' key = Inr (Some ?new)" "\<forall>k. k \<noteq> key \<longrightarrow> rbtree_lookup T' k = rbtree_lookup T k"
        using look [OF T'(2)] look [OF ok] T'(3) by simp_all
      then show ?thesis using Some True T'(1,2) by auto
    next
      case False
      then show ?thesis using Some u by simp
    qed
  qed
qed

theorem update_in_place_or_overruns_witness:
  "rbtree_update two_nodes 10 [70, 71] = Inl BadCall \<and> rbtree_update two_nodes 30 [70] = Inr (0, two_nodes) \<and>
    (\<exists>T'. rbtree_update two_nodes 20 [70] = Inr (0, T') \<and> rbtree_lookup T' 20 = Inr (Some [70, 0, 0]))"
proof -
  have e: "entries two_tree = [(10, [65, 0]), (20, [66, 67, 0])]" by (simp add: two_tree_def)
  have s: "strlen [70, 71] = 2" "strlen [70] = 1" by (simp_all add: strlen_def)
  show ?thesis
    using update_in_place_or_overruns [OF two_nodes_ok, of 10 "[70, 71]"] update_in_place_or_overruns [OF two_nodes_ok, of 30 "[70]"]
      update_in_place_or_overruns [OF two_nodes_ok, of 20 "[70]"] by (auto simp: e s)
qed

end
