(* ===== verification/Spec2Isabelle.thy ===== *)
theory Spec2Isabelle
  imports RallocReopen HashFunctions ClobberQueue ClobberHashmap RbTreeMap
begin

text \<open>
  A verification development for the C and C++ parts of memento: the persistent allocator that every memento program links
  (\<^verbatim>\<open>src/ext/ralloc/src\<close>), the hash functions of the hash table benchmarks
  (\<^verbatim>\<open>src/evaluation/performance/hash/hash/common/hash.h\<close>), and three data structures of the queue benchmarks
  (\<^verbatim>\<open>src/evaluation/performance/queue/src/clobber-nvm/apps\<close>: queue, hash map, red-black tree).

  \<^bold>\<open>The allocator.\<close> A heap is three mapped files: descriptors, metadata and superblocks. \<^verbatim>\<open>RegionManager\<close> maps a file and
  hands out its bytes from a frontier; \<^verbatim>\<open>BaseMeta\<close> keeps a descriptor for each superblock of 64 KiB and moves superblocks
  between a list of free ones, a list of partially used ones for each size class, and full; \<^verbatim>\<open>TCache\<close> keeps free blocks for
  each thread and size class; \<^verbatim>\<open>ralloc.cpp\<close> is the interface \<^verbatim>\<open>RP_malloc\<close>, \<^verbatim>\<open>RP_free\<close> and so on. After a crash only the
  roots, the descriptors and the blocks are trusted: \<^verbatim>\<open>GarbageCollection\<close> marks what the roots reach and sweeps the rest.

  \<^item> \<open>PmConfig\<close>, \<open>SizeClass\<close>, \<open>Pptr\<close>, \<open>CrossPtr\<close>, \<open>RegionManager\<close>, \<open>Descriptor\<close>, \<open>TCache\<close> and \<open>BaseMeta\<close> are the
    translation, one definition for each function, under its name. The state is the record \<open>ralloc\<close> of \<open>BaseMeta\<close>, the
    process with its files the record \<open>process\<close> of \<open>RallocApi\<close>. \<open>ByteMemory\<close> holds the loads and stores of the mapped bytes.
  \<^item> \<open>HeapInv\<close> is the invariant \<open>heap_inv\<close>; \<open>HeapLists\<close>, \<open>HeapBlocks\<close>, \<open>HeapLive\<close>, \<open>HeapCache\<close>, \<open>HeapFlush\<close>,
    \<open>HeapLarge\<close> and \<open>HeapMalloc\<close> show that each operation keeps it and what each does. \<open>HeapClient\<close> gives the abstract
    heap, a map from blocks to their bytes, and the refinement: allocation adds a fresh disjoint block, deallocation
    removes it, nothing else changes, in all states \<open>reach\<close> contains.
  \<^item> \<open>GarbageCollection\<close> is the collection as it is written, \<open>GcSweep\<close> and \<open>Recovery\<close> its correctness: marking is
    reachability, and recovery keeps exactly the reachable blocks. \<open>DirtyFlag\<close> is the robust mutex, with the thread that holds
    it, that tells a crash from a clean exit. \<open>RegionFrame\<close> and \<open>RallocApi\<close> are the public interface.
  \<^item> The life of a heap is a chain of processes over the same files. The record \<open>heap_files\<close> keeps what a file holds by its
    distance from the start of the file, \<open>files_of\<close> and \<open>RP_close\<close> are what a process leaves, and \<open>map_files\<close> in \<open>RP_init\<close> is what the
    next one sees, at the addresses the operating system then chooses. \<open>RallocLife\<close> treats creation and misuse of the interface.
    \<open>Relocate\<close> shows that the invariant and the abstract heap move with the files, because all that is stored is relative;
    \<open>RallocReopen\<close> puts it together: closed and opened again, or crashed and recovered, at other addresses and with the thread
    caches of the old process lost. It also shows two things that do not survive a move.
  \<^item> The locale \<open>link_store\<close> is the contract of links kept in a store; it is interpreted on the links in free blocks and on
    both lists of descriptors.

  \<^bold>\<open>Hash functions.\<close> \<open>HashFunctions\<close> translates \<^verbatim>\<open>hash.h\<close> on 64-bit and 32-bit words. The locale \<open>byte_hash\<close> says that a hash
  depends on the bytes of the key alone; all four functions interpret it.

  \<^bold>\<open>Benchmark structures.\<close> \<open>ClobberQueue\<close> translates \<^verbatim>\<open>queue.c\<close>; the locale \<open>fifo\<close> is its contract. \<open>ClobberHashmap\<close>
  translates \<^verbatim>\<open>hashmap_v.c\<close> and \<open>RbTree\<close> translates \<^verbatim>\<open>rbtree.c\<close>; both meet the locale \<open>write_once\<close> of \<open>MapContract\<close>, the
  contract of a map in which the first insertion of a key wins. \<open>RbTreeShape\<close> relates a store of nodes with parent pointers
  to a tree and a position in it, \<open>RbTreeSearch\<close> treats searching and neighbours, \<open>RbTreeInsert\<close> the loop that restores the
  balance, \<open>RbTreeMap\<close> the properties. The queue and the tree hold over any allocator that returns fresh blocks
  (\<open>malloc_ok\<close>, \<open>rb_malloc_ok\<close>); the locales \<open>queue_env\<close> and \<open>rb_env\<close> carry that assumption.

  \<^bold>\<open>Conventions.\<close> A fallible operation has type \<open>'a outcome\<close>; \<open>Inl\<close> names the failure: an assertion, no space left in the file,
  a lost compare-and-swap (\<open>Retry\<close>), exit, a null or invalid access, a loop without end. Addresses are natural numbers,
  machine words are words of their width, and offsets that the code computes in 64 or 32 bits wrap where they do there.
  Answers of the operating system, of \<^verbatim>\<open>malloc\<close> and of \<^verbatim>\<open>rand\<close> are arguments.

  \<^bold>\<open>Loops and fuel.\<close> Most loops are recursive functions with a termination proof: the marking loop, for one, ends because each
  round marks or consumes an address of a finite region. Fuel is used twice. \<open>malloc_from_partial\<close> has \<open>Suc MAX_SB_AMOUNT\<close>
  rounds, one more than there are superblocks on a partial list, and \<open>heap_inv\<close> shows that they suffice. A walk through a
  bucket of the hash map has \<open>Suc VALUE_COUNT\<close> steps, one more than there are entries. The loops of the red-black tree and
  the draw of the hash map's coefficient are partial functions, \<open>Diverges\<close> when they do not end; the properties show that
  they return, the draw as soon as some answer of \<^verbatim>\<open>rand\<close> is not 0.

  \<^bold>\<open>Not modelled.\<close> Operations run one after another: interference between threads, the order in which cache lines reach
  persistent memory, and hence the lock-free progress of the allocator are outside the model; a failed compare-and-swap is
  an outcome. Hence a process dies between two operations, and everything the finished operations wrote is in the files. The
  positive properties of reopening ask that the file of the superblocks moves by a multiple of 64 KiB and that the superblocks
  end before the last byte of the file; without the first, lookup of descriptors fails (\<open>remap_misaligned\<close>), without the second
  a byte is lost (\<open>reopen_clears_last_byte\<close>). The properties of allocation are about requests whose size, rounded up to
  superblocks, is below 4 GiB; \<open>large_size_truncated\<close> says what happens beyond. Deleting the heap files and the time statistic of ralloc are input and output. memento itself
  (\<^verbatim>\<open>src/src\<close>) and crossbeam are Rust and their arguments are about weak persistency. The hash tables Dash, CCEH, Level,
  PCLHT and Clevel, the copies of PMDK and memcached, makalu and lrmalloc are third-party programs or depend on libraries
  that are not in the tree; the B+ tree and the skip list of Clobber-NVM, its runtime and its compiler passes, the tests and
  the old allocator are not run by memento or its benchmarks, or rest on such libraries.
\<close>

end
